(* ===== verification/Lsh_Prelude.thy ===== *)
theory Lsh_Prelude
  imports Main "HOL-Library.Word" "HOL-Library.Monad_Syntax"
begin

text \<open>
  Shared ground of the development: the machine types of the C sources, the reading of a
  call that does not return, byte-order macros, slices of a buffer, and the lemmas on words
  and lists that every component uses.

  \<^item> \<open>uint8_t\<close> and \<open>uint32_t\<close> are \<open>8 word\<close> and \<open>32 word\<close>; their \<open>+\<close> and \<open>-\<close> wrap.
  \<^item> A C call that never returns to its caller (a failed \<open>assert\<close>, \<open>fatal\<close>, \<open>abort\<close>, an
    endless loop) is the value \<open>None\<close> of an \<open>option\<close>. An error that the code reports to
    its caller (a zero result, a NULL pointer, a status code) is an ordinary value.
  \<^item> A \<open>const uint8_t *\<close> with a length is the list of the bytes it points to.
\<close>

unbundle bit_operations_syntax

type_synonym byte = "8 word"
type_synonym bytes = "byte list"
type_synonym u32 = "32 word"

text \<open>
  \<open>u32_arith\<close> collects the facts that move a 32-bit comparison or sum to natural numbers;
  \<open>lsh_assert\<close> the ones that evaluate asserted code.
\<close>

named_theorems u32_arith
named_theorems lsh_assert

section \<open>Assertions\<close>

definition c_assert :: "bool \<Rightarrow> unit option" where
  "c_assert b = (if b then Some () else None)"

section \<open>Byte order\<close>

text \<open>
  The macros that store and fetch an integer in network byte order, as \<open>sftp/buffer.h\<close>
  spells them out; \<open>nettle/macros.h\<close> gives the ones of the same names to the rest.
\<close>

definition WRITE_UINT32 :: "u32 \<Rightarrow> bytes" where
  "WRITE_UINT32 i =
     [ucast (drop_bit 24 i AND 0xff), ucast (drop_bit 16 i AND 0xff),
      ucast (drop_bit 8 i AND 0xff), ucast (i AND 0xff)]"

definition READ_UINT32 :: "bytes \<Rightarrow> u32" where
  "READ_UINT32 p =
     push_bit 24 (ucast (p ! 0)) OR push_bit 16 (ucast (p ! 1))
     OR push_bit 8 (ucast (p ! 2)) OR ucast (p ! 3)"

definition READ_UINT16 :: "bytes \<Rightarrow> u32" where
  "READ_UINT16 p = push_bit 8 (ucast (p ! 0)) OR ucast (p ! 1)"

section \<open>Slices\<close>

text \<open>\<open>slice s n xs\<close>: the \<open>n\<close> elements of \<open>xs\<close> from index \<open>s\<close>; \<open>overwrite s ys xs\<close>: \<open>xs\<close> with
  \<open>ys\<close> stored from index \<open>s\<close>, which is what \<open>memcpy\<close> into a buffer does.\<close>

definition slice :: "nat \<Rightarrow> nat \<Rightarrow> 'a list \<Rightarrow> 'a list" where
  "slice s n xs = take n (drop s xs)"

definition overwrite :: "nat \<Rightarrow> 'a list \<Rightarrow> 'a list \<Rightarrow> 'a list" where
  "overwrite s ys xs = take s xs @ ys @ drop (s + length ys) xs"

definition cstring :: "string \<Rightarrow> bytes" where
  "cstring s = map of_char s"

lemma c_assert_True [simp, lsh_assert]: "b \<Longrightarrow> c_assert b = Some ()"
  by (simp add: c_assert_def)

lemma c_assert_False [simp, lsh_assert]: "\<not> b \<Longrightarrow> c_assert b = None"
  by (simp add: c_assert_def)

lemma c_assert_eq_Some [simp, lsh_assert]: "c_assert b = Some u \<longleftrightarrow> b"
  by (simp add: c_assert_def)

lemma c_assert_eq_None [simp, lsh_assert]: "c_assert b = None \<longleftrightarrow> \<not> b"
  by (simp add: c_assert_def)

lemma c_assert_bind: "c_assert b \<bind> f = (if b then f () else None)"
  by (simp add: c_assert_def)

lemma c_assert_bind_eq_Some [lsh_assert]:
  "(c_assert b \<bind> f = Some x) \<longleftrightarrow> b \<and> f () = Some x"
  by (simp add: c_assert_def)

lemma length_WRITE_UINT32 [simp]: "length (WRITE_UINT32 i) = 4"
  by (simp add: WRITE_UINT32_def)


lemma ff_mask: "(0xff :: 'a::len word) = mask 8"
  by (simp add: mask_eq_exp_minus_1)

lemma READ_WRITE_UINT32 [simp]: "READ_UINT32 (WRITE_UINT32 i @ rest) = i"
proof (rule bit_word_eqI)
  fix n assume "n < LENGTH(32)"
  then have "n < 8 \<or> (8 \<le> n \<and> n < 16) \<or> (16 \<le> n \<and> n < 24) \<or> (24 \<le> n \<and> n < 32)"
    by (simp; linarith)
  then show "bit (READ_UINT32 (WRITE_UINT32 i @ rest)) n = bit i n"
    by (elim disjE) (simp_all add: READ_UINT32_def WRITE_UINT32_def ff_mask bit_simps, arith+)
qed

lemma bit_byte_ge: "8 \<le> n \<Longrightarrow> \<not> bit (a :: byte) n"
  by (rule impossible_bit) simp

lemma WRITE_READ_UINT32 [simp]: "WRITE_UINT32 (READ_UINT32 (a # b # c # d # rest)) = [a, b, c, d]"
  unfolding READ_UINT32_def WRITE_UINT32_def
  by (simp add: ff_mask, intro conjI; rule bit_word_eqI; simp add: bit_simps bit_byte_ge)

lemma READ_UINT32_append [simp]: "4 \<le> length xs \<Longrightarrow> READ_UINT32 (xs @ ys) = READ_UINT32 xs"
  by (cases "xs = []") (simp_all add: READ_UINT32_def nth_append)

lemma WRITE_UINT32_inject [simp]: "WRITE_UINT32 i = WRITE_UINT32 j \<longleftrightarrow> i = j"
  by (metis READ_WRITE_UINT32)

section \<open>32-bit arithmetic on natural numbers\<close>

lemma u32_less [u32_arith]: "(a :: u32) < b \<longleftrightarrow> unat a < unat b"
  by (rule word_less_nat_alt)

lemma u32_le [u32_arith]: "(a :: u32) \<le> b \<longleftrightarrow> unat a \<le> unat b"
  by (rule word_le_nat_alt)

lemma unat_u32_bound [simp]: "unat (a :: u32) < 4294967296"
proof -
  have "unat a < 2 ^ LENGTH(32)" by (rule unsigned_less)
  then show ?thesis by simp
qed

lemma unat_u32_add: "unat (a :: u32) + unat b < 4294967296 \<Longrightarrow> unat (a + b) = unat a + unat b"
  using unat_add_lem [of a b] by simp

lemma unat_u32_Suc: "unat (a :: u32) < unat (b :: u32) \<Longrightarrow> unat (a + 1) = Suc (unat a)"
  using unat_u32_add [of a 1] unat_u32_bound [of b] by (simp del: unat_u32_bound)

lemma unat_u32_diff: "unat (b :: u32) \<le> unat a \<Longrightarrow> unat (a - b) = unat a - unat b"
  by (simp add: unat_sub word_le_nat_alt)

lemma unat_u32_of_nat: "n < 4294967296 \<Longrightarrow> unat (of_nat n :: u32) = n"
  by (simp add: unat_of_nat)

lemma unat_u32_add_nat: "unat (j :: u32) + n \<le> unat (b :: u32) \<Longrightarrow> unat (j + of_nat n) = unat j + n"
  using unat_u32_bound [of b] by (simp add: unat_u32_add unat_u32_of_nat del: unat_u32_bound)

lemma unat_ucast_byte [simp]: "unat (ucast (c :: byte) :: u32) = unat c"
proof -
  have "unat c < 2 ^ LENGTH(8)" by (rule unsigned_less)
  then show ?thesis by (simp add: unsigned_ucast_eq take_bit_nat_eq_self)
qed

lemma unat_u32_mod: "unat (a + b :: u32) = (unat a + unat b) mod 4294967296"
  by (simp add: unat_word_ariths)

section \<open>Slices and overwriting\<close>

lemma length_slice [simp]: "length (slice s n xs) = min n (length xs - s)"
  by (simp add: slice_def)

lemma slice_Nil [simp]: "slice s 0 xs = []"
  by (simp add: slice_def)

lemma slice_append_split: "slice s (m + n) xs = slice s m xs @ slice (s + m) n xs"
  by (simp add: slice_def take_add add.commute)

lemma slice_slice: "a + b \<le> n \<Longrightarrow> slice a b (slice s n xs) = slice (s + a) b xs"
  by (simp add: slice_def drop_take take_take add.commute min_def)

lemma take_slice: "take k (slice s n xs) = slice s (min k n) xs"
  by (simp add: slice_def min.commute)

lemma drop_slice: "drop k (slice s n xs) = slice (s + k) (n - k) xs"
  by (simp add: slice_def drop_take add.commute)

lemma nth_slice [simp]: "i < n \<Longrightarrow> s + i < length xs \<Longrightarrow> slice s n xs ! i = xs ! (s + i)"
  by (simp add: slice_def)

lemma length_overwrite [simp]:
  "s + length ys \<le> length xs \<Longrightarrow> length (overwrite s ys xs) = length xs"
  by (simp add: overwrite_def)

lemma slice_overwrite_same [simp]:
  "s + length ys \<le> length xs \<Longrightarrow> slice s (length ys) (overwrite s ys xs) = ys"
  by (simp add: slice_def overwrite_def)

lemma slice_overwrite_after:
  "s + length ys \<le> a \<Longrightarrow> s \<le> length xs \<Longrightarrow> slice a n (overwrite s ys xs) = slice a n xs"
  by (simp add: slice_def overwrite_def)

lemma overwrite_Nil [simp]: "s \<le> length xs \<Longrightarrow> overwrite s [] xs = xs"
  by (simp add: overwrite_def)

lemma overwrite_append:
  "s + length ys + length zs \<le> length xs \<Longrightarrow>
   overwrite (s + length ys) zs (overwrite s ys xs) = overwrite s (ys @ zs) xs"
  by (simp add: overwrite_def add.assoc add.commute add.left_commute)

lemma overwrite_prepend:
  "s + length ys + length zs \<le> length xs \<Longrightarrow>
   overwrite s ys (overwrite (s + length ys) zs xs) = overwrite s (ys @ zs) xs"
  by (simp add: overwrite_def add.assoc)

lemma take_overwrite: "s \<le> length xs \<Longrightarrow> take s (overwrite s ys xs) = take s xs"
  by (simp add: overwrite_def)

lemma take_overwrite_end:
  "s + length ys \<le> length xs \<Longrightarrow> take (s + length ys) (overwrite s ys xs) = take s xs @ ys"
  by (simp add: overwrite_def)

lemma slice_take: "a + n \<le> s \<Longrightarrow> slice a n (take s xs) = slice a n xs"
  by (simp add: slice_def drop_take take_take min_def)

lemma slice_overwrite_before:
  "a + n \<le> s \<Longrightarrow> s \<le> length xs \<Longrightarrow> slice a n (overwrite s ys xs) = slice a n xs"
  using slice_take [of a n s "overwrite s ys xs"] slice_take [of a n s xs]
  by (simp add: take_overwrite)

lemma overwrite_single: "i < length xs \<Longrightarrow> overwrite i [x] xs = xs[i := x]"
  by (simp add: overwrite_def upd_conv_take_nth_drop)

lemma overwrite_whole: "length ys = length xs \<Longrightarrow> overwrite 0 ys xs = ys"
  by (simp add: overwrite_def)

lemma length_cstring [simp]: "length (cstring s) = length s"
  by (simp add: cstring_def)

end
