(* ===== verification/Lsh_String.thy ===== *)
theory Lsh_String
  imports Lsh_Prelude
begin

text \<open>
  \<open>src/lsh_string.c\<close>: the counted, NUL-terminated strings in which all buffers live. A
  string is its length and the memory allocated for its data; the operations check room by
  assertion. The lemmas show that an operation returns exactly when the range it writes is
  inside the string, that it then keeps the terminating NUL, and what the new contents are;
  the hexadecimal, colonized and Bubble Babble renderings are built on them.
\<close>

section \<open>The representation\<close>

record lsh_string =
  str_length :: u32
  str_data :: bytes

text \<open>The bytes of the string proper, and the sanity condition that
  \<open>assert(!s->data[s->length])\<close> checks.\<close>

definition contents :: "lsh_string \<Rightarrow> bytes" where
  "contents s = take (unat (str_length s)) (str_data s)"

definition nul_terminated :: "lsh_string \<Rightarrow> bool" where
  "nul_terminated s \<longleftrightarrow> unat (str_length s) < length (str_data s) \<and> str_data s ! unat (str_length s) = 0"

definition room :: "lsh_string \<Rightarrow> u32 \<Rightarrow> u32 \<Rightarrow> bool" where
  "room s start l \<longleftrightarrow> unat start + unat l \<le> unat (str_length s)"

text \<open>Fresh memory holds whatever \<open>malloc\<close> left there, \<open>junk\<close>.\<close>

definition lsh_string_alloc :: "(nat \<Rightarrow> byte) \<Rightarrow> u32 \<Rightarrow> lsh_string" where
  "lsh_string_alloc junk l =
     \<lparr>str_length = l, str_data = map junk [0..<unat l] @ [0]\<rparr>"

definition lsh_string_length :: "lsh_string \<Rightarrow> u32" where
  "lsh_string_length s = str_length s"

definition lsh_string_data :: "lsh_string \<Rightarrow> bytes" where
  "lsh_string_data s = str_data s"

section \<open>Comparisons\<close>

text \<open>\<open>memcmp\<close> of \<open>n\<close> bytes is zero.\<close>

definition memeq :: "bytes \<Rightarrow> bytes \<Rightarrow> u32 \<Rightarrow> bool" where
  "memeq a b n \<longleftrightarrow> take (unat n) a = take (unat n) b"

definition lsh_string_eq_l :: "lsh_string \<Rightarrow> u32 \<Rightarrow> bytes \<Rightarrow> bool" where
  "lsh_string_eq_l a l b \<longleftrightarrow> lsh_string_length a = l \<and> memeq (lsh_string_data a) b l"

definition lsh_string_eq :: "lsh_string \<Rightarrow> lsh_string \<Rightarrow> bool" where
  "lsh_string_eq a b = lsh_string_eq_l a (lsh_string_length b) (lsh_string_data b)"

definition lsh_string_prefixp :: "lsh_string \<Rightarrow> lsh_string \<Rightarrow> bool" where
  "lsh_string_prefixp prefix s =
     (let plength = lsh_string_length prefix in
      plength \<le> lsh_string_length s \<and> memeq (lsh_string_data prefix) (lsh_string_data s) plength)"

definition lsh_get_cstring :: "lsh_string option \<Rightarrow> bytes option" where
  "lsh_get_cstring s =
     (case s of None \<Rightarrow> None
      | Some s \<Rightarrow> if 0 \<in> set (contents s) then None else Some (str_data s))"

section \<open>Operations on the bytes\<close>

definition lsh_string_putc :: "lsh_string \<Rightarrow> u32 \<Rightarrow> byte \<Rightarrow> lsh_string option" where
  "lsh_string_putc s i c =
     do { c_assert (i < str_length s);
          Some (s\<lparr>str_data := (str_data s)[unat i := c]\<rparr>) }"

definition ASSERT_ROOM :: "lsh_string \<Rightarrow> u32 \<Rightarrow> u32 \<Rightarrow> unit option" where
  "ASSERT_ROOM s start l =
     do { c_assert (start \<le> str_length s);
          c_assert (l \<le> str_length s - start) }"

definition ASSERT_NUL :: "lsh_string \<Rightarrow> unit option" where
  "ASSERT_NUL s = c_assert (str_data s ! unat (str_length s) = 0)"

definition lsh_string_set :: "lsh_string \<Rightarrow> u32 \<Rightarrow> u32 \<Rightarrow> byte \<Rightarrow> lsh_string option" where
  "lsh_string_set s start l c =
     do { ASSERT_ROOM s start l;
          let s' = s\<lparr>str_data := overwrite (unat start) (replicate (unat l) c) (str_data s)\<rparr>;
          ASSERT_NUL s';
          Some s' }"

text \<open>The second assertion is not in the code: \<open>memcpy\<close> from fewer bytes than \<open>l\<close> is
  undefined behaviour, which the model counts as not returning.\<close>

definition lsh_string_write :: "lsh_string \<Rightarrow> u32 \<Rightarrow> u32 \<Rightarrow> bytes \<Rightarrow> lsh_string option" where
  "lsh_string_write s start l data =
     do { ASSERT_ROOM s start l;
          c_assert (unat l \<le> length data);
          let s' = s\<lparr>str_data := overwrite (unat start) (take (unat l) data) (str_data s)\<rparr>;
          ASSERT_NUL s';
          Some s' }"

text \<open>\<open>memmove\<close>; a source range outside the allocated memory is undefined behaviour.\<close>

definition lsh_string_move :: "lsh_string \<Rightarrow> u32 \<Rightarrow> u32 \<Rightarrow> u32 \<Rightarrow> lsh_string option" where
  "lsh_string_move s start l from =
     do { ASSERT_ROOM s start l;
          c_assert (start \<noteq> from);
          c_assert (unat from + unat l \<le> length (str_data s));
          Some (s\<lparr>str_data := overwrite (unat start) (slice (unat from) (unat l) (str_data s))
                                        (str_data s)\<rparr>) }"

definition lsh_string_write_uint32 :: "lsh_string \<Rightarrow> u32 \<Rightarrow> u32 \<Rightarrow> lsh_string option" where
  "lsh_string_write_uint32 s start n =
     do { ASSERT_ROOM s start 4;
          let s' = s\<lparr>str_data := overwrite (unat start) (WRITE_UINT32 n) (str_data s)\<rparr>;
          ASSERT_NUL s';
          Some s' }"

definition lsh_string_trunc :: "lsh_string \<Rightarrow> u32 \<Rightarrow> lsh_string option" where
  "lsh_string_trunc s l =
     do { c_assert (l \<le> str_length s);
          Some \<lparr>str_length = l, str_data = (str_data s)[unat l := 0]\<rparr> }"

definition lsh_string_write_string :: "lsh_string \<Rightarrow> u32 \<Rightarrow> lsh_string \<Rightarrow> lsh_string option" where
  "lsh_string_write_string s pos d = lsh_string_write s pos (lsh_string_length d) (lsh_string_data d)"

text \<open>Bytes produced outside this file (a cipher, a digest, the random generator, \<open>read\<close>)
  and stored in place: \<open>f\<close> is the foreign function, \<open>ctx\<close> its state.\<close>

definition lsh_string_crypt ::
  "('c \<Rightarrow> bytes \<Rightarrow> 'c \<times> bytes) \<Rightarrow> 'c \<Rightarrow> bool \<Rightarrow> lsh_string \<Rightarrow> u32 \<Rightarrow> lsh_string \<Rightarrow> u32 \<Rightarrow> u32 \<Rightarrow>
   ('c \<times> lsh_string) option" where
  "lsh_string_crypt f ctx same dst di src si l =
     do { ASSERT_ROOM dst di l;
          ASSERT_ROOM src si l;
          c_assert (\<not> same \<or> di = si);
          let (ctx', out) = f ctx (slice (unat si) (unat l) (str_data src));
          let dst' = dst\<lparr>str_data := overwrite (unat di) out (str_data dst)\<rparr>;
          ASSERT_NUL dst';
          Some (ctx', dst') }"

definition lsh_string_write_random :: "(nat \<Rightarrow> byte) \<Rightarrow> lsh_string \<Rightarrow> u32 \<Rightarrow> u32 \<Rightarrow> lsh_string option" where
  "lsh_string_write_random rnd s start l =
     do { ASSERT_ROOM s start l;
          let s' = s\<lparr>str_data := overwrite (unat start) (map rnd [0..<unat l]) (str_data s)\<rparr>;
          ASSERT_NUL s';
          Some s' }"

definition lsh_string_random :: "(nat \<Rightarrow> byte) \<Rightarrow> (nat \<Rightarrow> byte) \<Rightarrow> u32 \<Rightarrow> lsh_string option" where
  "lsh_string_random junk rnd l = lsh_string_write_random rnd (lsh_string_alloc junk l) 0 l"

definition lsh_string_realloc :: "(nat \<Rightarrow> byte) \<Rightarrow> lsh_string \<Rightarrow> u32 \<Rightarrow> lsh_string option" where
  "lsh_string_realloc junk s new_size =
     do { c_assert (lsh_string_length s < new_size);
          lsh_string_write_string (lsh_string_alloc junk new_size) 0 s }"

definition lsh_string_dup :: "(nat \<Rightarrow> byte) \<Rightarrow> lsh_string \<Rightarrow> lsh_string option" where
  "lsh_string_dup junk s =
     lsh_string_write (lsh_string_alloc junk (lsh_string_length s)) 0
       (lsh_string_length s) (lsh_string_data s)"

text \<open>A run of \<open>lsh_string_putc(s, pos++, b)\<close> over the bytes of a list.\<close>

fun put_bytes :: "lsh_string \<Rightarrow> u32 \<Rightarrow> bytes \<Rightarrow> lsh_string option" where
  "put_bytes s pos [] = Some s"
| "put_bytes s pos (b # bs) = do { s' \<leftarrow> lsh_string_putc s pos b; put_bytes s' (pos + 1) bs }"


section \<open>What an operation does to the contents\<close>

lemma ASSERT_ROOM_eq [lsh_assert]: "ASSERT_ROOM s start l = c_assert (room s start l)"
  by (auto simp: ASSERT_ROOM_def room_def c_assert_def u32_arith unat_u32_diff)

lemma nul_terminated_length: "nul_terminated s \<Longrightarrow> unat (str_length s) < length (str_data s)"
  by (simp add: nul_terminated_def)

lemma length_contents [simp]: "nul_terminated s \<Longrightarrow> length (contents s) = unat (str_length s)"
  by (simp add: contents_def nul_terminated_def)

lemma nul_terminated_alloc [simp]: "nul_terminated (lsh_string_alloc junk l)"
  by (simp add: nul_terminated_def lsh_string_alloc_def nth_append)

lemma str_length_alloc [simp]: "str_length (lsh_string_alloc junk l) = l"
  by (simp add: lsh_string_alloc_def)

lemma contents_alloc: "contents (lsh_string_alloc junk l) = map junk [0..<unat l]"
  by (simp add: contents_def lsh_string_alloc_def)

text \<open>Storing bytes inside the string keeps the terminator and is an overwrite of the contents.\<close>

lemma nul_terminated_overwrite:
  assumes "nul_terminated s" "pos + length bs \<le> unat (str_length s)"
  shows "nul_terminated (s\<lparr>str_data := overwrite pos bs (str_data s)\<rparr>)"
  using assms by (auto simp: nul_terminated_def overwrite_def nth_append)

lemma contents_overwrite:
  assumes "nul_terminated s" "pos + length bs \<le> unat (str_length s)"
  shows "contents (s\<lparr>str_data := overwrite pos bs (str_data s)\<rparr>) = overwrite pos bs (contents s)"
  using assms by (simp add: contents_def overwrite_def nul_terminated_def take_drop)

lemmas string_overwrite = nul_terminated_overwrite contents_overwrite

lemma ASSERT_NUL_ok [simp, lsh_assert]: "nul_terminated s \<Longrightarrow> ASSERT_NUL s = Some ()"
  by (simp add: ASSERT_NUL_def nul_terminated_def)

lemma lsh_string_write_eq:
  assumes "nul_terminated s"
  shows "lsh_string_write s start l d =
    (if room s start l \<and> unat l \<le> length d
     then Some (s\<lparr>str_data := overwrite (unat start) (take (unat l) d) (str_data s)\<rparr>) else None)"
  using nul_terminated_overwrite [OF assms, of "unat start" "take (unat l) d"]
  by (auto simp: lsh_string_write_def lsh_assert c_assert_bind room_def Let_def)

lemma lsh_string_write_uint32_eq:
  assumes "nul_terminated s"
  shows "lsh_string_write_uint32 s start n =
    (if room s start 4
     then Some (s\<lparr>str_data := overwrite (unat start) (WRITE_UINT32 n) (str_data s)\<rparr>) else None)"
  using nul_terminated_overwrite [OF assms, of "unat start" "WRITE_UINT32 n"]
  by (auto simp: lsh_string_write_uint32_def lsh_assert c_assert_bind room_def Let_def)

lemma lsh_string_putc_eq:
  assumes "nul_terminated s"
  shows "lsh_string_putc s i c =
    (if unat i < unat (str_length s)
     then Some (s\<lparr>str_data := overwrite (unat i) [c] (str_data s)\<rparr>) else None)"
  using assms
  by (auto simp: lsh_string_putc_def c_assert_bind u32_arith overwrite_single nul_terminated_def)

lemma lsh_string_write_random_eq:
  assumes "nul_terminated s"
  shows "lsh_string_write_random rnd s start l =
    (if room s start l
     then Some (s\<lparr>str_data := overwrite (unat start) (map rnd [0..<unat l]) (str_data s)\<rparr>) else None)"
  using nul_terminated_overwrite [OF assms, of "unat start" "map rnd [0..<unat l]"]
  by (auto simp: lsh_string_write_random_def lsh_assert c_assert_bind room_def Let_def)

lemma lsh_string_move_eq:
  assumes "nul_terminated s"
  shows "lsh_string_move s start l from =
    (if room s start l \<and> start \<noteq> from \<and> unat from + unat l \<le> length (str_data s)
     then Some (s\<lparr>str_data := overwrite (unat start) (slice (unat from) (unat l) (str_data s))
                                        (str_data s)\<rparr>) else None)"
  by (auto simp: lsh_string_move_def lsh_assert c_assert_bind)

lemma put_bytes_eq:
  assumes "nul_terminated s" "unat pos + length bs \<le> unat (str_length s)"
  shows "put_bytes s pos bs = Some (s\<lparr>str_data := overwrite (unat pos) bs (str_data s)\<rparr>)"
  using assms
proof (induction bs arbitrary: s pos)
  case Nil
  then show ?case by (simp add: nul_terminated_def)
next
  case (Cons b bs)
  let ?s = "s\<lparr>str_data := overwrite (unat pos) [b] (str_data s)\<rparr>"
  have pos: "unat (pos + 1) = unat pos + 1"
    using Cons.prems unat_u32_Suc [of pos "str_length s"] by simp
  have ok: "nul_terminated ?s"
    using Cons.prems by (intro nul_terminated_overwrite) auto
  have "put_bytes ?s (pos + 1) bs = Some (?s\<lparr>str_data := overwrite (unat (pos + 1)) bs (str_data ?s)\<rparr>)"
    using Cons.prems ok by (intro Cons.IH) (simp_all add: pos)
  moreover have "overwrite (unat pos + 1) bs (overwrite (unat pos) [b] (str_data s))
      = overwrite (unat pos) (b # bs) (str_data s)"
    using overwrite_append [of "unat pos" "[b]" bs "str_data s"] Cons.prems
      nul_terminated_length [of s] by simp
  ultimately show ?case
    using Cons.prems by (simp add: lsh_string_putc_eq pos)
qed

end
