(* ===== verification/String_Encodings.thy ===== *)
theory String_Encodings
  imports Lsh_String
begin

text \<open>
  The text renderings of \<open>src/lsh_string.c\<close>: hexadecimal input, the colon-separated form of
  a fingerprint, and Bubble Babble. Each is the loop of the source over
  \<open>lsh_string_putc\<close>; the lemmas show that the loops never leave the string they allocated
  and give a reference definition of what they write.
\<close>

section \<open>Hexadecimal input\<close>

definition hex_table :: "int list" where
  "hex_table =
    [-1, -1, -1, -1, -1, -1, -1, -1, -1, -2, -2, -1, -1, -2, -1, -1,
     -1, -1, -1, -1, -1, -1, -1, -1, -1, -1, -1, -1, -1, -1, -1, -1,
     -2, -1, -1, -1, -1, -1, -1, -1, -1, -1, -1, -1, -1, -1, -1, -1,
      0,  1,  2,  3,  4,  5,  6,  7,  8,  9, -1, -1, -1, -1, -1, -1,
     -1, 10, 11, 12, 13, 14, 15, -1, -1, -1, -1, -1, -1, -1, -1, -1,
     -1, -1, -1, -1, -1, -1, -1, -1, -1, -1, -1, -1, -1, -1, -1, -1,
     -1, 10, 11, 12, 13, 14, 15, -1, -1, -1, -1, -1, -1, -1, -1, -1,
     -1, -1, -1, -1, -1, -1, -1, -1, -1, -1, -1, -1, -1, -1, -1, -1]"

text \<open>The loop of \<open>lsh_string_hex_decode\<close> from index \<open>i\<close>; the inner \<open>None\<close> is the NULL of
  the label \<open>fail\<close>.\<close>

fun hex_decode_loop :: "bytes \<Rightarrow> u32 \<Rightarrow> lsh_string \<Rightarrow> lsh_string option option" where
  "hex_decode_loop (h1 # h2 # hex) i s =
     (if 0x80 \<le> h1 \<or> 0x80 \<le> h2 then Some None
      else let d1 = hex_table ! unat h1 in
        if d1 < 0 then Some None
        else let d2 = hex_table ! unat h2 in
          if d2 < 0 then Some None
          else do { s' \<leftarrow> lsh_string_putc s (i div 2) (word_of_int (push_bit 4 d1 OR d2));
                    hex_decode_loop hex (i + 2) s' })"
| "hex_decode_loop hex i s = Some (Some s)"

definition lsh_string_hex_decode :: "(nat \<Rightarrow> byte) \<Rightarrow> u32 \<Rightarrow> bytes \<Rightarrow> lsh_string option option" where
  "lsh_string_hex_decode junk l hex =
     (if l AND 1 \<noteq> 0 then Some None
      else hex_decode_loop (take (unat l) hex) 0 (lsh_string_alloc junk (l div 2)))"

section \<open>Colons\<close>

primrec colonize_loop :: "bytes \<Rightarrow> u32 \<Rightarrow> u32 \<Rightarrow> u32 \<Rightarrow> lsh_string \<Rightarrow> (u32 \<times> lsh_string) option" where
  "colonize_loop [] every i j packet = Some (j, packet)"
| "colonize_loop (c # cs) every i j packet =
     do { (j, packet) \<leftarrow>
            (if i \<noteq> 0 \<and> i mod every = 0
             then do { p \<leftarrow> lsh_string_putc packet j 58; Some (j + 1, p) }
             else Some (j, packet));
          packet \<leftarrow> lsh_string_putc packet j c;
          colonize_loop cs every (i + 1) (j + 1) packet }"

definition lsh_string_colonize :: "(nat \<Rightarrow> byte) \<Rightarrow> lsh_string \<Rightarrow> u32 \<Rightarrow> lsh_string option" where
  "lsh_string_colonize junk s every =
     do { let l = lsh_string_length s;
          c_assert (l = 0 \<or> every \<noteq> 0);
          let colons = (if l \<noteq> 0 then (l - 1) div every else 0);
          let sz = l + colons;
          (j, packet) \<leftarrow> colonize_loop (take (unat l) (lsh_string_data s)) every 0 0
                           (lsh_string_alloc junk sz);
          c_assert (j = sz);
          Some packet }"

section \<open>Bubble Babble\<close>

text \<open>The index \<open>i\<close> is at most \<open>length / 2 + 1\<close>, so \<open>i * 2\<close> does not wrap and is a natural
  number here.\<close>

fun lsh_string_bubblebabble_c :: "lsh_string \<Rightarrow> nat \<Rightarrow> byte option" where
  "lsh_string_bubblebabble_c s 0 = None"
| "lsh_string_bubblebabble_c s (Suc 0) = Some 1"
| "lsh_string_bubblebabble_c s (Suc (Suc n)) =
     (let i = n + 2; j = i * 2 - 3 - 1; k = i * 2 - 2 - 1; data = lsh_string_data s in
      do { c_assert (j < unat (lsh_string_length s) \<and> k < unat (lsh_string_length s));
           c \<leftarrow> lsh_string_bubblebabble_c s (Suc n);
           Some (of_nat ((5 * unat c + (unat (data ! j) * 7 + unat (data ! k))) mod 36)) })"

definition bb_vowels :: bytes where
  "bb_vowels = cstring ''aeiouy''"

definition bb_cons :: bytes where
  "bb_cons = cstring ''bcdfghklmnprstvzx''"

primrec bubblebabble_loop :: "lsh_string \<Rightarrow> bytes \<Rightarrow> nat \<Rightarrow> u32 \<Rightarrow> lsh_string \<Rightarrow> nat \<Rightarrow> (nat \<times> u32 \<times> lsh_string) option" where
  "bubblebabble_loop s q i r p 0 = Some (i, r, p)"
| "bubblebabble_loop s q i r p (Suc left) =
     do { c_assert (i * 2 + 1 < unat (lsh_string_length s));
          chk \<leftarrow> lsh_string_bubblebabble_c s (i + 1);
          let q0 = unat (q ! (i * 2));
          let q1 = unat (q ! (i * 2 + 1));
          let a = ((q0 div 64) mod 4 + unat chk) mod 6;
          let b = (q0 div 4) mod 16;
          let c = (q0 mod 4 + unat chk div 6) mod 6;
          let d = (q1 div 16) mod 16;
          let e = q1 mod 16;
          p \<leftarrow> put_bytes p r
                 [bb_vowels ! a, bb_cons ! b, bb_vowels ! c, bb_cons ! d, 45, bb_cons ! e];
          bubblebabble_loop s q (i + 1) (r + 6) p left }"

definition lsh_string_bubblebabble :: "(nat \<Rightarrow> byte) \<Rightarrow> lsh_string \<Rightarrow> lsh_string option" where
  "lsh_string_bubblebabble junk s =
     do { let l = lsh_string_length s;
          let q = lsh_string_data s;
          let babblelen = 2 + 6 * (l div 2) + 3;
          p \<leftarrow> lsh_string_putc (lsh_string_alloc junk babblelen) 0 120;
          (i, r, p) \<leftarrow> bubblebabble_loop s q 0 1 p (unat l div 2);
          chk \<leftarrow> lsh_string_bubblebabble_c s (i + 1);
          let q0 = unat (q ! (unat l - 1));
          let (a, b, c) =
            (if unat l mod 2 \<noteq> 0
             then (((q0 div 64) mod 4 + unat chk) mod 6, (q0 div 4) mod 16,
                   (q0 mod 4 + unat chk div 6) mod 6)
             else (unat chk mod 6, 16, unat chk div 6));
          p \<leftarrow> put_bytes p r [bb_vowels ! a, bb_cons ! b, bb_vowels ! c, 120];
          c_assert (r + 4 = lsh_string_length p);
          Some p }"


section \<open>Hexadecimal input: the loop decodes pairs of digits\<close>

definition hex_value :: "byte \<Rightarrow> nat option" where
  "hex_value c =
     (let n = unat c in
      if 48 \<le> n \<and> n \<le> 57 then Some (n - 48)
      else if 65 \<le> n \<and> n \<le> 70 then Some (n - 55)
      else if 97 \<le> n \<and> n \<le> 102 then Some (n - 87)
      else None)"

fun hex_decode_ref :: "bytes \<Rightarrow> bytes option" where
  "hex_decode_ref [] = Some []"
| "hex_decode_ref [h] = None"
| "hex_decode_ref (h1 # h2 # hex) =
     do { d1 \<leftarrow> hex_value h1; d2 \<leftarrow> hex_value h2;
          bs \<leftarrow> hex_decode_ref hex;
          Some (of_nat (16 * d1 + d2) # bs) }"

lemma hex_table_all:
  "list_all (\<lambda>n. (if hex_table ! n < 0 then None else Some (nat (hex_table ! n))) = hex_value (of_nat n))
     [0..<128]"
  by code_simp

lemma hex_table_value:
  "(if 0x80 \<le> h \<or> hex_table ! unat h < 0 then None else Some (nat (hex_table ! unat h))) = hex_value h"
proof (cases "0x80 \<le> h")
  case True
  then have "128 \<le> unat h" by (simp add: word_le_nat_alt)
  then show ?thesis using True by (simp add: hex_value_def)
next
  case False
  then have "unat h < 128" by (simp add: word_le_nat_alt)
  then have "unat h \<in> set [0..<128]" by simp
  with hex_table_all have
    "(if hex_table ! unat h < 0 then None else Some (nat (hex_table ! unat h))) = hex_value (of_nat (unat h))"
    by (simp only: list_all_iff)
  with False show ?thesis by simp
qed

lemma hex_value_less: "hex_value h = Some d \<Longrightarrow> d < 16"
  by (auto simp: hex_value_def Let_def split: if_splits)

lemma nibbles_all:
  "list_all (\<lambda>a. list_all (\<lambda>b. (word_of_int (push_bit 4 (int a) OR int b) :: byte) = of_nat (16 * a + b))
     [0..<16]) [0..<16]"
  by code_simp

lemma nibbles: "a < 16 \<Longrightarrow> b < 16 \<Longrightarrow>
  (word_of_int (push_bit 4 (int a) OR int b) :: byte) = of_nat (16 * a + b)"
  using nibbles_all by (simp only: list_all_iff set_upt atLeastLessThan_iff) simp

lemma hex_decode_loop_step:
  "hex_decode_loop (h1 # h2 # hex) i s =
     (case (hex_value h1, hex_value h2) of
        (Some d1, Some d2) \<Rightarrow>
          do { s' \<leftarrow> lsh_string_putc s (i div 2) (of_nat (16 * d1 + d2)); hex_decode_loop hex (i + 2) s' }
      | _ \<Rightarrow> Some None)"
proof -
  have d: "hex_value h = Some d \<Longrightarrow> \<not> 0x80 \<le> h \<and> hex_table ! unat h = int d" for h d
    using hex_table_value [of h] by (auto split: if_splits)
  have n: "hex_value h = None \<Longrightarrow> 0x80 \<le> h \<or> hex_table ! unat h < 0" for h
    using hex_table_value [of h] by (auto split: if_splits)
  show ?thesis
  proof (cases "hex_value h1")
    case None
    then show ?thesis using n [OF None] by (auto simp: Let_def)
  next
    case (Some d1)
    note d1 = this
    show ?thesis
    proof (cases "hex_value h2")
      case None
      then show ?thesis using n [OF None] d [OF d1] d1 by (auto simp: Let_def)
    next
      case (Some d2)
      then show ?thesis
        using d [OF d1] d [OF Some] d1 nibbles [OF hex_value_less [OF d1] hex_value_less [OF Some]]
        by (simp add: Let_def)
    qed
  qed
qed

lemma hex_decode_loop_eq:
  assumes "nul_terminated s" "even (length hex)" "unat i = 2 * k"
    and "2 * k + length hex = 2 * unat (str_length s)" "2 * unat (str_length s) < 4294967296"
  shows "hex_decode_loop hex i s =
    Some (map_option (\<lambda>bs. s\<lparr>str_data := overwrite k bs (str_data s)\<rparr>) (hex_decode_ref hex))"
  using assms
proof (induction hex arbitrary: s i k rule: hex_decode_ref.induct)
  case 1
  then show ?case by (simp add: nul_terminated_def)
next
  case (2 h)
  then show ?case by simp
next
  case (3 h1 h2 hex)
  have i2: "unat (i div 2) = k" using "3.prems" by (simp add: unat_div)
  have i': "unat (i + 2) = 2 * (k + 1)"
    using "3.prems" unat_u32_add [of i 2] by simp
  have k: "k < unat (str_length s)" using "3.prems" by simp
  show ?case
  proof (cases "hex_value h1 = None \<or> hex_value h2 = None")
    case True
    then show ?thesis by (auto simp only: hex_decode_loop_step hex_decode_ref.simps split: option.splits) auto
  next
    case False
    then obtain d1 d2 where d: "hex_value h1 = Some d1" "hex_value h2 = Some d2" by auto
    let ?b = "of_nat (16 * d1 + d2) :: byte"
    let ?s = "s\<lparr>str_data := overwrite k [?b] (str_data s)\<rparr>"
    have ok: "nul_terminated ?s" using "3.prems" k by (intro nul_terminated_overwrite) auto
    have IH: "hex_decode_loop hex (i + 2) ?s =
      Some (map_option (\<lambda>bs. ?s\<lparr>str_data := overwrite (k + 1) bs (str_data ?s)\<rparr>) (hex_decode_ref hex))"
      using "3.prems" ok i' d by (intro "3.IH") simp_all
    have len: "length bs * 2 = length hex" if "hex_decode_ref hex = Some bs" for bs
      using that by (induction hex arbitrary: bs rule: hex_decode_ref.induct) (auto simp: bind_eq_Some_conv)
    have ov: "overwrite (k + 1) bs (overwrite k [?b] (str_data s)) = overwrite k (?b # bs) (str_data s)"
      if "hex_decode_ref hex = Some bs" for bs
      using overwrite_append [of k "[?b]" bs "str_data s"] len [OF that] "3.prems"
        nul_terminated_length [of s] by simp
    show ?thesis
      using IH ov by (cases "hex_decode_ref hex")
        (simp_all add: hex_decode_loop_step d lsh_string_putc_eq "3.prems" i2 k del: hex_decode_loop.simps)
  qed
qed

lemma hex_decode_ref_length: "hex_decode_ref hex = Some bs \<Longrightarrow> length hex = 2 * length bs"
  by (induction hex arbitrary: bs rule: hex_decode_ref.induct) (auto simp: bind_eq_Some_conv)


section \<open>Colons: a colon between chunks\<close>

function chunks :: "nat \<Rightarrow> 'a list \<Rightarrow> 'a list list" where
  "chunks n xs = (if xs = [] \<or> n = 0 then [] else take n xs # chunks n (drop n xs))"
  by pat_completeness auto
termination
  by (relation "measure (\<lambda>(n, xs). length xs)") auto

declare chunks.simps [simp del]

fun join_colon :: "bytes list \<Rightarrow> bytes" where
  "join_colon [] = []"
| "join_colon [x] = x"
| "join_colon (x # y # xs) = x @ 58 # join_colon (y # xs)"

primrec colon_ref :: "nat \<Rightarrow> nat \<Rightarrow> bytes \<Rightarrow> bytes" where
  "colon_ref n i [] = []"
| "colon_ref n i (c # cs) = (if i \<noteq> 0 \<and> i mod n = 0 then [58, c] else [c]) @ colon_ref n (Suc i) cs"

lemma colon_ref_append: "colon_ref n i (xs @ ys) = colon_ref n i xs @ colon_ref n (i + length xs) ys"
  by (induction xs arbitrary: i) auto

lemma colon_ref_short: "0 < i mod n \<Longrightarrow> i mod n + length cs \<le> n \<Longrightarrow> colon_ref n i cs = cs"
proof (induction cs arbitrary: i)
  case (Cons c cs)
  then show ?case
    by (cases cs) (auto simp: mod_Suc)
qed simp

lemma colon_ref_chunk:
  "i mod n = 0 \<Longrightarrow> cs \<noteq> [] \<Longrightarrow> length cs \<le> n \<Longrightarrow>
   colon_ref n i cs = (if i = 0 then [] else [58]) @ cs"
proof (cases cs)
  case (Cons c ds)
  assume a: "i mod n = 0" "length cs \<le> n"
  have "colon_ref n (Suc i) ds = ds"
  proof (cases "ds = []")
    case False
    then have "2 \<le> n" using a Cons by (cases ds) auto
    then have "Suc i mod n = 1" using a by (simp add: mod_Suc)
    then show ?thesis using a Cons by (intro colon_ref_short) auto
  qed simp
  then show ?thesis using a Cons by simp
qed simp

lemma colon_ref_chunks:
  "0 < n \<Longrightarrow> i mod n = 0 \<Longrightarrow>
   colon_ref n i cs = (if i = 0 \<or> cs = [] then [] else [58]) @ join_colon (chunks n cs)"
proof (induction n cs arbitrary: i rule: chunks.induct)
  case (1 n cs)
  show ?case
  proof (cases "length cs \<le> n")
    case True
    then show ?thesis
      using "1.prems" by (cases "cs = []") (simp_all add: chunks.simps [of n cs] chunks.simps [of n "[]"] colon_ref_chunk)
  next
    case False
    have ne: "cs \<noteq> []" "drop n cs \<noteq> []" using False by auto
    have IH: "colon_ref n (i + n) (drop n cs) = [58] @ join_colon (chunks n (drop n cs))"
      using "1.IH" [of "i + n"] "1.prems" ne False by simp
    have "colon_ref n i (take n cs @ drop n cs) =
        colon_ref n i (take n cs) @ colon_ref n (i + n) (drop n cs)"
      using False by (subst colon_ref_append) simp
    also have "\<dots> = (if i = 0 then [] else [58]) @ take n cs @ 58 # join_colon (chunks n (drop n cs))"
      using IH ne "1.prems" by (simp add: colon_ref_chunk)
    also have "take n cs @ 58 # join_colon (chunks n (drop n cs)) = join_colon (chunks n cs)"
      using ne "1.prems" by (simp add: chunks.simps [of n cs] chunks.simps [of n "drop n cs"])
    finally show ?thesis using ne by simp
  qed
qed

lemma length_colon_ref:
  "0 < n \<Longrightarrow> cs \<noteq> [] \<Longrightarrow> length (colon_ref n 0 cs) = length cs + (length cs - 1) div n"
proof (induction cs rule: rev_induct)
  case (snoc c cs)
  show ?case
  proof (cases cs)
    case Nil
    then show ?thesis by simp
  next
    case (Cons d ds)
    then have "length cs = Suc (length ds)" by simp
    then show ?thesis
      using snoc Cons by (auto simp: colon_ref_append div_Suc)
  qed
qed simp

lemma colonize_loop_eq:
  assumes "nul_terminated p" "unat i + length cs < 4294967296"
    and "unat j + length (colon_ref (unat every) (unat i) cs) \<le> unat (str_length p)"
  shows "colonize_loop cs every i j p =
    Some (j + of_nat (length (colon_ref (unat every) (unat i) cs)),
          p\<lparr>str_data := overwrite (unat j) (colon_ref (unat every) (unat i) cs) (str_data p)\<rparr>)"
  using assms
proof (induction cs arbitrary: i j p)
  case Nil
  then show ?case by (simp add: nul_terminated_def)
next
  case (Cons c cs)
  define h where "h = (if unat i \<noteq> 0 \<and> unat i mod unat every = 0 then [58, c] else [c])"
  let ?p = "p\<lparr>str_data := overwrite (unat j) h (str_data p)\<rparr>"
  let ?r = "colon_ref (unat every) (Suc (unat i)) cs"
  have i: "unat (i + 1) = Suc (unat i)" using Cons.prems unat_u32_add [of i 1] by simp
  have cond: "i \<noteq> 0 \<and> i mod every = 0 \<longleftrightarrow> unat i \<noteq> 0 \<and> unat i mod unat every = 0"
    by (simp add: unat_mod flip: unat_eq_0)
  have ref: "colon_ref (unat every) (unat i) (c # cs) = h @ ?r" by (simp add: h_def)
  have bound: "unat j + length h + length ?r \<le> unat (str_length p)" using Cons.prems ref by simp
  have put: "put_bytes p j h = Some ?p" using Cons.prems bound by (intro put_bytes_eq) auto
  have ok: "nul_terminated ?p" using Cons.prems bound by (intro nul_terminated_overwrite) auto
  have jh: "unat (j + of_nat (length h)) = unat j + length h"
    using bound by (intro unat_u32_add_nat [where b = "str_length p"]) simp
  have step: "colonize_loop (c # cs) every i j p =
      do { q \<leftarrow> put_bytes p j h; colonize_loop cs every (i + 1) (j + of_nat (length h)) q }"
    using cond by (simp add: h_def add.assoc split: if_splits)
  have "colonize_loop cs every (i + 1) (j + of_nat (length h)) ?p =
      Some (j + of_nat (length h) + of_nat (length ?r),
            ?p\<lparr>str_data := overwrite (unat j + length h) ?r (str_data ?p)\<rparr>)"
    using Cons.IH [OF ok, of "i + 1" "j + of_nat (length h)"] Cons.prems bound i jh by simp
  moreover have "overwrite (unat j + length h) ?r (overwrite (unat j) h (str_data p)) =
      overwrite (unat j) (h @ ?r) (str_data p)"
    using bound nul_terminated_length [OF Cons.prems(1)] by (intro overwrite_append) simp
  ultimately show ?case
    using step put ref by (simp add: add.assoc)
qed


section \<open>Bubble Babble: a linear reference\<close>

fun bb_checksum :: "nat \<Rightarrow> bytes \<Rightarrow> nat" where
  "bb_checksum c (b1 # b2 # bs) = bb_checksum ((5 * c + (unat b1 * 7 + unat b2)) mod 36) bs"
| "bb_checksum c bs = c"

fun bb_groups :: "nat \<Rightarrow> bytes \<Rightarrow> bytes" where
  "bb_groups c (b1 # b2 # bs) =
     [bb_vowels ! ((unat b1 div 64 mod 4 + c) mod 6), bb_cons ! (unat b1 div 4 mod 16),
      bb_vowels ! ((unat b1 mod 4 + c div 6) mod 6), bb_cons ! (unat b2 div 16 mod 16), 45,
      bb_cons ! (unat b2 mod 16)]
     @ bb_groups ((5 * c + (unat b1 * 7 + unat b2)) mod 36) bs"
| "bb_groups c bs = []"

definition bb_tail :: "nat \<Rightarrow> bytes \<Rightarrow> bytes" where
  "bb_tail c bs =
     (if odd (length bs)
      then [bb_vowels ! ((unat (last bs) div 64 mod 4 + c) mod 6), bb_cons ! (unat (last bs) div 4 mod 16),
            bb_vowels ! ((unat (last bs) mod 4 + c div 6) mod 6)]
      else [bb_vowels ! (c mod 6), bb_cons ! 16, bb_vowels ! (c div 6)])"

definition bubblebabble_ref :: "bytes \<Rightarrow> bytes" where
  "bubblebabble_ref bs = 120 # bb_groups 1 bs @ bb_tail (bb_checksum 1 bs) bs @ [120]"

lemma bb_checksum_snoc: "even (length xs) \<Longrightarrow>
  bb_checksum c (xs @ [a, b]) = (5 * bb_checksum c xs + (unat a * 7 + unat b)) mod 36"
  by (induction c xs rule: bb_checksum.induct) auto

lemma bb_groups_snoc: "even (length xs) \<Longrightarrow>
  bb_groups c (xs @ [a, b]) = bb_groups c xs @ bb_groups (bb_checksum c xs) [a, b]"
  by (induction c xs rule: bb_groups.induct) auto

lemma bb_drop_last: "odd (length xs) \<Longrightarrow>
  bb_checksum c (butlast xs) = bb_checksum c xs \<and> bb_groups c (butlast xs) = bb_groups c xs"
  by (induction c xs rule: bb_groups.induct) auto

lemma bb_checksum_less: "c < 36 \<Longrightarrow> bb_checksum c bs < 36"
  by (induction c bs rule: bb_checksum.induct) auto

lemma length_bb_groups: "length (bb_groups c bs) = 6 * (length bs div 2)"
  by (induction c bs rule: bb_groups.induct) auto

lemma length_bb_tail: "length (bb_tail c bs) = 3"
  by (simp add: bb_tail_def)

lemma take_pair: "2 * n + 1 < length xs \<Longrightarrow> take (2 * n + 2) xs = take (2 * n) xs @ [xs ! (2 * n), xs ! (2 * n + 1)]"
  by (simp add: take_Suc_conv_app_nth)

lemma bubblebabble_c_eq:
  assumes "nul_terminated s"
  shows "2 * n \<le> unat (str_length s) \<Longrightarrow>
    lsh_string_bubblebabble_c s (Suc n) = Some (of_nat (bb_checksum 1 (take (2 * n) (str_data s))))"
proof (induction n)
  case (Suc n)
  have l: "2 * n + 1 < length (str_data s)" using Suc.prems assms by (simp add: nul_terminated_def)
  have c: "unat (of_nat (bb_checksum 1 (take (2 * n) (str_data s))) :: byte) =
      bb_checksum 1 (take (2 * n) (str_data s))"
    using bb_checksum_less [of 1 "take (2 * n) (str_data s)"] by (simp add: unat_of_nat)
  show ?case
    using Suc l by (simp add: Let_def lsh_string_length_def lsh_string_data_def c [unfolded One_nat_def] c_assert_bind
      bb_checksum_snoc take_pair [OF l, simplified] mult.commute [of n 2])
qed simp

declare lsh_string_bubblebabble_c.simps [simp del] put_bytes.simps [simp del]

lemma bubblebabble_loop_step:
  assumes "i * 2 + 1 < unat (str_length s)" "lsh_string_bubblebabble_c s (i + 1) = Some chk" "unat chk = c"
    and "put_bytes p r (bb_groups c [q ! (2 * i), q ! (2 * i + 1)]) = Some p'"
  shows "bubblebabble_loop s q i r p (Suc left) = bubblebabble_loop s q (i + 1) (r + 6) p' left"
  using assms by (simp add: lsh_string_length_def Let_def mult.commute [of i 2] c_assert_bind)

lemma bubblebabble_loop_eq:
  assumes "nul_terminated s"
  shows "nul_terminated p \<Longrightarrow> 2 * (i + left) \<le> unat (str_length s) \<Longrightarrow>
    unat r + 6 * left \<le> unat (str_length p) \<Longrightarrow> unat r = 1 + 6 * i \<Longrightarrow>
    take (unat r) (str_data p) = 120 # bb_groups 1 (take (2 * i) (str_data s)) \<Longrightarrow>
    \<exists>p'. bubblebabble_loop s (str_data s) i r p left = Some (i + left, r + of_nat (6 * left), p') \<and>
      nul_terminated p' \<and> str_length p' = str_length p \<and>
      take (unat r + 6 * left) (str_data p') = 120 # bb_groups 1 (take (2 * (i + left)) (str_data s))"
proof (induction left arbitrary: i r p)
  case 0
  then show ?case by simp
next
  case (Suc left)
  let ?q = "str_data s"
  let ?c = "bb_checksum 1 (take (2 * i) ?q)"
  let ?g = "bb_groups ?c [?q ! (2 * i), ?q ! (2 * i + 1)]"
  let ?p = "p\<lparr>str_data := overwrite (unat r) ?g (str_data p)\<rparr>"
  have l: "2 * i + 1 < length ?q" using Suc.prems assms by (simp add: nul_terminated_def)
  have c: "unat (of_nat ?c :: byte) = ?c"
    using bb_checksum_less [of 1 "take (2 * i) ?q"] by (simp add: unat_of_nat)
  have r6: "unat (r + 6) = unat r + 6"
    using unat_u32_add_nat [of r 6 "str_length p"] Suc.prems by simp
  have put: "put_bytes p r ?g = Some ?p"
    using Suc.prems by (intro put_bytes_eq) auto
  have ok: "nul_terminated ?p"
    using Suc.prems by (intro nul_terminated_overwrite) auto
  have tk: "take (unat r + 6) (str_data ?p) = 120 # bb_groups 1 (take (2 * (i + 1)) ?q)"
  proof -
    have "length ?g = 6" by simp
    then have "take (unat r + 6) (str_data ?p) = take (unat r) (str_data p) @ ?g"
      using Suc.prems nul_terminated_length [of p] take_overwrite_end [of "unat r" ?g "str_data p"]
      by (simp only: lsh_string.simps) simp
    also have "\<dots> = 120 # bb_groups 1 (take (2 * i) ?q @ [?q ! (2 * i), ?q ! (2 * i + 1)])"
      using Suc.prems(5) bb_groups_snoc [of "take (2 * i) ?q" 1] l by simp
    also have "take (2 * i) ?q @ [?q ! (2 * i), ?q ! (2 * i + 1)] = take (2 * (i + 1)) ?q"
      using take_pair [OF l] by simp
    finally show ?thesis .
  qed
  have "\<exists>p'. bubblebabble_loop s ?q (i + 1) (r + 6) ?p left = Some (i + 1 + left, r + 6 + of_nat (6 * left), p') \<and>
      nul_terminated p' \<and> str_length p' = str_length ?p \<and>
      take (unat (r + 6) + 6 * left) (str_data p') = 120 # bb_groups 1 (take (2 * (i + 1 + left)) ?q)"
    using Suc.prems ok tk r6 by (intro Suc.IH) auto
  moreover have "bubblebabble_loop s ?q i r p (Suc left) = bubblebabble_loop s ?q (i + 1) (r + 6) ?p left"
    using Suc.prems put bubblebabble_c_eq [OF assms, of i] c
    by (intro bubblebabble_loop_step [OF _ _ c]) simp_all
  moreover have "i + 1 + left = i + Suc left" "r + 6 + of_nat (6 * left) = r + of_nat (6 * Suc left)"
      "unat (r + 6) + 6 * left = unat r + 6 * Suc left" "str_length ?p = str_length p"
    using r6 by simp_all
  ultimately show ?case by (simp only:)
qed


section \<open>The three renderings\<close>

lemma overwrite_contents:
  assumes "nul_terminated p" "length bs = unat (str_length p)"
  shows "nul_terminated (p\<lparr>str_data := overwrite 0 bs (str_data p)\<rparr>)"
    and "contents (p\<lparr>str_data := overwrite 0 bs (str_data p)\<rparr>) = bs"
  using assms by (simp_all add: nul_terminated_overwrite contents_overwrite overwrite_whole)

lemma bubblebabble_length:
  "unat h = n \<Longrightarrow> 5 + 6 * n < 4294967296 \<Longrightarrow> unat (2 + 6 * h + 3 :: u32) = 5 + 6 * n"
  by (simp add: unat_word_ariths unat_u32_mod)

lemma bubblebabble_half:
  assumes "nul_terminated s"
  shows "bb_checksum 1 (take (2 * (unat (str_length s) div 2)) (str_data s)) = bb_checksum 1 (contents s)"
    and "bb_groups 1 (take (2 * (unat (str_length s) div 2)) (str_data s)) = bb_groups 1 (contents s)"
proof -
  let ?l = "unat (str_length s)"
  have "take (2 * (?l div 2)) (str_data s) = (if even ?l then contents s else butlast (contents s))"
    using assms by (auto simp: contents_def butlast_take nul_terminated_def elim!: oddE)
  then show "bb_checksum 1 (take (2 * (?l div 2)) (str_data s)) = bb_checksum 1 (contents s)"
    "bb_groups 1 (take (2 * (?l div 2)) (str_data s)) = bb_groups 1 (contents s)"
    using bb_drop_last [of "contents s" 1] assms by auto
qed

lemma last_contents:
  "nul_terminated s \<Longrightarrow> 0 < unat (str_length s) \<Longrightarrow> last (contents s) = str_data s ! (unat (str_length s) - 1)"
  by (subst last_conv_nth) (auto simp: contents_def nul_terminated_def simp flip: length_greater_0_conv)

text \<open>C36 Hexadecimal input never runs out of its string: a well-formed string of digits gives
  the decoded bytes, properly terminated, and anything else gives NULL.\<close>

theorem lsh_string_hex_decode_correct:
  assumes "length hex < 4294967296"
  shows "\<exists>r. lsh_string_hex_decode junk (of_nat (length hex)) hex = Some r \<and>
           map_option contents r = hex_decode_ref hex \<and> (\<forall>s. r = Some s \<longrightarrow> nul_terminated s)"
proof -
  let ?l = "of_nat (length hex) :: u32"
  let ?s = "lsh_string_alloc junk (?l div 2)"
  have l: "unat ?l = length hex" using assms by (rule unat_u32_of_nat)
  have odd: "?l AND 1 \<noteq> 0 \<longleftrightarrow> odd (length hex)"
    using l by (simp add: and_one_eq odd_iff_mod_2_eq_one flip: unat_eq_0) (simp add: unat_mod mod_2_eq_odd)
  show ?thesis
  proof (cases "even (length hex)")
    case False
    then have "hex_decode_ref hex = None"
      using hex_decode_ref_length [of hex] by (cases "hex_decode_ref hex") auto
    then show ?thesis using False odd by (simp add: lsh_string_hex_decode_def)
  next
    case True
    have half: "unat (?l div 2) = length hex div 2" using l by (simp add: unat_div)
    have loop: "hex_decode_loop hex 0 ?s =
      Some (map_option (\<lambda>bs. ?s\<lparr>str_data := overwrite 0 bs (str_data ?s)\<rparr>) (hex_decode_ref hex))"
      using True assms half by (intro hex_decode_loop_eq) auto
    show ?thesis
    proof (cases "hex_decode_ref hex")
      case None
      then show ?thesis using loop odd True l by (simp add: lsh_string_hex_decode_def)
    next
      case (Some bs)
      have "length bs = unat (?l div 2)" using hex_decode_ref_length [OF Some] half by simp
      then show ?thesis
        using loop odd True l Some nul_terminated_overwrite [of ?s 0 bs] contents_overwrite [of ?s 0 bs]
        by (simp add: lsh_string_hex_decode_def overwrite_whole)
    qed
  qed
qed

theorem lsh_string_hex_decode_correct_witness:
  "\<exists>r. lsh_string_hex_decode (\<lambda>_. 7) (of_nat (length [48, 70, 97, 48 :: byte])) [48, 70, 97, 48] = Some r \<and>
       map_option contents r = Some [15, 160]"
  using lsh_string_hex_decode_correct [of "[48, 70, 97, 48]" "\<lambda>_. 7"]
  by (auto simp: hex_value_def)

text \<open>C37 The colonized form of a string is its chunks of \<open>every\<close> bytes with one colon between
  neighbours; the assertion on the computed size holds.\<close>

theorem lsh_string_colonize_correct:
  assumes "nul_terminated s" "every \<noteq> 0"
    and "unat (str_length s) + (unat (str_length s) - 1) div unat every < 4294967296"
  shows "\<exists>p. lsh_string_colonize junk s every = Some p \<and> nul_terminated p \<and>
           contents p = join_colon (chunks (unat every) (contents s))"
proof -
  let ?l = "str_length s"
  let ?n = "unat every"
  let ?colons = "if ?l \<noteq> 0 then (?l - 1) div every else 0"
  let ?p = "lsh_string_alloc junk (?l + ?colons)"
  let ?ref = "colon_ref ?n 0 (contents s)"
  have n: "0 < ?n" using assms(2) by (simp add: unat_gt_0)
  have len: "length (contents s) = unat ?l" using assms(1) by simp
  have colons: "unat ?colons = (unat ?l - 1) div ?n"
    by (auto simp: unat_div unat_u32_diff unat_gt_0 Suc_leI)
  have sz: "unat (?l + ?colons) = length ?ref"
  proof (cases "contents s = []")
    case True
    then show ?thesis using len by (simp add: unat_eq_0)
  next
    case False
    then show ?thesis
      using length_colon_ref [OF n False] len colons assms(3) by (simp add: unat_u32_add)
  qed
  have loop: "colonize_loop (contents s) every 0 0 ?p =
      Some (of_nat (length ?ref), ?p\<lparr>str_data := overwrite 0 ?ref (str_data ?p)\<rparr>)"
    using colonize_loop_eq [of ?p 0 "contents s" 0 every] sz len assms(3) by simp
  have size: "(of_nat (length ?ref) :: u32) = ?l + ?colons"
    using sz by (metis of_nat_unat ucast_id)
  have ref: "?ref = join_colon (chunks ?n (contents s))"
    using colon_ref_chunks [OF n, of 0] by simp
  have "lsh_string_colonize junk s every = Some (?p\<lparr>str_data := overwrite 0 ?ref (str_data ?p)\<rparr>)"
    using loop size assms(2)
    by (simp add: lsh_string_colonize_def lsh_string_length_def lsh_string_data_def Let_def c_assert_bind
        flip: contents_def split del: if_split)
  then show ?thesis
    using overwrite_contents [of ?p ?ref] sz ref by (simp split del: if_split)
qed

theorem lsh_string_colonize_correct_witness:
  "\<exists>p. lsh_string_colonize (\<lambda>_. 7) \<lparr>str_length = 7, str_data = cstring ''1234567'' @ [0]\<rparr> 3 = Some p \<and>
       contents p = cstring ''123:456:7''"
  using lsh_string_colonize_correct [of "\<lparr>str_length = 7, str_data = cstring ''1234567'' @ [0]\<rparr>" 3 "\<lambda>_. 7"]
  by (auto simp: nul_terminated_def contents_def cstring_def chunks.simps)

text \<open>C38 The Bubble Babble encoder, which recomputes its checksum from the start of the string for
  every group, never fails an assertion and writes what the linear reference writes.\<close>

theorem lsh_string_bubblebabble_correct:
  assumes "nul_terminated s" "5 + 6 * (unat (str_length s) div 2) < 4294967296"
  shows "\<exists>p. lsh_string_bubblebabble junk s = Some p \<and> nul_terminated p \<and>
           contents p = bubblebabble_ref (contents s)"
proof -
  let ?l = "str_length s"
  let ?h = "unat ?l div 2"
  let ?q = "str_data s"
  let ?p0 = "lsh_string_alloc junk (2 + 6 * (?l div 2) + 3)"
  let ?p1 = "?p0\<lparr>str_data := overwrite 0 [120] (str_data ?p0)\<rparr>"
  have h: "unat (?l div 2) = ?h" by (simp add: unat_div)
  have len: "unat (2 + 6 * (?l div 2) + 3) = 5 + 6 * ?h"
    using assms(2) h by (intro bubblebabble_length) simp_all
  have putc: "lsh_string_putc ?p0 0 120 = Some ?p1"
    using len by (simp add: lsh_string_putc_eq)
  have p1: "nul_terminated ?p1" using len by (intro nul_terminated_overwrite) simp_all
  obtain p where p: "bubblebabble_loop s ?q 0 1 ?p1 ?h = Some (?h, 1 + of_nat (6 * ?h), p)"
      "nul_terminated p" "unat (str_length p) = 5 + 6 * ?h"
      "take (1 + 6 * ?h) (str_data p) = 120 # bb_groups 1 (take (2 * ?h) ?q)"
    using bubblebabble_loop_eq [OF assms(1) p1, of 0 ?h 1] len by (auto simp: overwrite_def)
  let ?c = "bb_checksum 1 (contents s)"
  have half: "bb_checksum 1 (take (2 * ?h) ?q) = ?c" "bb_groups 1 (take (2 * ?h) ?q) = bb_groups 1 (contents s)"
    using bubblebabble_half [OF assms(1)] by simp_all
  have chk: "lsh_string_bubblebabble_c s (?h + 1) = Some (of_nat ?c)"
    using bubblebabble_c_eq [OF assms(1), of ?h] half by simp
  have c: "unat (of_nat ?c :: byte) = ?c"
    using bb_checksum_less [of 1 "contents s"] by (simp add: unat_of_nat)
  let ?r = "1 + of_nat (6 * ?h) :: u32"
  have r: "unat ?r = 1 + 6 * ?h" "unat (?r + 4) = 5 + 6 * ?h"
    using assms(2) by (simp_all add: unat_word_ariths unat_of_nat)
  let ?t = "bb_tail ?c (contents s) @ [120]"
  let ?p' = "p\<lparr>str_data := overwrite (unat ?r) ?t (str_data p)\<rparr>"
  have put: "put_bytes p ?r ?t = Some ?p'"
    using p r length_bb_tail by (intro put_bytes_eq) simp_all
  have "lsh_string_bubblebabble junk s = Some ?p'"
  proof -
    have "?r + 4 = str_length p" using p(3) r(2) by (metis word_unat_eq_iff)
    moreover have "last (contents s) = ?q ! (unat ?l - 1)" if "odd (unat ?l)"
      using that assms(1) by (intro last_contents) (auto elim: oddE)
    ultimately show ?thesis
      using putc p(1) chk put c assms(1)
      by (simp add: lsh_string_bubblebabble_def lsh_string_length_def lsh_string_data_def Let_def
          bb_tail_def odd_iff_mod_2_eq_one c_assert_bind split: if_splits)
  qed
  moreover have "nul_terminated ?p'"
    using p r length_bb_tail by (intro nul_terminated_overwrite) simp_all
  moreover have "contents ?p' = bubblebabble_ref (contents s)"
    using p r half take_overwrite_end [of "unat ?r" ?t "str_data p"] nul_terminated_length [OF p(2)]
    by (simp add: contents_def bubblebabble_ref_def length_bb_tail)
  ultimately show ?thesis by blast
qed

theorem lsh_string_bubblebabble_correct_witness:
  "\<exists>p. lsh_string_bubblebabble (\<lambda>_. 7) \<lparr>str_length = 9, str_data = cstring ''Pineapple'' @ [0]\<rparr> = Some p \<and>
       contents p = cstring ''xigak-nyryk-humil-bosek-sonax''"
  using lsh_string_bubblebabble_correct [of "\<lparr>str_length = 9, str_data = cstring ''Pineapple'' @ [0]\<rparr>" "\<lambda>_. 7"]
  by (auto simp: nul_terminated_def contents_def cstring_def bubblebabble_ref_def bb_tail_def bb_vowels_def bb_cons_def)

end
