(* ===== verification/Atoms.thy ===== *)
theory Atoms
  imports Lsh_String
begin

text \<open>
  \<open>src/atoms.c\<close>, \<open>src/atoms.in\<close> and \<open>src/process_atoms\<close>: the numbers that stand for the
  algorithm, request and signal names of the protocol. The script numbers the names of
  \<open>atoms.in\<close> from one and writes the table of names and the input of \<open>gperf\<close>; the hash function
  \<open>gperf\<close> generates from that input is a parameter of the model, and \<open>gperf_spec\<close> states what its
  manual promises: it finds exactly the keywords it was given. The locale \<open>atom_codec\<close> is what
  formatting and parsing of name lists rely on.
\<close>

section \<open>The generated tables\<close>

definition atoms_in :: "string list" where
  "atoms_in =
   [''none'', ''zlib'', ''3des-cbc'', ''3des-ctr'', ''blowfish-cbc'', ''blowfish-ctr'',
    ''twofish256-cbc'', ''twofish-cbc'', ''twofish128-cbc'', ''twofish192-cbc'',
    ''twofish128-ctr'', ''twofish192-ctr'', ''twofish256-ctr'', ''aes256-cbc'',
    ''aes192-cbc'', ''aes128-cbc'', ''aes128-ctr'', ''aes192-ctr'', ''aes256-ctr'',
    ''serpent256-cbc'', ''serpent192-cbc'', ''serpent128-cbc'', ''serpent128-ctr'',
    ''serpent192-ctr'', ''serpent256-ctr'', ''arcfour'', ''cast128-cbc'', ''cast128-ctr'',
    ''hmac-sha1'', ''hmac-sha1-96'', ''hmac-md5'', ''diffie-hellman-group1-sha1'',
    ''diffie-hellman-group14-sha1'', ''ssh-dss'', ''ssh-rsa'', ''ssh-dsa'',
    ''ssh-dsa-sha256@lysator.liu.se'', ''spki-sign-rsa'', ''spki-sign-dss'', ''spki'',
    ''publickey'', ''password'', ''hostbased'', ''keyboard-interactive'', ''gssapi'',
    ''session'', ''pty-req'', ''x11-req'', ''x11'', ''auth-agent-req'', ''auth-agent'',
    ''env'', ''shell'', ''exec'', ''subsystem'', ''window-change'', ''xon-xoff'',
    ''signal'', ''exit-status'', ''exit-signal'', ''tcpip-forward'',
    ''cancel-tcpip-forward'', ''forwarded-tcpip'', ''direct-tcpip'', ''ABRT'', ''ALRM'',
    ''FPE'', ''HUP'', ''ILL'', ''INT'', ''KILL'', ''PIPE'', ''QUIT'', ''SEGV'', ''TERM'',
    ''USR1'', ''USR2'', ''signal-unknown@lysator.liu.se'', ''dsa'', ''dsa-sha256'',
    ''rsa-pkcs1'', ''rsa-pkcs1-sha1'', ''rsa-pkcs1-md5'', ''Xpkcs5v2'']"

text \<open>\<open>process_atoms table\<close>: entry zero is \<open>UNKNOWN\<close>, entry \<open>i\<close> the \<open>i\<close>-th name.\<close>

definition atom_table :: "bytes list" where
  "atom_table = cstring ''UNKNOWN'' # map cstring atoms_in"

definition NUMBER_OF_ATOMS :: nat where
  "NUMBER_OF_ATOMS = length atoms_in + 1"

text \<open>\<open>process_atoms gperf\<close>: the keywords handed to \<open>gperf\<close>, each with its number.\<close>

definition gperf_input :: "(bytes \<times> nat) list" where
  "gperf_input = zip (map cstring atoms_in) [1..<NUMBER_OF_ATOMS]"

type_synonym gperf_atom = "bytes \<Rightarrow> nat option"

definition gperf_spec :: "gperf_atom \<Rightarrow> bool" where
  "gperf_spec gperf \<longleftrightarrow> (\<forall>name. gperf name = map_of gperf_input name)"

section \<open>Lookup\<close>

definition get_atom_length :: "nat \<Rightarrow> u32" where
  "get_atom_length atom = of_nat (length (atom_table ! atom))"

definition get_atom_name :: "nat \<Rightarrow> bytes" where
  "get_atom_name atom = atom_table ! atom"

definition lookup_atom :: "gperf_atom \<Rightarrow> u32 \<Rightarrow> bytes \<Rightarrow> nat" where
  "lookup_atom gperf l name =
     (case gperf (take (unat l) name) of Some i \<Rightarrow> i | None \<Rightarrow> 0)"

text \<open>A proper atom: not the zero of unknown names, and inside the table.\<close>

definition known_atom :: "nat \<Rightarrow> bool" where
  "known_atom a \<longleftrightarrow> 0 < a \<and> a < NUMBER_OF_ATOMS"

section \<open>Facts about the table\<close>

lemma atoms_in_distinct: "distinct atoms_in"
  by (simp add: atoms_in_def)

lemma atoms_in_shape: "list_all (\<lambda>n. 0 < length n \<and> length n \<le> 64 \<and> CHR '','' \<notin> set n) atoms_in"
  by (simp add: atoms_in_def)

lemma of_char_byte_inject: "(of_char c :: byte) = of_char d \<longleftrightarrow> c = d"
proof
  assume "(of_char c :: byte) = of_char d"
  then have "unat (of_nat (of_char c) :: byte) = unat (of_nat (of_char d) :: byte)"
    by (simp only: of_nat_of_char)
  then show "c = d" by (simp add: unat_of_nat of_char_eq_iff)
qed simp

lemma cstring_inject: "cstring a = cstring b \<longleftrightarrow> a = b"
  unfolding cstring_def by (rule inj_map_eq_map) (simp add: inj_def of_char_byte_inject)

lemma cstring_Nil: "cstring n = [] \<longleftrightarrow> n = []"
  by (simp add: cstring_def)

lemma comma_cstring: "44 \<in> set (cstring n) \<longleftrightarrow> CHR '','' \<in> set n"
proof -
  have "of_char c = (44 :: byte) \<longleftrightarrow> c = CHR '',''" for c
    using of_char_byte_inject [of c "CHR '',''"] by simp
  then show ?thesis by (force simp: cstring_def)
qed

lemma atoms_in_checked:
  "distinct (map cstring atoms_in)
   \<and> list_all (\<lambda>n. 0 < length n \<and> length n \<le> 64 \<and> 44 \<notin> set n) (map cstring atoms_in)"
  using atoms_in_distinct atoms_in_shape
  by (auto simp: distinct_map cstring_inject inj_on_def list_all_iff comma_cstring cstring_Nil)

lemma atom_name_ok:
  assumes "known_atom a"
  shows "0 < length (get_atom_name a)" "length (get_atom_name a) \<le> 64" "44 \<notin> set (get_atom_name a)"
proof -
  have "get_atom_name a \<in> set (map cstring atoms_in)"
    using assms by (cases a) (auto simp: get_atom_name_def atom_table_def known_atom_def NUMBER_OF_ATOMS_def)
  then show "0 < length (get_atom_name a)" "length (get_atom_name a) \<le> 64" "44 \<notin> set (get_atom_name a)"
    using atoms_in_checked by (auto simp: list_all_iff)
qed

lemma gperf_input_name: "known_atom a \<Longrightarrow> map_of gperf_input (get_atom_name a) = Some a"
proof -
  assume a: "known_atom a"
  have "distinct (map fst gperf_input)"
    using atoms_in_checked by (simp add: gperf_input_def NUMBER_OF_ATOMS_def)
  moreover have "(get_atom_name a, a) \<in> set gperf_input"
    using a by (cases a) (auto simp: gperf_input_def set_zip get_atom_name_def atom_table_def known_atom_def
        NUMBER_OF_ATOMS_def simp del: upt_Suc intro!: exI [of _ "a - 1"])
  ultimately show ?thesis by simp
qed

lemma gperf_input_atom: "map_of gperf_input n = Some a \<Longrightarrow> known_atom a \<and> get_atom_name a = n"
  by (drule map_of_SomeD)
    (auto simp: gperf_input_def set_zip get_atom_name_def atom_table_def known_atom_def NUMBER_OF_ATOMS_def
      simp del: upt_Suc)

section \<open>What name lists rely on\<close>

locale atom_codec =
  fixes look :: "bytes \<Rightarrow> nat" and name :: "nat \<Rightarrow> bytes" and known :: "nat \<Rightarrow> bool"
  assumes look_name: "known a \<Longrightarrow> look (name a) = a"
    and look_known: "length n \<le> 64 \<Longrightarrow> look n = 0 \<or> known (look n) \<and> name (look n) = n"
    and known_pos: "known a \<Longrightarrow> a \<noteq> 0"
    and name_shape: "known a \<Longrightarrow> 0 < length (name a) \<and> length (name a) \<le> 64 \<and> 44 \<notin> set (name a)"
begin

lemma name_inject: "known a \<Longrightarrow> known b \<Longrightarrow> name a = name b \<longleftrightarrow> a = b"
  by (metis look_name)

lemma look_zero: "length n \<le> 64 \<Longrightarrow> look n = 0 \<longleftrightarrow> (\<nexists>a. known a \<and> name a = n)"
  by (metis known_pos look_known look_name)

lemma names_roundtrip: "list_all known as \<Longrightarrow> map (look \<circ> name) as = as"
  by (induction as) (auto simp: look_name)

end

lemma gperf_spec_eq: "gperf_spec gperf \<Longrightarrow> gperf = map_of gperf_input"
  by (auto simp: gperf_spec_def)

lemma gperf_spec_input: "gperf_spec (map_of gperf_input)"
  by (simp add: gperf_spec_def)

lemma lookup_atom_short: "length n < 4294967296 \<Longrightarrow>
  lookup_atom gperf (of_nat (length n)) n = (case gperf n of Some i \<Rightarrow> i | None \<Rightarrow> 0)"
  by (simp add: lookup_atom_def unat_u32_of_nat)

interpretation atoms: atom_codec
  "\<lambda>n. lookup_atom (map_of gperf_input) (of_nat (length n)) n" get_atom_name known_atom
proof
  fix a assume a: "known_atom a"
  then show "lookup_atom (map_of gperf_input) (of_nat (length (get_atom_name a))) (get_atom_name a) = a"
    using atom_name_ok [OF a] by (simp add: lookup_atom_short gperf_input_name)
  show "a \<noteq> 0" using a by (simp add: known_atom_def)
  show "0 < length (get_atom_name a) \<and> length (get_atom_name a) \<le> 64 \<and> 44 \<notin> set (get_atom_name a)"
    using atom_name_ok [OF a] by simp
next
  fix n :: bytes assume "length n \<le> 64"
  then show "lookup_atom (map_of gperf_input) (of_nat (length n)) n = 0 \<or>
      known_atom (lookup_atom (map_of gperf_input) (of_nat (length n)) n) \<and>
      get_atom_name (lookup_atom (map_of gperf_input) (of_nat (length n)) n) = n"
    by (auto simp: lookup_atom_short gperf_input_atom split: option.splits)
qed

end
