(* ===== verification/Format.thy ===== *)
theory Format
  imports Atoms
begin

text \<open>
  \<open>src/format.c\<close>: \<open>ssh_format\<close>, by which every outgoing message is built. A first pass over the
  format string computes the length, a second one writes into a string allocated with that
  length, and both walk the same variable arguments. Arguments are values of \<open>format_arg\<close>; an
  argument of the wrong kind is undefined behaviour in C, and here the call does not return. The
  functions of the bignum library are fields of \<open>mpz_lib\<close>. The lemmas relate both passes to
  \<open>render\<close>, which lists the bytes a format stands for.
\<close>

section \<open>Formats and arguments\<close>

datatype format_arg =
    Int_arg u32
  | Data_arg bytes
  | String_arg lsh_string
  | Cstring_arg bytes
  | List_arg "nat list"
  | Mpz_arg int
  | Pos_arg bool

record mpz_lib =
  mpz_sizeinbase_256_u :: "int \<Rightarrow> u32"
  mpz_sizeinbase_256_s :: "int \<Rightarrow> u32"
  mpz_get_str_256 :: "u32 \<Rightarrow> int \<Rightarrow> bytes"

record format_flags =
  literal :: bool
  decimal :: bool
  do_free :: bool
  unsigned_form :: bool
  hex :: bool

definition no_flags :: format_flags where
  "no_flags = \<lparr>literal = False, decimal = False, do_free = False, unsigned_form = False, hex = False\<rparr>"

datatype directive = Copy char | Convert format_flags char | Truncated

text \<open>The inner loop over the option letters, the same in both passes.\<close>

fun scan_options :: "format_flags \<Rightarrow> string \<Rightarrow> format_flags \<times> string" where
  "scan_options fl [] = (fl, [])"
| "scan_options fl (c # cs) =
     (if c = CHR ''l'' then scan_options (fl\<lparr>literal := True\<rparr>) cs
      else if c = CHR ''d'' then scan_options (fl\<lparr>decimal := True\<rparr>) cs
      else if c = CHR ''f'' then scan_options (fl\<lparr>do_free := True\<rparr>) cs
      else if c = CHR ''u'' then scan_options (fl\<lparr>unsigned_form := True\<rparr>) cs
      else if c = CHR ''x'' then scan_options (fl\<lparr>hex := True\<rparr>) cs
      else (fl, c # cs))"

lemma scan_options_length: "length (snd (scan_options fl cs)) \<le> length cs"
  by (induction fl cs rule: scan_options.induct) (auto intro: le_SucI)

lemma scan_options_shorter: "scan_options fl cs = (fl', d # ds) \<Longrightarrow> length ds < length (x # cs)"
  using scan_options_length [of fl cs] by simp

function scan_format :: "string \<Rightarrow> directive list" where
  "scan_format [] = []"
| "scan_format (c # cs) =
     (if c = CHR ''%''
      then (case scan_options no_flags cs of
              (fl, []) \<Rightarrow> [Truncated]
            | (fl, d # ds) \<Rightarrow> Convert fl d # scan_format ds)
      else Copy c # scan_format cs)"
  by pat_completeness auto
termination
  by (relation "measure length") (auto dest!: scan_options_shorter [OF sym])

section \<open>Decimal numbers\<close>

definition powers :: "nat list" where
  "powers = [10, 100, 10000, 100000000]"

primrec size_in_decimal_loop :: "nat \<Rightarrow> nat \<Rightarrow> nat \<Rightarrow> nat" where
  "size_in_decimal_loop 0 n e = e"
| "size_in_decimal_loop (Suc i) n e =
     (if powers ! i \<le> n then size_in_decimal_loop i (n div (powers ! i)) (e + 2 ^ i)
      else size_in_decimal_loop i n e)"

definition format_size_in_decimal :: "u32 \<Rightarrow> u32" where
  "format_size_in_decimal n = of_nat (size_in_decimal_loop (length powers) (unat n) 0 + 1)"

primrec format_decimal_loop :: "lsh_string \<Rightarrow> u32 \<Rightarrow> u32 \<Rightarrow> nat \<Rightarrow> nat \<Rightarrow> nat \<Rightarrow> lsh_string option" where
  "format_decimal_loop buffer start l n i 0 = Some buffer"
| "format_decimal_loop buffer start l n i (Suc left) =
     do { buffer \<leftarrow> lsh_string_putc buffer (start + l - of_nat i - 1) (of_nat (48 + n mod 10));
          format_decimal_loop buffer start l (n div 10) (i + 1) left }"

definition format_decimal :: "lsh_string \<Rightarrow> u32 \<Rightarrow> u32 \<Rightarrow> u32 \<Rightarrow> lsh_string option" where
  "format_decimal buffer start l n = format_decimal_loop buffer start l (unat n) 0 (unat l)"

section \<open>The length pass\<close>

definition string_size :: "format_flags \<Rightarrow> u32 \<Rightarrow> u32" where
  "string_size fl l =
     l + (if hex fl then l else 0)
       + (if decimal fl then format_size_in_decimal l + 1 else if literal fl then 0 else 4)"

text \<open>The variant of \<open>%z\<close> and \<open>%a\<close>, where the hexadecimal option does not count.\<close>

definition cstring_size :: "format_flags \<Rightarrow> u32 \<Rightarrow> u32" where
  "cstring_size fl l =
     l + (if decimal fl then format_size_in_decimal l + 1 else if literal fl then 0 else 4)"

primrec atoms_size :: "nat list \<Rightarrow> u32 \<Rightarrow> u32 \<Rightarrow> u32 \<times> u32" where
  "atoms_size [] n l = (n, l)"
| "atoms_size (a # as) n l =
     (if a \<noteq> 0 then atoms_size as (n + 1) (l + get_atom_length a) else atoms_size as n l)"

definition mpz_size :: "mpz_lib \<Rightarrow> format_flags \<Rightarrow> int \<Rightarrow> u32" where
  "mpz_size nm fl n =
     (if n = 0 then 0
      else if unsigned_form fl then mpz_sizeinbase_256_u nm n
      else mpz_sizeinbase_256_s nm n)"

definition conv_length :: "mpz_lib \<Rightarrow> format_flags \<Rightarrow> char \<Rightarrow> format_arg list \<Rightarrow> (u32 \<times> format_arg list) option" where
  "conv_length nm fl c args =
     (if literal fl \<and> decimal fl then None
      else if c = CHR ''c'' then (case args of Int_arg _ # args \<Rightarrow> Some (1, args) | _ \<Rightarrow> None)
      else if c = CHR ''%'' then Some (1, args)
      else if c = CHR ''i'' then
        (case args of
           Int_arg i # args \<Rightarrow> Some (if decimal fl then format_size_in_decimal i else 4, args)
         | _ \<Rightarrow> None)
      else if c = CHR ''s'' then
        (case args of Int_arg l # Data_arg _ # args \<Rightarrow> Some (string_size fl l, args) | _ \<Rightarrow> None)
      else if c = CHR ''S'' then
        (case args of
           String_arg s # args \<Rightarrow> Some (string_size fl (lsh_string_length s), args)
         | _ \<Rightarrow> None)
      else if c = CHR ''z'' then
        (case args of Cstring_arg z # args \<Rightarrow> Some (cstring_size fl (of_nat (length z)), args) | _ \<Rightarrow> None)
      else if c = CHR ''r'' then
        (case args of
           Int_arg l # Pos_arg _ # args \<Rightarrow>
             do { c_assert (\<not> decimal fl);
                  Some (l + (if literal fl then 0 else 4), args) }
         | _ \<Rightarrow> None)
      else if c = CHR ''a'' then
        (case args of
           Int_arg atom # args \<Rightarrow>
             do { c_assert (atom \<noteq> 0);
                  Some (cstring_size fl (get_atom_length (unat atom)), args) }
         | _ \<Rightarrow> None)
      else if c = CHR ''A'' then
        (case args of
           List_arg l # args \<Rightarrow>
             do { c_assert (\<not> decimal fl);
                  let (n, len) = atoms_size l 0 0;
                  Some (len + (if n \<noteq> 0 then n - 1 else 0) + (if literal fl then 0 else 4), args) }
         | _ \<Rightarrow> None)
      else if c = CHR ''n'' then
        (case args of
           Mpz_arg n # args \<Rightarrow>
             do { c_assert (n \<ge> 0);
                  c_assert (\<not> decimal fl);
                  Some (mpz_size nm fl n + (if literal fl then 0 else 4), args) }
         | _ \<Rightarrow> None)
      else None)"

primrec ssh_vformat_length :: "mpz_lib \<Rightarrow> directive list \<Rightarrow> format_arg list \<Rightarrow> u32 \<Rightarrow> u32 option" where
  "ssh_vformat_length nm [] args l = Some l"
| "ssh_vformat_length nm (d # ds) args l =
     (case d of
        Copy c \<Rightarrow> ssh_vformat_length nm ds args (l + 1)
      | Convert fl c \<Rightarrow>
          do { (n, args) \<leftarrow> conv_length nm fl c args;
               ssh_vformat_length nm ds args (l + n) }
      | Truncated \<Rightarrow> None)"


section \<open>The write pass\<close>

definition hexchars :: bytes where
  "hexchars = cstring ''0123456789abcdef''"

definition hex_pair :: "byte \<Rightarrow> bytes" where
  "hex_pair d = [hexchars ! unat (drop_bit 4 (d AND 0xf0)), hexchars ! unat (d AND 0x0f)]"

definition format_string ::
  "lsh_string \<Rightarrow> u32 \<Rightarrow> u32 \<Rightarrow> bytes \<Rightarrow> bool \<Rightarrow> bool \<Rightarrow> (lsh_string \<times> u32) option" where
  "format_string buffer pos sz data is_literal is_hex =
     do { (buffer, pos) \<leftarrow>
            (if is_literal then Some (buffer, pos)
             else do { buffer \<leftarrow> lsh_string_write_uint32 buffer pos (if is_hex then 2 * sz else sz);
                       Some (buffer, pos + 4) });
          if \<not> is_hex
          then do { buffer \<leftarrow> lsh_string_write buffer pos sz data;
                    Some (buffer, pos + sz) }
          else do { c_assert (unat sz \<le> length data);
                    buffer \<leftarrow> put_bytes buffer pos (concat (map hex_pair (take (unat sz) data)));
                    Some (buffer, pos + 2 * sz) } }"

primrec write_atoms :: "nat list \<Rightarrow> nat \<Rightarrow> lsh_string \<Rightarrow> u32 \<Rightarrow> (lsh_string \<times> u32) option" where
  "write_atoms [] n buffer pos = Some (buffer, pos)"
| "write_atoms (a # as) n buffer pos =
     (if a \<noteq> 0
      then do { let l = get_atom_length a;
                (buffer, pos) \<leftarrow>
                  (if n \<noteq> 0 then do { buffer \<leftarrow> lsh_string_putc buffer pos 44; Some (buffer, pos + 1) }
                   else Some (buffer, pos));
                buffer \<leftarrow> lsh_string_write buffer pos l (get_atom_name a);
                write_atoms as (n + 1) buffer (pos + l) }
      else write_atoms as n buffer pos)"

definition lsh_string_write_bignum :: "mpz_lib \<Rightarrow> lsh_string \<Rightarrow> u32 \<Rightarrow> u32 \<Rightarrow> int \<Rightarrow> lsh_string option" where
  "lsh_string_write_bignum nm s start l n =
     do { ASSERT_ROOM s start l;
          let s' = s\<lparr>str_data := overwrite (unat start) (mpz_get_str_256 nm l n) (str_data s)\<rparr>;
          ASSERT_NUL s';
          Some s' }"

text \<open>\<open>write_header\<close>: the length field, unless the literal option is given.\<close>

definition write_header :: "format_flags \<Rightarrow> lsh_string \<Rightarrow> u32 \<Rightarrow> u32 \<Rightarrow> (lsh_string \<times> u32) option" where
  "write_header fl buffer pos l =
     (if literal fl then Some (buffer, pos)
      else do { buffer \<leftarrow> lsh_string_write_uint32 buffer pos l; Some (buffer, pos + 4) })"

type_synonym write_result = "lsh_string \<times> u32 \<times> format_arg list \<times> u32 list"

definition conv_write_string ::
  "format_flags \<Rightarrow> lsh_string \<Rightarrow> u32 \<Rightarrow> u32 \<Rightarrow> bytes \<Rightarrow> format_arg list \<Rightarrow> write_result option" where
  "conv_write_string fl buffer pos sz data args =
     do { c_assert (\<not> decimal fl);
          (buffer, pos) \<leftarrow> format_string buffer pos sz data (literal fl) (hex fl);
          Some (buffer, pos, args, []) }"

definition conv_write ::
  "mpz_lib \<Rightarrow> format_flags \<Rightarrow> char \<Rightarrow> lsh_string \<Rightarrow> u32 \<Rightarrow> format_arg list \<Rightarrow> write_result option" where
  "conv_write nm fl c buffer pos args =
     (if literal fl \<and> decimal fl then None
      else if c = CHR ''c'' then
        (case args of
           Int_arg i # args \<Rightarrow>
             do { buffer \<leftarrow> lsh_string_putc buffer pos (ucast i); Some (buffer, pos + 1, args, []) }
         | _ \<Rightarrow> None)
      else if c = CHR ''%'' then
        do { buffer \<leftarrow> lsh_string_putc buffer pos 37; Some (buffer, pos + 1, args, []) }
      else if c = CHR ''i'' then
        (case args of
           Int_arg i # args \<Rightarrow>
             if decimal fl
             then do { let l = format_size_in_decimal i;
                       buffer \<leftarrow> format_decimal buffer pos l i;
                       Some (buffer, pos + l, args, []) }
             else do { buffer \<leftarrow> lsh_string_write_uint32 buffer pos i;
                       Some (buffer, pos + 4, args, []) }
         | _ \<Rightarrow> None)
      else if c = CHR ''z'' then
        (case args of
           Cstring_arg z # args \<Rightarrow>
             do { c_assert (\<not> do_free fl);
                  conv_write_string fl buffer pos (of_nat (length z)) z args }
         | _ \<Rightarrow> None)
      else if c = CHR ''s'' then
        (case args of
           Int_arg l # Data_arg data # args \<Rightarrow>
             do { c_assert (\<not> do_free fl);
                  conv_write_string fl buffer pos l data args }
         | _ \<Rightarrow> None)
      else if c = CHR ''S'' then
        (case args of
           String_arg s # args \<Rightarrow>
             conv_write_string fl buffer pos (lsh_string_length s) (lsh_string_data s) args
         | _ \<Rightarrow> None)
      else if c = CHR ''r'' then
        (case args of
           Int_arg l # Pos_arg p # args \<Rightarrow>
             do { c_assert (\<not> decimal fl);
                  (buffer, pos) \<leftarrow> write_header fl buffer pos l;
                  Some (buffer, pos + l, args, if p then [pos] else []) }
         | _ \<Rightarrow> None)
      else if c = CHR ''a'' then
        (case args of
           Int_arg atom # args \<Rightarrow>
             do { c_assert (atom \<noteq> 0);
                  let l = get_atom_length (unat atom);
                  c_assert (\<not> decimal fl);
                  (buffer, pos) \<leftarrow> write_header fl buffer pos l;
                  buffer \<leftarrow> lsh_string_write buffer pos l (get_atom_name (unat atom));
                  Some (buffer, pos + l, args, []) }
         | _ \<Rightarrow> None)
      else if c = CHR ''A'' then
        (case args of
           List_arg l # args \<Rightarrow>
             do { c_assert (\<not> decimal fl);
                  let start = pos;
                  (buffer, pos) \<leftarrow> write_atoms l 0 buffer (if literal fl then pos else pos + 4);
                  buffer \<leftarrow> (if literal fl then Some buffer
                             else lsh_string_write_uint32 buffer start (pos - start - 4));
                  Some (buffer, pos, args, []) }
         | _ \<Rightarrow> None)
      else if c = CHR ''n'' then
        (case args of
           Mpz_arg n # args \<Rightarrow>
             do { c_assert (n \<ge> 0);
                  c_assert (\<not> decimal fl);
                  let l = mpz_size nm fl n;
                  (buffer, pos) \<leftarrow> write_header fl buffer pos l;
                  buffer \<leftarrow> lsh_string_write_bignum nm buffer pos l n;
                  Some (buffer, pos + l, args, []) }
         | _ \<Rightarrow> None)
      else None)"

text \<open>The result is the buffer and the positions stored through the arguments of \<open>%r\<close>.\<close>

primrec ssh_vformat_write ::
  "mpz_lib \<Rightarrow> directive list \<Rightarrow> lsh_string \<Rightarrow> u32 \<Rightarrow> format_arg list \<Rightarrow> (lsh_string \<times> u32 list) option" where
  "ssh_vformat_write nm [] buffer pos args = Some (buffer, [])"
| "ssh_vformat_write nm (d # ds) buffer pos args =
     (case d of
        Copy c \<Rightarrow>
          do { buffer \<leftarrow> lsh_string_putc buffer pos (of_char c);
               ssh_vformat_write nm ds buffer (pos + 1) args }
      | Convert fl c \<Rightarrow>
          do { (buffer, pos, args, ps) \<leftarrow> conv_write nm fl c buffer pos args;
               (buffer, qs) \<leftarrow> ssh_vformat_write nm ds buffer pos args;
               Some (buffer, ps @ qs) }
      | Truncated \<Rightarrow> None)"

definition ssh_format_length :: "mpz_lib \<Rightarrow> string \<Rightarrow> format_arg list \<Rightarrow> u32 option" where
  "ssh_format_length nm format args = ssh_vformat_length nm (scan_format format) args 0"

definition ssh_format_write ::
  "mpz_lib \<Rightarrow> string \<Rightarrow> lsh_string \<Rightarrow> u32 \<Rightarrow> format_arg list \<Rightarrow> (lsh_string \<times> u32 list) option" where
  "ssh_format_write nm format buffer start args =
     ssh_vformat_write nm (scan_format format) buffer start args"

definition ssh_format ::
  "mpz_lib \<Rightarrow> (nat \<Rightarrow> byte) \<Rightarrow> string \<Rightarrow> format_arg list \<Rightarrow> (lsh_string \<times> u32 list) option" where
  "ssh_format nm junk format args =
     do { l \<leftarrow> ssh_vformat_length nm (scan_format format) args 0;
          let packet = lsh_string_alloc junk l;
          ssh_vformat_write nm (scan_format format) packet 0 args }"

end
