(* ===== verification/Format_Render.thy ===== *)
theory Format_Render
  imports Format
begin

text \<open>
  What \<open>ssh_format\<close> produces. \<open>render\<close> lists the bytes of a format with its arguments; the two
  passes of \<open>src/format.c\<close> are shown to agree with it, so that the length computed by the first
  pass is the number of bytes the second one writes and none of the bounds assertions of
  \<open>src/lsh_string.c\<close> can fail.
\<close>

section \<open>Decimal digits\<close>

fun ndigits :: "nat \<Rightarrow> nat" where
  "ndigits n = (if n < 10 then 1 else Suc (ndigits (n div 10)))"

declare ndigits.simps [simp del]

lemma ndigits_div: "10 ^ k \<le> n \<Longrightarrow> ndigits n = k + ndigits (n div 10 ^ k)"
proof (induction k arbitrary: n)
  case (Suc k)
  have "10 \<le> n" using Suc.prems by (metis dual_order.trans mult_le_mono1 one_le_numeral one_le_power mult_1 power_Suc2)
  have "10 ^ k \<le> n div 10" using Suc.prems by (simp add: less_eq_div_iff_mult_less_eq mult.commute)
  moreover have "n div 10 div 10 ^ k = n div 10 ^ Suc k" by (simp add: div_mult2_eq)
  ultimately show ?case using Suc.IH [of "n div 10"] \<open>10 \<le> n\<close> by (simp add: ndigits.simps [of n])
qed simp

lemma powers_nth: "i < 4 \<Longrightarrow> powers ! i = 10 ^ (2 ^ i)"
proof -
  assume "i < 4"
  then have "i = 0 \<or> i = 1 \<or> i = 2 \<or> i = 3" by arith
  then show ?thesis by (elim disjE) (simp_all add: powers_def)
qed

lemma size_in_decimal_loop_eq:
  "i \<le> 4 \<Longrightarrow> n < 10 ^ (2 ^ i) \<Longrightarrow> size_in_decimal_loop i n e + 1 = e + ndigits n"
proof (induction i arbitrary: n e)
  case 0
  then show ?case by (simp add: ndigits.simps)
next
  case (Suc i)
  let ?p = "10 ^ (2 ^ i) :: nat"
  have p: "powers ! i = ?p" using Suc.prems by (simp add: powers_nth)
  show ?case
  proof (cases "?p \<le> n")
    case True
    have "n div ?p < ?p" using Suc.prems by (simp add: less_mult_imp_div_less power_add mult_2)
    then show ?thesis
      using True Suc.prems Suc.IH [of "n div ?p" "e + 2 ^ i"] ndigits_div [OF True] p by simp
  next
    case False
    then show ?thesis using Suc p by simp
  qed
qed

lemma ndigits_le: "k < 10 ^ Suc j \<Longrightarrow> ndigits k \<le> Suc j"
proof (induction j arbitrary: k)
  case (Suc j)
  have "k div 10 < 10 ^ Suc j" using Suc.prems by (simp add: less_mult_imp_div_less)
  then show ?case using Suc.IH by (simp add: ndigits.simps [of k])
qed (simp add: ndigits.simps)

lemma unat_format_size_in_decimal: "unat (format_size_in_decimal n) = ndigits (unat n)"
proof -
  have n: "unat n < 10 ^ 2 ^ 4" by (rule less_le_trans [OF unat_u32_bound]) simp
  have "length powers = 4" by (simp add: powers_def)
  moreover have "size_in_decimal_loop 4 (unat n) 0 + 1 = 0 + ndigits (unat n)"
    by (rule size_in_decimal_loop_eq [OF _ n]) simp
  ultimately have "format_size_in_decimal n = of_nat (0 + ndigits (unat n))"
    by (simp only: format_size_in_decimal_def)
  moreover have "ndigits (unat n) \<le> 16"
    using ndigits_le [of "unat n" 15] n by simp
  ultimately show ?thesis by (simp add: unat_of_nat)
qed

primrec dec_digits :: "nat \<Rightarrow> nat \<Rightarrow> bytes" where
  "dec_digits 0 n = []"
| "dec_digits (Suc k) n = dec_digits k (n div 10) @ [of_nat (48 + n mod 10)]"

lemma dec_digits_numeral [simp]:
  "dec_digits (numeral k) n = dec_digits (pred_numeral k) (n div 10) @ [of_nat (48 + n mod 10)]"
  by (simp only: numeral_eq_Suc [of k] dec_digits.simps)

lemma length_dec_digits [simp]: "length (dec_digits k n) = k"
  by (induction k arbitrary: n) auto

lemma format_decimal_loop_eq:
  assumes "unat start + unat l \<le> unat (str_length b)" "nul_terminated b" "i + left = unat l"
  shows "format_decimal_loop b start l n i left =
    Some (b\<lparr>str_data := overwrite (unat start) (dec_digits left n) (str_data b)\<rparr>)"
  using assms
proof (induction left arbitrary: b n i)
  case 0
  then show ?case by (simp add: nul_terminated_def)
next
  case (Suc left)
  have pos: "unat (start + l - of_nat i - 1) = unat start + left"
  proof -
    have "l = of_nat (i + Suc left)" using Suc.prems by (simp add: word_unat_eq_iff unat_of_nat)
    then have "start + l - of_nat i - 1 = start + of_nat left" by simp
    then show ?thesis using Suc.prems unat_u32_add_nat [of start left "str_length b"] by (simp only:)
  qed
  let ?b = "b\<lparr>str_data := overwrite (unat start + left) [of_nat (48 + n mod 10)] (str_data b)\<rparr>"
  have putc: "lsh_string_putc b (start + l - of_nat i - 1) (of_nat (48 + n mod 10)) = Some ?b"
    using Suc.prems pos by (simp add: lsh_string_putc_eq)
  have "nul_terminated ?b" using Suc.prems by (intro nul_terminated_overwrite) auto
  then have "format_decimal_loop ?b start l (n div 10) (i + 1) left =
      Some (?b\<lparr>str_data := overwrite (unat start) (dec_digits left (n div 10)) (str_data ?b)\<rparr>)"
    using Suc.prems by (intro Suc.IH) auto
  then show ?case
    using putc Suc.prems by (simp add: nul_terminated_def
      overwrite_prepend [of _ "dec_digits left (n div 10)", simplified])
qed

lemma format_decimal_eq:
  "unat start + ndigits (unat n) \<le> unat (str_length b) \<Longrightarrow> nul_terminated b \<Longrightarrow>
   format_decimal b start (format_size_in_decimal n) n =
     Some (b\<lparr>str_data := overwrite (unat start) (dec_digits (ndigits (unat n)) (unat n)) (str_data b)\<rparr>)"
  by (simp add: format_decimal_def unat_format_size_in_decimal format_decimal_loop_eq)

section \<open>Rendering\<close>

definition framed :: "format_flags \<Rightarrow> bytes \<Rightarrow> bytes" where
  "framed fl body = (if literal fl then [] else WRITE_UINT32 (of_nat (length body))) @ body"

definition hexify :: "bytes \<Rightarrow> bytes" where
  "hexify bs = concat (map hex_pair bs)"

fun join_comma :: "bytes list \<Rightarrow> bytes" where
  "join_comma [] = []"
| "join_comma [x] = x"
| "join_comma (x # xs) = x @ 44 # join_comma xs"

definition atom_names :: "nat list \<Rightarrow> bytes list" where
  "atom_names l = map get_atom_name (filter (\<lambda>a. a \<noteq> 0) l)"

definition render_string :: "format_flags \<Rightarrow> bytes \<Rightarrow> format_arg list \<Rightarrow> (bytes \<times> format_arg list) option" where
  "render_string fl data args =
     (if decimal fl then None else Some (framed fl (if hex fl then hexify data else data), args))"

text \<open>The bytes of one conversion; \<open>hole\<close> gives what is in the memory that \<open>%r\<close> skips.\<close>

definition render_conv ::
  "mpz_lib \<Rightarrow> (nat \<Rightarrow> byte) \<Rightarrow> format_flags \<Rightarrow> char \<Rightarrow> nat \<Rightarrow> format_arg list \<Rightarrow> (bytes \<times> format_arg list) option" where
  "render_conv nm hole fl c pos args =
     (if literal fl \<and> decimal fl then None
      else if c = CHR ''c'' then
        (case args of Int_arg i # args \<Rightarrow> Some ([ucast i], args) | _ \<Rightarrow> None)
      else if c = CHR ''%'' then Some ([37], args)
      else if c = CHR ''i'' then
        (case args of
           Int_arg i # args \<Rightarrow>
             Some (if decimal fl then dec_digits (ndigits (unat i)) (unat i) else WRITE_UINT32 i, args)
         | _ \<Rightarrow> None)
      else if c = CHR ''z'' then
        (case args of
           Cstring_arg z # args \<Rightarrow> if do_free fl \<or> hex fl then None else render_string fl z args
         | _ \<Rightarrow> None)
      else if c = CHR ''s'' then
        (case args of
           Int_arg l # Data_arg data # args \<Rightarrow>
             if do_free fl \<or> length data < unat l then None else render_string fl (take (unat l) data) args
         | _ \<Rightarrow> None)
      else if c = CHR ''S'' then
        (case args of
           String_arg s # args \<Rightarrow> if nul_terminated s then render_string fl (contents s) args else None
         | _ \<Rightarrow> None)
      else if c = CHR ''r'' then
        (case args of
           Int_arg l # Pos_arg _ # args \<Rightarrow>
             if decimal fl then None
             else Some (framed fl (map (\<lambda>i. hole (pos + (if literal fl then 0 else 4) + i)) [0..<unat l]), args)
         | _ \<Rightarrow> None)
      else if c = CHR ''a'' then
        (case args of
           Int_arg a # args \<Rightarrow>
             if decimal fl \<or> \<not> known_atom (unat a) then None
             else Some (framed fl (get_atom_name (unat a)), args)
         | _ \<Rightarrow> None)
      else if c = CHR ''A'' then
        (case args of
           List_arg l # args \<Rightarrow>
             if decimal fl \<or> \<not> list_all (\<lambda>a. a = 0 \<or> known_atom a) l then None
             else Some (framed fl (join_comma (atom_names l)), args)
         | _ \<Rightarrow> None)
      else if c = CHR ''n'' then
        (case args of
           Mpz_arg n # args \<Rightarrow>
             let bs = mpz_get_str_256 nm (mpz_size nm fl n) n in
             if decimal fl \<or> n < 0 \<or> length bs \<noteq> unat (mpz_size nm fl n) then None
             else Some (framed fl bs, args)
         | _ \<Rightarrow> None)
      else None)"

primrec render_directives ::
  "mpz_lib \<Rightarrow> (nat \<Rightarrow> byte) \<Rightarrow> directive list \<Rightarrow> nat \<Rightarrow> format_arg list \<Rightarrow> bytes option" where
  "render_directives nm hole [] pos args = Some []"
| "render_directives nm hole (d # ds) pos args =
     (case d of
        Copy c \<Rightarrow> map_option ((#) (of_char c)) (render_directives nm hole ds (pos + 1) args)
      | Convert fl c \<Rightarrow>
          do { (bs, args) \<leftarrow> render_conv nm hole fl c pos args;
               map_option ((@) bs) (render_directives nm hole ds (pos + length bs) args) }
      | Truncated \<Rightarrow> None)"

definition render :: "mpz_lib \<Rightarrow> (nat \<Rightarrow> byte) \<Rightarrow> string \<Rightarrow> format_arg list \<Rightarrow> bytes option" where
  "render nm hole format args = render_directives nm hole (scan_format format) 0 args"

section \<open>The length pass counts the rendered bytes\<close>

lemma length_hexify [simp]: "length (hexify bs) = 2 * length bs"
  by (induction bs) (simp_all add: hexify_def hex_pair_def)

lemma length_framed: "length (framed fl bs) = (if literal fl then 0 else 4) + length bs"
  by (simp add: framed_def)

lemma of_nat_length_u32: "length bs = unat (l :: u32) \<Longrightarrow> (of_nat (length bs) :: u32) = l"
  by simp

lemma length_join_comma:
  "length (join_comma xs) = sum_list (map length xs) + (length xs - 1)"
  by (induction xs rule: join_comma.induct) auto

lemma atoms_size_eq:
  "atoms_size l n m = (n + of_nat (length (atom_names l)), m + of_nat (sum_list (map length (atom_names l))))"
  by (induction l arbitrary: n m)
    (auto simp: atom_names_def get_atom_length_def get_atom_name_def)

lemma atom_names_nonempty:
  "list_all (\<lambda>a. a = 0 \<or> known_atom a) l \<Longrightarrow> n \<in> set (atom_names l) \<Longrightarrow> 0 < length n"
  by (auto simp: atom_names_def list_all_iff dest!: bspec atom_name_ok(1))

lemma length_le_sum_list: "(\<And>x. x \<in> set xs \<Longrightarrow> 0 < length x) \<Longrightarrow> length xs \<le> sum_list (map length xs)"
proof (induction xs)
  case (Cons x xs)
  then have "0 < length x" "length xs \<le> sum_list (map length xs)" by auto
  then show ?case by (cases x) auto
qed simp

lemma atoms_size_join:
  assumes "list_all (\<lambda>a. a = 0 \<or> known_atom a) l" "length (join_comma (atom_names l)) < 4294967296"
    and "atoms_size l 0 0 = (n, len)"
  shows "len + (if n \<noteq> 0 then n - 1 else 0) = of_nat (length (join_comma (atom_names l)))"
proof (cases "atom_names l")
  case Nil
  then show ?thesis using assms(3) by (simp add: atoms_size_eq)
next
  case (Cons x xs)
  let ?k = "length (atom_names l)"
  have "?k \<le> sum_list (map length (atom_names l))"
    using assms(1) by (intro length_le_sum_list) (rule atom_names_nonempty)
  then have k: "?k < 4294967296" using assms(2) by (simp add: length_join_comma)
  have "n = of_nat ?k" using assms(3) by (simp add: atoms_size_eq)
  then have "n \<noteq> 0" using unat_u32_of_nat [OF k] Cons by auto
  moreover have "(of_nat (?k - 1) :: u32) = of_nat ?k - 1" using Cons by simp
  ultimately show ?thesis using assms(3) by (auto simp: atoms_size_eq length_join_comma)
qed

lemma format_size_in_decimal_of_nat: "of_nat (ndigits (unat i)) = format_size_in_decimal i"
  using unat_format_size_in_decimal [of i] by (metis of_nat_unat ucast_id)

lemmas render_sizes = string_size_def cstring_size_def length_framed render_string_def
  format_size_in_decimal_of_nat nul_terminated_length lsh_string_length_def get_atom_length_def get_atom_name_def

lemma conv_length_render:
  assumes "render_conv nm hole fl c pos args = Some (bs, args')" "length bs < 4294967296"
  shows "conv_length nm fl c args = Some (of_nat (length bs), args')"
proof -
  have A: "(case atoms_size l 0 0 of (n, len) \<Rightarrow>
        Some (len + (if n \<noteq> 0 then n - 1 else 0) + k, as)) = Some (of_nat (length (join_comma (atom_names l))) + k, as)"
    if "list_all (\<lambda>a. a = 0 \<or> known_atom a) l" "length (join_comma (atom_names l)) < 4294967296"
    for l k and as :: "format_arg list"
    using atoms_size_join [OF that] by (auto split: prod.splits)
  show ?thesis
    using assms A A [of _ 0] unfolding render_conv_def conv_length_def
    by (auto simp: render_sizes Let_def known_atom_def add.commute c_assert_bind
        split: if_splits list.splits format_arg.splits)
qed


lemma ssh_vformat_length_render:
  "render_directives nm hole ds pos args = Some bs \<Longrightarrow> length bs < 4294967296 \<Longrightarrow>
   ssh_vformat_length nm ds args l = Some (l + of_nat (length bs))"
proof (induction ds arbitrary: pos args bs l)
  case (Cons d ds)
  show ?case
  proof (cases d)
    case (Copy c)
    then show ?thesis using Cons.prems Cons.IH [of "pos + 1" args _ "l + 1"] by (auto simp: add.assoc)
  next
    case (Convert fl c)
    then obtain b1 args' b2 where *: "render_conv nm hole fl c pos args = Some (b1, args')"
        "render_directives nm hole ds (pos + length b1) args' = Some b2" "bs = b1 @ b2"
      using Cons.prems(1) by (auto simp: Option.bind_eq_Some_conv)
    then show ?thesis
      using Convert Cons.prems(2) Cons.IH [OF *(2), of "l + of_nat (length b1)"] conv_length_render [OF *(1)]
      by (simp add: add.assoc)
  next
    case Truncated
    then show ?thesis using Cons.prems by simp
  qed
qed simp

section \<open>The write pass writes the rendered bytes\<close>

text \<open>\<open>stored b p bs\<close>: the string \<open>b\<close> with \<open>bs\<close> stored from position \<open>p\<close>.\<close>

definition stored :: "lsh_string \<Rightarrow> nat \<Rightarrow> bytes \<Rightarrow> lsh_string" where
  "stored b p bs = b\<lparr>str_data := overwrite p bs (str_data b)\<rparr>"

definition fits :: "lsh_string \<Rightarrow> u32 \<Rightarrow> bytes \<Rightarrow> bool" where
  "fits b pos bs \<longleftrightarrow> nul_terminated b \<and> unat pos + length bs \<le> unat (str_length b)"

lemma str_length_stored [simp]: "str_length (stored b p bs) = str_length b"
  by (simp add: stored_def)

lemma fits_pos: "fits b pos bs \<Longrightarrow> unat (pos + of_nat (length bs)) = unat pos + length bs"
  unfolding fits_def by (elim conjE, rule unat_u32_add_nat)

lemma fits_append: "fits b pos (xs @ ys) \<Longrightarrow> fits b pos xs"
  by (simp add: fits_def)

lemma fits_stored: "fits b pos (xs @ ys) \<Longrightarrow> fits (stored b (unat pos) xs) (pos + of_nat (length xs)) ys"
  using fits_pos [OF fits_append] nul_terminated_overwrite [of b "unat pos" xs]
  by (simp add: fits_def stored_def)

lemma stored_stored: "fits b pos (xs @ ys) \<Longrightarrow>
  stored (stored b (unat pos) xs) (unat pos + length xs) ys = stored b (unat pos) (xs @ ys)"
  by (simp add: stored_def fits_def overwrite_append nul_terminated_def)

lemma write_ops_stored:
  assumes "fits b pos bs"
  shows "length bs = unat l \<Longrightarrow> take (unat l) data = bs \<Longrightarrow> lsh_string_write b pos l data = Some (stored b (unat pos) bs)"
    and "bs = [c] \<Longrightarrow> lsh_string_putc b pos c = Some (stored b (unat pos) bs)"
    and "bs = WRITE_UINT32 n \<Longrightarrow> lsh_string_write_uint32 b pos n = Some (stored b (unat pos) bs)"
    and "put_bytes b pos bs = Some (stored b (unat pos) bs)"
  using assms by (auto simp: fits_def stored_def lsh_string_write_eq lsh_string_putc_eq
      lsh_string_write_uint32_eq put_bytes_eq room_def)

definition header :: "format_flags \<Rightarrow> bytes \<Rightarrow> bytes" where
  "header fl body = (if literal fl then [] else WRITE_UINT32 (of_nat (length body)))"

lemma framed_header: "framed fl body = header fl body @ body"
  by (simp add: framed_def header_def)

lemma stored_Nil [simp]: "fits b pos [] \<Longrightarrow> stored b (unat pos) [] = b"
  by (simp add: stored_def fits_def nul_terminated_def)

lemma write_header_stored:
  assumes "fits b pos (header fl body)" "length body = unat l"
  shows "write_header fl b pos l =
    Some (stored b (unat pos) (header fl body), pos + of_nat (length (header fl body)))"
proof (cases "literal fl")
  case True
  then show ?thesis using assms by (simp add: write_header_def header_def)
next
  case False
  then show ?thesis
    using assms write_ops_stored(3) [of b pos "header fl body" l] by (simp add: write_header_def header_def)
qed

lemma framed_write:
  assumes fit: "fits b pos (framed fl body)" and len: "length body = unat l"
    and w: "\<And>b' pos'. fits b' pos' body \<Longrightarrow> w b' pos' = Some (stored b' (unat pos') body)"
  shows "do { (b, p) \<leftarrow> write_header fl b pos l; b \<leftarrow> w b p; f b (p + l) } =
    f (stored b (unat pos) (framed fl body)) (pos + of_nat (length (framed fl body)))"
proof -
  let ?h = "header fl body"
  have fit': "fits b pos (?h @ body)" using fit by (simp add: framed_header)
  have h: "write_header fl b pos l = Some (stored b (unat pos) ?h, pos + of_nat (length ?h))"
    using write_header_stored [OF fits_append [OF fit'] len] .
  have b: "w (stored b (unat pos) ?h) (pos + of_nat (length ?h)) =
      Some (stored (stored b (unat pos) ?h) (unat pos + length ?h) body)"
    using w [OF fits_stored [OF fit']] fits_pos [OF fits_append [OF fit']] by simp
  have "(of_nat (length body) :: u32) = l" using len by simp
  then show ?thesis
    using h b stored_stored [OF fit'] by (simp add: framed_header add.assoc)
qed

lemma format_string_write_header:
  "format_string b pos sz data (literal fl) (hex fl) =
     do { (b, p) \<leftarrow> write_header fl b pos (if hex fl then 2 * sz else sz);
          b \<leftarrow> (if hex fl then do { c_assert (unat sz \<le> length data);
                                  put_bytes b p (hexify (take (unat sz) data)) }
                else lsh_string_write b p sz data);
          Some (b, p + (if hex fl then 2 * sz else sz)) }"
  by (cases "literal fl"; cases "hex fl")
    (auto simp: format_string_def write_header_def hexify_def Let_def split: Option.bind_splits)

lemma format_string_stored:
  assumes "fits b pos (framed fl body)" "unat sz \<le> length data"
    and body: "body = (if hex fl then hexify (take (unat sz) data) else take (unat sz) data)"
  shows "format_string b pos sz data (literal fl) (hex fl) =
    Some (stored b (unat pos) (framed fl body), pos + of_nat (length (framed fl body)))"
proof -
  have "length body < 4294967296"
    using assms(1) unat_u32_bound [of "str_length b"] by (simp add: fits_def length_framed del: unat_u32_bound)
  then have "length body = unat (if hex fl then 2 * sz else sz)"
    using assms(2) body by (auto simp: unat_word_ariths split: if_splits)
  then show ?thesis
    unfolding format_string_write_header
    by (rule framed_write [OF assms(1)])
      (use body assms(2) in \<open>auto simp: write_ops_stored c_assert_bind split: if_splits\<close>)
qed

definition comma_tail :: "nat \<Rightarrow> bytes list \<Rightarrow> bytes" where
  "comma_tail n names = (if n = 0 then join_comma names else concat (map ((#) 44) names))"

lemma join_comma_Cons: "join_comma (x # xs) = x @ concat (map ((#) 44) xs)"
  by (induction xs arbitrary: x) auto

lemma comma_tail_Cons: "comma_tail n (x # xs) = ((if n = 0 then [] else [44]) @ x) @ comma_tail (n + 1) xs"
  by (simp add: comma_tail_def join_comma_Cons)

lemma write_one_atom:
  assumes "fits b pos ((if n = 0 then [] else [44]) @ get_atom_name a)" "known_atom a"
  shows "do { (b, pos) \<leftarrow> (if n \<noteq> (0 :: nat) then do { b \<leftarrow> lsh_string_putc b pos 44; Some (b, pos + 1) } else Some (b, pos));
              b \<leftarrow> lsh_string_write b pos (get_atom_length a) (get_atom_name a);
              f b (pos + get_atom_length a) } =
         f (stored b (unat pos) ((if n = 0 then [] else [44]) @ get_atom_name a))
           (pos + of_nat (length ((if n = 0 then [] else [44 :: byte]) @ get_atom_name a)))"
proof -
  let ?p = "if n = 0 then [] else [44 :: byte]"
  have len: "length (get_atom_name a) = unat (get_atom_length a)"
    using atom_name_ok(2) [OF assms(2)] by (simp add: get_atom_length_def get_atom_name_def unat_u32_of_nat)
  have "lsh_string_write (stored b (unat pos) ?p) (pos + of_nat (length ?p)) (get_atom_length a) (get_atom_name a) =
      Some (stored b (unat pos) (?p @ get_atom_name a))"
    using write_ops_stored(1) [OF fits_stored [OF assms(1)] len] len
      fits_pos [OF fits_append [OF assms(1)]] stored_stored [OF assms(1)] by simp
  moreover have "(of_nat (length (get_atom_name a)) :: u32) = get_atom_length a" using len by simp
  ultimately show ?thesis
    using fits_append [OF assms(1)] write_ops_stored(2) [OF fits_append [OF assms(1)], of 44]
    by (cases "n = 0") (simp_all add: add.assoc)
qed

lemma write_atoms_stored:
  "list_all (\<lambda>a. a = 0 \<or> known_atom a) l \<Longrightarrow> fits b pos (comma_tail n (atom_names l)) \<Longrightarrow>
   write_atoms l n b pos = Some (stored b (unat pos) (comma_tail n (atom_names l)),
     pos + of_nat (length (comma_tail n (atom_names l))))"
proof (induction l arbitrary: n b pos)
  case Nil
  then show ?case by (simp add: atom_names_def comma_tail_def split: if_splits)
next
  case (Cons a l)
  show ?case
  proof (cases "a = 0")
    case True
    then show ?thesis using Cons by (simp add: atom_names_def)
  next
    case False
    let ?x = "(if n = 0 then [] else [44]) @ get_atom_name a"
    let ?t = "comma_tail (n + 1) (atom_names l)"
    have eq: "comma_tail n (atom_names (a # l)) = ?x @ ?t"
      using False by (simp only: atom_names_def filter.simps list.map if_True comma_tail_Cons simp_thms)
    have fit: "fits b pos (?x @ ?t)" using Cons.prems by (simp only: eq)
    have "write_atoms (a # l) n b pos = write_atoms l (n + 1) (stored b (unat pos) ?x) (pos + of_nat (length ?x))"
      using write_one_atom [OF fits_append [OF fit], of "write_atoms l (n + 1)"] False Cons.prems(1)
      by (simp add: Let_def)
    also have "\<dots> = Some (stored (stored b (unat pos) ?x) (unat pos + length ?x) ?t,
        pos + of_nat (length ?x) + of_nat (length ?t))"
      using Cons.IH [OF _ fits_stored [OF fit]] Cons.prems(1) fits_pos [OF fits_append [OF fit]] by simp
    finally show ?thesis
      using stored_stored [OF fit] by (simp only: eq) (simp add: add.assoc)
  qed
qed


lemma conv_write_string_stored:
  assumes "render_string fl (take (unat sz) data) args = Some (bs, args')" "fits b pos bs" "unat sz \<le> length data"
  shows "conv_write_string fl b pos sz data args = Some (stored b (unat pos) bs, pos + of_nat (length bs), args', [])"
  using assms format_string_stored [of b pos fl _ sz data]
  by (auto simp: conv_write_string_def render_string_def c_assert_bind split: if_splits)

lemma write_list_stored:
  assumes "list_all (\<lambda>a. a = 0 \<or> known_atom a) l" "fits b pos (framed fl (join_comma (atom_names l)))"
  shows "do { (b', pos') \<leftarrow> write_atoms l 0 b (if literal fl then pos else pos + 4);
              b' \<leftarrow> (if literal fl then Some b' else lsh_string_write_uint32 b' pos (pos' - pos - 4));
              Some (b', pos', r) } =
    Some (stored b (unat pos) (framed fl (join_comma (atom_names l))),
          pos + of_nat (length (framed fl (join_comma (atom_names l)))), r)"
proof -
  let ?j = "join_comma (atom_names l)"
  have ct: "comma_tail 0 (atom_names l) = ?j" by (simp add: comma_tail_def)
  show ?thesis
  proof (cases "literal fl")
    case True
    then show ?thesis using assms write_atoms_stored [OF assms(1), of b pos 0] by (simp add: ct framed_def)
  next
    case False
    have fit: "fits b pos (WRITE_UINT32 (of_nat (length ?j)) @ ?j)"
      using assms(2) False by (simp add: framed_def)
    have p4: "unat (pos + 4) = unat pos + 4"
      using fits_pos [OF fits_append [OF fit]] by simp
    have fit4: "fits b (pos + 4) ?j" using fit p4 by (simp add: fits_def)
    let ?b = "stored b (unat pos + 4) ?j"
    have "fits ?b pos (WRITE_UINT32 (of_nat (length ?j)))"
      using fit nul_terminated_overwrite [of b "unat pos + 4" ?j] by (simp add: fits_def stored_def)
    from write_ops_stored(3) [OF this, of "of_nat (length ?j)"]
    have "lsh_string_write_uint32 ?b pos (of_nat (length ?j)) =
        Some (stored ?b (unat pos) (WRITE_UINT32 (of_nat (length ?j))))" by simp
    moreover have "stored ?b (unat pos) (WRITE_UINT32 (of_nat (length ?j))) = stored b (unat pos) (framed fl ?j)"
      using fit overwrite_prepend [of "unat pos" "WRITE_UINT32 (of_nat (length ?j))" ?j "str_data b"] False
      by (simp add: stored_def framed_def fits_def nul_terminated_def)
    ultimately show ?thesis
      using write_atoms_stored [OF assms(1), of b "pos + 4" 0] fit4 p4 False
      by (simp add: ct framed_def add.assoc)
  qed
qed

lemma write_bignum_stored:
  "fits b pos (mpz_get_str_256 nm l n) \<Longrightarrow> length (mpz_get_str_256 nm l n) = unat l \<Longrightarrow>
   lsh_string_write_bignum nm b pos l n = Some (stored b (unat pos) (mpz_get_str_256 nm l n))"
  using nul_terminated_overwrite [of b "unat pos" "mpz_get_str_256 nm l n"]
  by (simp add: lsh_string_write_bignum_def stored_def fits_def lsh_assert room_def ASSERT_NUL_ok Let_def)

lemma nth_overwrite:
  "s + length ys \<le> length xs \<Longrightarrow>
   overwrite s ys xs ! i = (if s \<le> i \<and> i < s + length ys then ys ! (i - s) else xs ! i)"
  by (auto simp: overwrite_def nth_append)

lemma overwrite_same:
  assumes "\<And>i. i < length ys \<Longrightarrow> ys ! i = xs ! (s + i)" "s + length ys \<le> length xs"
  shows "overwrite s ys xs = xs"
proof (rule nth_equalityI)
  fix i assume "i < length (overwrite s ys xs)"
  then show "overwrite s ys xs ! i = xs ! i"
    using assms(1) [of "i - s"] assms(2) by (auto simp: nth_overwrite)
qed (use assms(2) in simp)

lemma write_hole_stored:
  assumes "fits b pos (framed fl body)" "length body = unat l"
    and "\<And>i. i < length body \<Longrightarrow> body ! i = str_data b ! (unat pos + length (header fl body) + i)"
  shows "write_header fl b pos l = Some (stored b (unat pos) (framed fl body), pos + of_nat (length (header fl body)))"
proof -
  let ?h = "header fl body"
  have fit: "fits b pos (?h @ body)" using assms(1) by (simp add: framed_header)
  have "str_data (stored b (unat pos) ?h) = overwrite (unat pos + length ?h) body (str_data (stored b (unat pos) ?h))"
    using fit assms(3)
    by (intro overwrite_same [symmetric]) (auto simp: stored_def fits_def nul_terminated_def nth_overwrite)
  then have "stored b (unat pos) ?h = stored (stored b (unat pos) ?h) (unat pos + length ?h) body"
    by (simp add: stored_def [of "stored b (unat pos) ?h"])
  then show ?thesis
    using write_header_stored [OF fits_append [OF fit] assms(2)] stored_stored [OF fit] by (simp add: framed_header)
qed


text \<open>The conversions that write more than one field.\<close>

lemma conv_write_hole:
  assumes "render_conv nm hole fl CHR ''r'' (unat pos) args = Some (bs, args')" "fits b pos bs"
    and hole: "\<And>i. unat pos \<le> i \<Longrightarrow> i < unat (str_length b) \<Longrightarrow> hole i = str_data b ! i"
  shows "\<exists>ps. conv_write nm fl CHR ''r'' b pos args = Some (stored b (unat pos) bs, pos + of_nat (length bs), args', ps)"
proof -
  define body where "body l = map (\<lambda>i. hole (unat pos + (if literal fl then 0 else 4) + i)) [0..<unat l]" for l :: u32
  obtain l p where *: "args = Int_arg l # Pos_arg p # args'" "\<not> decimal fl" "bs = framed fl (body l)"
    using assms(1) by (auto simp: render_conv_def body_def split: if_splits list.splits format_arg.splits)
  have len: "length (body l) = unat l" by (simp add: body_def)
  have "write_header fl b pos l = Some (stored b (unat pos) bs, pos + of_nat (length (header fl (body l))))"
    unfolding *(3)
  proof (rule write_hole_stored [OF _ len])
    fix i assume "i < length (body l)"
    then show "body l ! i = str_data b ! (unat pos + length (header fl (body l)) + i)"
      using assms(2) * len by (auto simp: body_def header_def fits_def length_framed intro!: hole)
  qed (use assms(2) * in simp)
  moreover have "of_nat (length bs) = of_nat (length (header fl (body l))) + l"
    using * len by (simp add: framed_header)
  ultimately show ?thesis using * by (simp add: conv_write_def add.assoc)
qed

lemma conv_write_atom:
  assumes "render_conv nm hole fl CHR ''a'' p args = Some (bs, args')" "fits b pos bs"
  shows "conv_write nm fl CHR ''a'' b pos args = Some (stored b (unat pos) bs, pos + of_nat (length bs), args', [])"
proof -
  obtain a where *: "args = Int_arg a # args'" "\<not> decimal fl" "known_atom (unat a)" "bs = framed fl (get_atom_name (unat a))"
    using assms(1) by (auto simp: render_conv_def split: if_splits list.splits format_arg.splits)
  let ?n = "get_atom_name (unat a)" and ?l = "get_atom_length (unat a)"
  have len: "length ?n = unat ?l"
    using atom_name_ok(2) [OF *(3)] by (simp add: get_atom_length_def get_atom_name_def unat_u32_of_nat)
  have "a \<noteq> 0" using *(3) by (auto simp: known_atom_def)
  then show ?thesis
    using * framed_write [OF assms(2) [unfolded *(4)] len, of "\<lambda>b p. lsh_string_write b p ?l ?n" "\<lambda>b p. Some (b, p, args', [])"]
      len by (simp add: conv_write_def write_ops_stored(1) Let_def)
qed

lemma conv_write_bignum:
  assumes "render_conv nm hole fl CHR ''n'' p args = Some (bs, args')" "fits b pos bs"
  shows "conv_write nm fl CHR ''n'' b pos args = Some (stored b (unat pos) bs, pos + of_nat (length bs), args', [])"
proof -
  obtain n where *: "args = Mpz_arg n # args'" "\<not> decimal fl" "0 \<le> n"
      "length (mpz_get_str_256 nm (mpz_size nm fl n) n) = unat (mpz_size nm fl n)"
      "bs = framed fl (mpz_get_str_256 nm (mpz_size nm fl n) n)"
    using assms(1) by (auto simp: render_conv_def Let_def split: if_splits list.splits format_arg.splits)
  then show ?thesis
    using framed_write [OF assms(2) [unfolded *(5)] *(4), of "\<lambda>b p. lsh_string_write_bignum nm b p (mpz_size nm fl n) n"
        "\<lambda>b p. Some (b, p, args', [])"]
    by (simp add: conv_write_def write_bignum_stored Let_def)
qed

lemma conv_write_list:
  assumes "render_conv nm hole fl CHR ''A'' p args = Some (bs, args')" "fits b pos bs"
  shows "conv_write nm fl CHR ''A'' b pos args = Some (stored b (unat pos) bs, pos + of_nat (length bs), args', [])"
proof -
  obtain l where *: "args = List_arg l # args'" "\<not> decimal fl" "list_all (\<lambda>a. a = 0 \<or> known_atom a) l"
      "bs = framed fl (join_comma (atom_names l))"
    using assms(1) by (auto simp: render_conv_def split: if_splits list.splits format_arg.splits)
  then show ?thesis
    using write_list_stored [OF *(3) assms(2) [unfolded *(4)], of "(args', [])"] by (simp add: conv_write_def Let_def)
qed

lemma conv_write_cstring:
  assumes "render_conv nm hole fl CHR ''z'' p args = Some (bs, args')" "fits b pos bs"
  shows "conv_write nm fl CHR ''z'' b pos args = Some (stored b (unat pos) bs, pos + of_nat (length bs), args', [])"
proof -
  obtain z where *: "args = Cstring_arg z # args'" "\<not> do_free fl" "render_string fl z args' = Some (bs, args')" "\<not> hex fl"
    using assms(1) by (auto simp: render_conv_def render_string_def split: if_splits list.splits format_arg.splits)
  have "length z \<le> length bs" using * by (auto simp: render_string_def length_framed split: if_splits)
  then have "length z < 4294967296"
    using assms(2) unat_u32_bound [of "str_length b"] by (simp add: fits_def del: unat_u32_bound)
  then have "unat (of_nat (length z) :: u32) = length z" by (rule unat_u32_of_nat)
  then show ?thesis
    using * conv_write_string_stored [of fl "of_nat (length z)" z args' bs args' b pos] assms(2)
    by (auto simp: conv_write_def render_string_def split: if_splits)
qed

lemma conv_write_render:
  assumes r: "render_conv nm hole fl c (unat pos) args = Some (bs, args')" and fit: "fits b pos bs"
    and hole: "\<And>i. unat pos \<le> i \<Longrightarrow> i < unat (str_length b) \<Longrightarrow> hole i = str_data b ! i"
  shows "\<exists>ps. conv_write nm fl c b pos args = Some (stored b (unat pos) bs, pos + of_nat (length bs), args', ps)"
proof -
  consider "c \<in> {CHR ''c'', CHR ''%'', CHR ''i''}" | "c = CHR ''z''" | "c \<in> {CHR ''s'', CHR ''S''}"
    | "c = CHR ''r''" | "c = CHR ''a''" | "c = CHR ''A''" | "c = CHR ''n''"
    using r by (auto simp: render_conv_def split: if_splits)
  then show ?thesis
  proof cases
    case 1
    then show ?thesis using r fit
      by (auto simp: render_conv_def conv_write_def write_ops_stored Let_def fits_def stored_def room_def
        lsh_string_putc_eq format_decimal_eq format_size_in_decimal_of_nat lsh_string_write_uint32_eq
        split: if_splits list.splits format_arg.splits)
  next
    case 3
    then show ?thesis using r fit
      by (auto simp: render_conv_def conv_write_def conv_write_string_stored contents_def
        lsh_string_length_def lsh_string_data_def nul_terminated_def split: if_splits list.splits format_arg.splits)
  next
    case 4
    then show ?thesis using r conv_write_hole [OF _ fit hole] by blast
  next
    case 2
    then show ?thesis using r conv_write_cstring [OF _ fit] by blast
  next
    case 5
    then show ?thesis using r conv_write_atom [OF _ fit] by blast
  next
    case 6
    then show ?thesis using r conv_write_list [OF _ fit] by blast
  next
    case 7
    then show ?thesis using r conv_write_bignum [OF _ fit] by blast
  qed
qed

lemma ssh_vformat_write_render:
  "render_directives nm hole ds (unat pos) args = Some bs \<Longrightarrow> fits b pos bs \<Longrightarrow>
   (\<And>i. unat pos \<le> i \<Longrightarrow> i < unat (str_length b) \<Longrightarrow> hole i = str_data b ! i) \<Longrightarrow>
   \<exists>ps. ssh_vformat_write nm ds b pos args = Some (stored b (unat pos) bs, ps)"
proof (induction ds arbitrary: pos args bs b)
  case Nil
  then show ?case by simp
next
  case (Cons d ds)
  have step: "\<exists>ps. ssh_vformat_write nm ds (stored b (unat pos) xs) (pos + of_nat (length xs)) args' =
      Some (stored b (unat pos) (xs @ ys), ps)"
    if "fits b pos (xs @ ys)" "render_directives nm hole ds (unat pos + length xs) args' = Some ys" for xs ys args'
  proof -
    have p: "unat (pos + of_nat (length xs)) = unat pos + length xs" using fits_pos [OF fits_append [OF that(1)]] .
    have "hole i = str_data (stored b (unat pos) xs) ! i"
      if "unat pos + length xs \<le> i" "i < unat (str_length b)" for i
      using Cons.prems(3) [of i] that \<open>fits b pos (xs @ ys)\<close>
      by (simp add: stored_def fits_def nul_terminated_def nth_overwrite)
    then show ?thesis
      using Cons.IH [of "pos + of_nat (length xs)" args' ys "stored b (unat pos) xs"] that p
        fits_stored [OF that(1)] stored_stored [OF that(1)] by simp
  qed
  show ?case
  proof (cases d)
    case (Copy c)
    then obtain ys where ys: "bs = [of_char c] @ ys" "render_directives nm hole ds (unat pos + 1) args = Some ys"
      using Cons.prems(1) by auto
    then show ?thesis
      using step [of "[of_char c]" ys args] Cons.prems(2) Copy
        write_ops_stored(2) [OF fits_append, of b pos "[of_char c]" ys "of_char c"] by auto
  next
    case (Convert fl c)
    then obtain xs args' ys where *: "render_conv nm hole fl c (unat pos) args = Some (xs, args')"
        "render_directives nm hole ds (unat pos + length xs) args' = Some ys" "bs = xs @ ys"
      using Cons.prems(1) by (auto simp: Option.bind_eq_Some_conv)
    have "fits b pos (xs @ ys)" using Cons.prems(2) * by simp
    then show ?thesis
      using conv_write_render [OF *(1) fits_append Cons.prems(3)] step [OF _ *(2)] Convert * by fastforce
  next
    case Truncated
    then show ?thesis using Cons.prems by simp
  qed
qed


section \<open>Formatting a message\<close>

lemma ssh_format_total:
  assumes "render nm junk format args = Some bs" "length bs < 4294967296"
  shows "\<exists>s ps. ssh_format nm junk format args = Some (s, ps) \<and> nul_terminated s \<and> contents s = bs
           \<and> ssh_format_length nm format args = Some (str_length s)"
proof -
  let ?p = "lsh_string_alloc junk (of_nat (length bs))"
  have l: "ssh_vformat_length nm (scan_format format) args 0 = Some (of_nat (length bs))"
    using ssh_vformat_length_render [OF assms(1) [unfolded render_def] assms(2), of 0] by simp
  have fit: "fits ?p 0 bs" using assms(2) by (simp add: fits_def unat_u32_of_nat)
  have "\<exists>ps. ssh_vformat_write nm (scan_format format) ?p 0 args = Some (stored ?p 0 bs, ps)"
    using ssh_vformat_write_render [of nm junk "scan_format format" 0 args bs ?p] assms fit
    by (auto simp: render_def lsh_string_alloc_def nth_append unat_u32_of_nat)
  moreover have "nul_terminated (stored ?p 0 bs)" "contents (stored ?p 0 bs) = bs"
    using fit assms(2) nul_terminated_overwrite [of ?p 0 bs] contents_overwrite [of ?p 0 bs]
    by (simp_all add: stored_def fits_def overwrite_whole unat_u32_of_nat)
  ultimately show ?thesis
    using l by (auto simp: ssh_format_def ssh_format_length_def Let_def)
qed

section \<open>The positions of the holes\<close>

text \<open>The positions that \<open>ssh_format\<close> stores for the conversions \<open>%r\<close>, in terms of the rendering.\<close>

definition conv_positions :: "format_flags \<Rightarrow> char \<Rightarrow> u32 \<Rightarrow> format_arg list \<Rightarrow> u32 list" where
  "conv_positions fl c pos args =
     (case args of
        Int_arg l # Pos_arg True # _ \<Rightarrow> if c = CHR ''r'' then [if literal fl then pos else pos + 4] else []
      | _ \<Rightarrow> [])"

primrec render_positions :: "mpz_lib \<Rightarrow> (nat \<Rightarrow> byte) \<Rightarrow> directive list \<Rightarrow> u32 \<Rightarrow> format_arg list \<Rightarrow> u32 list" where
  "render_positions nm hole [] pos args = []"
| "render_positions nm hole (d # ds) pos args =
     (case d of
        Copy c \<Rightarrow> render_positions nm hole ds (pos + 1) args
      | Convert fl c \<Rightarrow>
          (case render_conv nm hole fl c (unat pos) args of
             None \<Rightarrow> []
           | Some (bs, args') \<Rightarrow>
               conv_positions fl c pos args @ render_positions nm hole ds (pos + of_nat (length bs)) args')
      | Truncated \<Rightarrow> [])"

lemma conv_write_positions:
  "conv_write nm fl c b pos args = Some (b', pos', args', ps) \<Longrightarrow> ps = conv_positions fl c pos args"
  by (auto simp: conv_write_def conv_positions_def conv_write_string_def write_header_def bind_eq_Some_conv Let_def
      split: if_splits list.splits format_arg.splits bool.splits)

lemma ssh_vformat_write_positions:
  "render_directives nm hole ds (unat pos) args = Some bs \<Longrightarrow> fits b pos bs \<Longrightarrow>
   (\<And>i. unat pos \<le> i \<Longrightarrow> i < unat (str_length b) \<Longrightarrow> hole i = str_data b ! i) \<Longrightarrow>
   ssh_vformat_write nm ds b pos args = Some (s, ps) \<Longrightarrow> ps = render_positions nm hole ds pos args"
proof (induction ds arbitrary: pos args bs b ps)
  case Nil
  then show ?case by simp
next
  case (Cons d ds)
  have hole: "hole i = str_data (stored b (unat pos) xs) ! i"
    if "unat (pos + of_nat (length xs)) \<le> i" "i < unat (str_length b)" "fits b pos (xs @ ys)" for i xs ys
    using Cons.prems(3) [of i] that fits_pos [OF fits_append [OF that(3)]]
    by (simp add: stored_def fits_def nul_terminated_def nth_overwrite)
  show ?case
  proof (cases d)
    case (Copy c)
    then obtain ys where ys: "bs = [of_char c] @ ys" "render_directives nm hole ds (unat pos + 1) args = Some ys"
      using Cons.prems(1) by auto
    then have fit: "fits b pos ([of_char c] @ ys)" using Cons.prems(2) by simp
    have "ssh_vformat_write nm ds (stored b (unat pos) [of_char c]) (pos + 1) args = Some (s, ps)"
      using Cons.prems(4) Copy write_ops_stored(2) [OF fits_append [OF fit]] by simp
    then show ?thesis
      using Cons.IH [of "pos + 1" args ys "stored b (unat pos) [of_char c]" ps] ys Copy
        fits_pos [OF fits_append [OF fit]] fits_stored [OF fit] hole [OF _ _ fit] by simp
  next
    case (Convert fl c)
    then obtain xs args' ys where *: "render_conv nm hole fl c (unat pos) args = Some (xs, args')"
        "render_directives nm hole ds (unat pos + length xs) args' = Some ys" "bs = xs @ ys"
      using Cons.prems(1) by (auto simp: Option.bind_eq_Some_conv)
    have fit: "fits b pos (xs @ ys)" using Cons.prems(2) * by simp
    obtain qs where w: "conv_write nm fl c b pos args = Some (stored b (unat pos) xs, pos + of_nat (length xs), args', qs)"
      using conv_write_render [OF *(1) fits_append [OF fit] Cons.prems(3)] by blast
    then obtain qs' where "ssh_vformat_write nm ds (stored b (unat pos) xs) (pos + of_nat (length xs)) args' = Some (s, qs')"
        "ps = qs @ qs'"
      using Cons.prems(4) Convert by (auto simp: Option.bind_eq_Some_conv)
    then show ?thesis
      using Cons.IH [of "pos + of_nat (length xs)" args' ys "stored b (unat pos) xs" qs'] * Convert conv_write_positions [OF w]
        fits_pos [OF fits_append [OF fit]] fits_stored [OF fit] hole [OF _ _ fit] by simp
  next
    case Truncated
    then show ?thesis using Cons.prems by simp
  qed
qed

lemma ssh_format_holes:
  assumes "render nm junk format args = Some bs" "length bs < 4294967296"
  shows "\<exists>s. ssh_format nm junk format args = Some (s, render_positions nm junk (scan_format format) 0 args)
    \<and> nul_terminated s \<and> contents s = bs \<and> str_length s = of_nat (length bs)"
proof -
  let ?p = "lsh_string_alloc junk (of_nat (length bs))"
  obtain s ps where s: "ssh_format nm junk format args = Some (s, ps)" "nul_terminated s" "contents s = bs"
    using ssh_format_total [OF assms] by blast
  have l: "ssh_vformat_length nm (scan_format format) args 0 = Some (of_nat (length bs))"
    using ssh_vformat_length_render [OF assms(1) [unfolded render_def] assms(2), of 0] by simp
  have "fits ?p 0 bs" using assms(2) by (simp add: fits_def unat_u32_of_nat)
  moreover have "ssh_vformat_write nm (scan_format format) ?p 0 args = Some (s, ps)"
    using s(1) l by (simp add: ssh_format_def)
  ultimately have "ps = render_positions nm junk (scan_format format) 0 args"
    using ssh_vformat_write_positions [of nm junk "scan_format format" 0 args bs ?p s ps] assms
    by (simp add: render_def lsh_string_alloc_def nth_append unat_u32_of_nat)
  moreover have "str_length s = of_nat (length bs)" using length_contents [OF s(2)] s(3) by simp
  ultimately show ?thesis using s by blast
qed

text \<open>C18 Formatting never fails an assertion when the arguments fit the format: the length pass
  counts exactly the bytes that the write pass stores, the result is NUL-terminated, and its
  contents are the rendered bytes.\<close>

theorem ssh_format_correct:
  assumes "render nm junk format args = Some bs" "length bs < 4294967296"
  shows "\<exists>s ps. ssh_format nm junk format args = Some (s, ps) \<and> nul_terminated s \<and> contents s = bs
           \<and> ssh_format_length nm format args = Some (str_length s)"
  using ssh_format_total [OF assms] .

theorem ssh_format_correct_witness:
  "\<exists>s ps. ssh_format \<lparr>mpz_sizeinbase_256_u = \<lambda>_. 1, mpz_sizeinbase_256_s = \<lambda>_. 1, mpz_get_str_256 = \<lambda>_ n. [of_int n]\<rparr>
            (\<lambda>_. 9) ''%c%di%A%n%lr'' [Int_arg 1, Int_arg 255, List_arg [1, 0, 2], Mpz_arg 7, Int_arg 2, Pos_arg True] = Some (s, ps)
     \<and> contents s = [1, 50, 53, 53, 0, 0, 0, 9] @ cstring ''none,zlib'' @ [0, 0, 0, 1, 7, 9, 9]"
proof -
  let ?nm = "\<lparr>mpz_sizeinbase_256_u = \<lambda>_. 1, mpz_sizeinbase_256_s = \<lambda>_. 1, mpz_get_str_256 = \<lambda>_ n. [of_int n]\<rparr>"
  let ?args = "[Int_arg 1, Int_arg 255, List_arg [1, 0, 2], Mpz_arg 7, Int_arg 2, Pos_arg True]"
  let ?bs = "[1, 50, 53, 53, 0, 0, 0, 9] @ cstring ''none,zlib'' @ [0, 0, 0, 1, 7, 9, 9]"
  have "render ?nm (\<lambda>_. 9) ''%c%di%A%n%lr'' ?args = Some ?bs"
    by (simp add: render_def render_conv_def no_flags_def framed_def atom_names_def get_atom_name_def
        atom_table_def atoms_in_def known_atom_def NUMBER_OF_ATOMS_def mpz_size_def cstring_def)
      (simp add: WRITE_UINT32_def ndigits.simps upt_rec)
  moreover have "length ?bs < 4294967296" by simp
  ultimately show ?thesis using ssh_format_correct [of ?nm "\<lambda>_. 9" _ ?args ?bs] by blast
qed

text \<open>C35 The size computed for a decimal number is the least one, above zero, that holds it.\<close>

theorem format_size_in_decimal_least:
  "unat n < 10 ^ unat (format_size_in_decimal n)
   \<and> (\<forall>e. 0 < e \<and> unat n < 10 ^ e \<longrightarrow> unat (format_size_in_decimal n) \<le> e)"
proof -
  have "k < 10 ^ ndigits k" for k
  proof (induction k rule: ndigits.induct)
    case (1 n)
    then show ?case by (cases "n < 10") (auto simp: ndigits.simps [of n])
  qed
  moreover have "ndigits k \<le> e" if "0 < e" "k < 10 ^ e" for k e
    using ndigits_le [of k "e - 1"] that by simp
  ultimately show ?thesis by (simp add: unat_format_size_in_decimal)
qed

theorem format_size_in_decimal_least_witness:
  "unat (99999 :: u32) < 10 ^ 5 \<and> unat (format_size_in_decimal 99999) \<le> 5"
  using format_size_in_decimal_least [of 99999, THEN conjunct2, THEN spec [of _ 5]] by simp


section \<open>Messages without numbers and holes\<close>

text \<open>
  The packets of the higher layers use neither \<open>%n\<close> nor \<open>%r\<close>. What they contain then depends
  neither on the bignum library nor on uninitialised memory, and \<open>ssh_format_bytes\<close> is the
  contents of the string.
\<close>

fun plain_arg :: "format_arg \<Rightarrow> bool" where
  "plain_arg (Mpz_arg _) = False"
| "plain_arg (Pos_arg _) = False"
| "plain_arg _ = True"

definition no_bignum :: mpz_lib where
  "no_bignum = \<lparr>mpz_sizeinbase_256_u = \<lambda>_. 0, mpz_sizeinbase_256_s = \<lambda>_. 0, mpz_get_str_256 = \<lambda>_ _. []\<rparr>"

definition ssh_format_bytes :: "string \<Rightarrow> format_arg list \<Rightarrow> bytes option" where
  "ssh_format_bytes format args =
     map_option (\<lambda>(s, ps). contents s) (ssh_format no_bignum (\<lambda>_. 0) format args)"

lemma render_conv_plain:
  assumes "list_all plain_arg args"
  shows "render_conv nm hole fl c pos args = render_conv nm' hole' fl c pos' args"
  using assms unfolding render_conv_def by (auto split: list.splits format_arg.splits)

lemma render_conv_rest:
  "render_conv nm hole fl c pos args = Some (bs, args') \<Longrightarrow> set args' \<subseteq> set args"
  unfolding render_conv_def by (auto simp: render_string_def Let_def split: if_splits list.splits format_arg.splits)

lemma render_directives_plain:
  "list_all plain_arg args \<Longrightarrow>
   render_directives nm hole ds pos args = render_directives nm' hole' ds pos' args"
proof (induction ds arbitrary: pos pos' args)
  case (Cons d ds)
  show ?case
  proof (cases d)
    case (Copy c)
    then show ?thesis using Cons.IH [OF Cons.prems, of "Suc pos" "Suc pos'"] by simp
  next
    case (Convert fl c)
    have eq: "render_conv nm' hole' fl c pos' args = render_conv nm hole fl c pos args"
      by (rule render_conv_plain [OF Cons.prems])
    show ?thesis
    proof (cases "render_conv nm hole fl c pos args")
      case None
      then show ?thesis using Convert eq by simp
    next
      case (Some r)
      obtain bs args' where r: "r = (bs, args')" by force
      then have "list_all plain_arg args'"
        using render_conv_rest [of nm hole fl c pos args bs args'] Some Cons.prems by (auto simp: list_all_iff)
      then show ?thesis
        using Convert eq Some r Cons.IH [of args' "pos + length bs" "pos' + length bs"] by simp
    qed
  qed simp
qed simp

lemma ssh_format_bytes_eq:
  "render no_bignum (\<lambda>_. 0) format args = Some bs \<Longrightarrow> length bs < 4294967296 \<Longrightarrow>
   ssh_format_bytes format args = Some bs"
  using ssh_format_total [of no_bignum "\<lambda>_. 0" format args bs] by (auto simp: ssh_format_bytes_def)

lemma ssh_format_plain:
  assumes "list_all plain_arg args" "render no_bignum (\<lambda>_. 0) format args = Some bs" "length bs < 4294967296"
  shows "\<exists>s ps. ssh_format nm junk format args = Some (s, ps) \<and> nul_terminated s \<and> contents s = bs"
  using ssh_format_total [of nm junk format args bs] assms
    render_directives_plain [OF assms(1), of nm junk _ 0 no_bignum "\<lambda>_. 0" 0]
  by (auto simp: render_def)

lemmas render_simps = render_def render_conv_def render_string_def no_flags_def framed_def

end
