(* ===== verification/Ssh.thy ===== *)
theory Ssh
  imports Format_Render
begin

text \<open>
  \<open>src/ssh.h\<close>: the numbers of the protocol, and the two messages that \<open>src/format.c\<close> builds itself.
\<close>

abbreviation (input) SSH_MSG_DISCONNECT :: "'a :: numeral" where "SSH_MSG_DISCONNECT \<equiv> 1"
abbreviation (input) SSH_MSG_IGNORE :: "'a :: numeral" where "SSH_MSG_IGNORE \<equiv> 2"
abbreviation (input) SSH_MSG_UNIMPLEMENTED :: "'a :: numeral" where "SSH_MSG_UNIMPLEMENTED \<equiv> 3"
abbreviation (input) SSH_MSG_DEBUG :: "'a :: numeral" where "SSH_MSG_DEBUG \<equiv> 4"
abbreviation (input) SSH_MSG_SERVICE_REQUEST :: "'a :: numeral" where "SSH_MSG_SERVICE_REQUEST \<equiv> 5"
abbreviation (input) SSH_MSG_SERVICE_ACCEPT :: "'a :: numeral" where "SSH_MSG_SERVICE_ACCEPT \<equiv> 6"
abbreviation (input) SSH_FIRST_KEYEXCHANGE_GENERIC :: "'a :: numeral" where "SSH_FIRST_KEYEXCHANGE_GENERIC \<equiv> 20"
abbreviation (input) SSH_MSG_KEXINIT :: "'a :: numeral" where "SSH_MSG_KEXINIT \<equiv> 20"
abbreviation (input) SSH_MSG_NEWKEYS :: "'a :: numeral" where "SSH_MSG_NEWKEYS \<equiv> 21"
abbreviation (input) SSH_FIRST_KEYEXCHANGE_SPECIFIC :: "'a :: numeral" where "SSH_FIRST_KEYEXCHANGE_SPECIFIC \<equiv> 30"
abbreviation (input) SSH_FIRST_USERAUTH_GENERIC :: "'a :: numeral" where "SSH_FIRST_USERAUTH_GENERIC \<equiv> 50"
abbreviation (input) SSH_MSG_GLOBAL_REQUEST :: "'a :: numeral" where "SSH_MSG_GLOBAL_REQUEST \<equiv> 80"
abbreviation (input) SSH_MSG_REQUEST_SUCCESS :: "'a :: numeral" where "SSH_MSG_REQUEST_SUCCESS \<equiv> 81"
abbreviation (input) SSH_MSG_REQUEST_FAILURE :: "'a :: numeral" where "SSH_MSG_REQUEST_FAILURE \<equiv> 82"
abbreviation (input) SSH_MSG_CHANNEL_OPEN :: "'a :: numeral" where "SSH_MSG_CHANNEL_OPEN \<equiv> 90"
abbreviation (input) SSH_MSG_CHANNEL_OPEN_CONFIRMATION :: "'a :: numeral" where
  "SSH_MSG_CHANNEL_OPEN_CONFIRMATION \<equiv> 91"
abbreviation (input) SSH_MSG_CHANNEL_OPEN_FAILURE :: "'a :: numeral" where "SSH_MSG_CHANNEL_OPEN_FAILURE \<equiv> 92"
abbreviation (input) SSH_MSG_CHANNEL_WINDOW_ADJUST :: "'a :: numeral" where "SSH_MSG_CHANNEL_WINDOW_ADJUST \<equiv> 93"
abbreviation (input) SSH_MSG_CHANNEL_DATA :: "'a :: numeral" where "SSH_MSG_CHANNEL_DATA \<equiv> 94"
abbreviation (input) SSH_MSG_CHANNEL_EXTENDED_DATA :: "'a :: numeral" where "SSH_MSG_CHANNEL_EXTENDED_DATA \<equiv> 95"
abbreviation (input) SSH_MSG_CHANNEL_EOF :: "'a :: numeral" where "SSH_MSG_CHANNEL_EOF \<equiv> 96"
abbreviation (input) SSH_MSG_CHANNEL_CLOSE :: "'a :: numeral" where "SSH_MSG_CHANNEL_CLOSE \<equiv> 97"
abbreviation (input) SSH_MSG_CHANNEL_REQUEST :: "'a :: numeral" where "SSH_MSG_CHANNEL_REQUEST \<equiv> 98"
abbreviation (input) SSH_MSG_CHANNEL_SUCCESS :: "'a :: numeral" where "SSH_MSG_CHANNEL_SUCCESS \<equiv> 99"
abbreviation (input) SSH_MSG_CHANNEL_FAILURE :: "'a :: numeral" where "SSH_MSG_CHANNEL_FAILURE \<equiv> 100"

abbreviation (input) SSH_DISCONNECT_PROTOCOL_ERROR :: "'a :: numeral" where "SSH_DISCONNECT_PROTOCOL_ERROR \<equiv> 2"
abbreviation (input) SSH_DISCONNECT_KEY_EXCHANGE_FAILED :: "'a :: numeral" where
  "SSH_DISCONNECT_KEY_EXCHANGE_FAILED \<equiv> 3"
abbreviation (input) SSH_DISCONNECT_MAC_ERROR :: "'a :: numeral" where "SSH_DISCONNECT_MAC_ERROR \<equiv> 5"
abbreviation (input) SSH_DISCONNECT_COMPRESSION_ERROR :: "'a :: numeral" where
  "SSH_DISCONNECT_COMPRESSION_ERROR \<equiv> 6"
abbreviation (input) SSH_OPEN_ADMINISTRATIVELY_PROHIBITED :: "'a :: numeral" where
  "SSH_OPEN_ADMINISTRATIVELY_PROHIBITED \<equiv> 1"
abbreviation (input) SSH_OPEN_UNKNOWN_CHANNEL_TYPE :: "'a :: numeral" where "SSH_OPEN_UNKNOWN_CHANNEL_TYPE \<equiv> 3"
abbreviation (input) SSH_OPEN_RESOURCE_SHORTAGE :: "'a :: numeral" where "SSH_OPEN_RESOURCE_SHORTAGE \<equiv> 4"
abbreviation (input) SSH_EXTENDED_DATA_STDERR :: "'a :: numeral" where "SSH_EXTENDED_DATA_STDERR \<equiv> 1"
abbreviation (input) SSH_MAX_LINE :: "'a :: numeral" where "SSH_MAX_LINE \<equiv> 255"
abbreviation (input) SSH_MAX_PACKET :: "'a :: numeral" where "SSH_MAX_PACKET \<equiv> 0x8000"
abbreviation (input) SSH_MAX_PACKET_FUZZ :: "'a :: {numeral, minus}" where "SSH_MAX_PACKET_FUZZ \<equiv> 35000 - SSH_MAX_PACKET"
abbreviation (input) SSH_CHANNEL_MAX_PACKET_FUZZ :: "'a :: numeral" where "SSH_CHANNEL_MAX_PACKET_FUZZ \<equiv> 100"
abbreviation (input) SSH_MAX_TRANSPORT_RESPONSE :: "'a :: numeral" where "SSH_MAX_TRANSPORT_RESPONSE \<equiv> 20000"
abbreviation (input) SSH_MAX_BLOCK_SIZE :: "'a :: numeral" where "SSH_MAX_BLOCK_SIZE \<equiv> 16"
abbreviation (input) SSH_MAX_MAC_SIZE :: "'a :: numeral" where "SSH_MAX_MAC_SIZE \<equiv> 20"

definition format_disconnect :: "u32 \<Rightarrow> bytes \<Rightarrow> bytes \<Rightarrow> bytes option" where
  "format_disconnect code msg language =
     ssh_format_bytes ''%c%i%z%z'' [Int_arg SSH_MSG_DISCONNECT, Int_arg code, Cstring_arg msg, Cstring_arg language]"

definition format_unimplemented :: "u32 \<Rightarrow> bytes option" where
  "format_unimplemented seqno = ssh_format_bytes ''%c%i'' [Int_arg SSH_MSG_UNIMPLEMENTED, Int_arg seqno]"

lemma format_unimplemented_eq: "format_unimplemented seqno = Some (3 # WRITE_UINT32 seqno)"
  unfolding format_unimplemented_def by (rule ssh_format_bytes_eq) (simp_all add: render_simps)

lemma format_disconnect_eq:
  assumes "length msg + length language < 4294967280"
  shows "format_disconnect code msg language =
    Some (1 # WRITE_UINT32 code @ WRITE_UINT32 (of_nat (length msg)) @ msg
            @ WRITE_UINT32 (of_nat (length language)) @ language)"
  unfolding format_disconnect_def using assms by (intro ssh_format_bytes_eq) (simp_all add: render_simps)

end
