(* ===== verification/Parse.thy ===== *)
theory Parse
  imports Ssh
begin

text \<open>
  \<open>src/parse.c\<close>: reading messages. A \<open>simple_buffer\<close> is a cursor over a byte array. Every parser
  returns what it stores through its result pointers, \<open>None\<close> when it reports failure, together
  with the buffer, which a failing parser may have advanced. A pointer into the data is the list
  of bytes it gives access to. Subtraction \<open>LEFT\<close> and \<open>ADVANCE\<close> are those of 32-bit numbers.
\<close>

section \<open>The cursor\<close>

record simple_buffer =
  sb_capacity :: u32
  sb_pos :: u32
  sb_data :: bytes

type_synonym 'a parser = "simple_buffer \<Rightarrow> 'a option \<times> simple_buffer"

definition simple_buffer_init :: "u32 \<Rightarrow> bytes \<Rightarrow> simple_buffer" where
  "simple_buffer_init cap bs = \<lparr>sb_capacity = cap, sb_pos = 0, sb_data = bs\<rparr>"

definition LEFT :: "simple_buffer \<Rightarrow> u32" where
  "LEFT b = sb_capacity b - sb_pos b"

definition HERE :: "simple_buffer \<Rightarrow> bytes" where
  "HERE b = drop (unat (sb_pos b)) (sb_data b)"

definition ADVANCE :: "u32 \<Rightarrow> simple_buffer \<Rightarrow> simple_buffer" where
  "ADVANCE n b = b\<lparr>sb_pos := sb_pos b + n\<rparr>"

text \<open>\<open>p && q\<close>: the second parser runs, from where the first one stopped, if that succeeded.\<close>

definition pand :: "'a parser \<Rightarrow> ('a \<Rightarrow> 'b parser) \<Rightarrow> 'b parser" where
  "pand p f b = (case p b of (None, b') \<Rightarrow> (None, b') | (Some x, b') \<Rightarrow> f x b')"

definition preturn :: "'a \<Rightarrow> 'a parser" where
  "preturn x b = (Some x, b)"

definition pfail :: "'a parser" where
  "pfail b = (None, b)"

section \<open>Parsers of fields\<close>

definition parse_uint32 :: "u32 parser" where
  "parse_uint32 b =
     (if LEFT b < 4 then (None, b) else (Some (READ_UINT32 (HERE b)), ADVANCE 4 b))"

definition parse_string :: "(u32 \<times> bytes) parser" where
  "parse_string =
     pand parse_uint32 (\<lambda>l b.
       if LEFT b < l then (None, b) else (Some (l, HERE b), ADVANCE l b))"

definition parse_octets :: "u32 \<Rightarrow> bytes parser" where
  "parse_octets l b =
     (if LEFT b < l then (None, b) else (Some (take (unat l) (HERE b)), ADVANCE l b))"

definition parse_string_copy :: "bytes option parser" where
  "parse_string_copy =
     pand parse_string (\<lambda>(l, start). preturn (ssh_format_bytes ''%ls'' [Int_arg l, Data_arg start]))"

definition parse_sub_buffer :: "simple_buffer parser" where
  "parse_sub_buffer = pand parse_string (\<lambda>(l, start). preturn (simple_buffer_init l start))"

definition parse_uint8 :: "u32 parser" where
  "parse_uint8 b = (if LEFT b = 0 then (None, b) else (Some (ucast (HERE b ! 0)), ADVANCE 1 b))"

definition parse_boolean :: "u32 parser" where
  "parse_boolean b = (if LEFT b = 0 then (None, b) else (Some (ucast (HERE b ! 0)), ADVANCE 1 b))"

definition parse_uint16 :: "u32 parser" where
  "parse_uint16 b =
     (if LEFT b < 2 then (None, b) else (Some (READ_UINT16 (HERE b)), ADVANCE 2 b))"

definition parse_string16 :: "(u32 \<times> bytes) parser" where
  "parse_string16 =
     pand parse_uint16 (\<lambda>l b.
       if LEFT b < l then (None, b) else (Some (l, HERE b), ADVANCE l b))"

text \<open>\<open>set_str\<close> is \<open>nettle_mpz_set_str_256_s\<close>.\<close>

definition parse_bignum :: "(bytes \<Rightarrow> int) \<Rightarrow> u32 \<Rightarrow> int parser" where
  "parse_bignum set_str limit =
     pand parse_string (\<lambda>(l, digits).
       if limit \<noteq> 0 \<and> l > limit + 1 then pfail else preturn (set_str (take (unat l) digits)))"

definition parse_rest :: "simple_buffer \<Rightarrow> (u32 \<times> bytes) \<times> simple_buffer" where
  "parse_rest b = ((LEFT b, HERE b), ADVANCE (LEFT b) b)"

definition parse_rest_copy :: "simple_buffer \<Rightarrow> (bytes \<times> simple_buffer) option" where
  "parse_rest_copy b =
     do { let l = LEFT b;
          s \<leftarrow> ssh_format_bytes ''%ls'' [Int_arg l, Data_arg (HERE b)];
          let b = ADVANCE l b;
          c_assert (LEFT b = 0);
          Some (s, b) }"

definition parse_eod :: "simple_buffer \<Rightarrow> bool" where
  "parse_eod b \<longleftrightarrow> LEFT b = 0"

section \<open>Atoms\<close>

definition parse_atom :: "gperf_atom \<Rightarrow> nat parser" where
  "parse_atom gperf =
     pand parse_string (\<lambda>(l, start).
       if l > 64 then pfail else preturn (lookup_atom gperf l start))"

text \<open>The loop of \<open>parse_next_atom\<close> over the bytes that are left: the index of the comma or of the
  end, or \<open>None\<close> when an atom is too long.\<close>

fun atom_end :: "nat \<Rightarrow> bytes \<Rightarrow> nat option" where
  "atom_end i [] = Some i"
| "atom_end i (c # cs) =
     (if c = 44 then Some i else if i = 64 then None else atom_end (i + 1) cs)"

text \<open>The outer option is the assertion on the position.\<close>

definition parse_next_atom :: "gperf_atom \<Rightarrow> simple_buffer \<Rightarrow> (nat option \<times> simple_buffer) option" where
  "parse_next_atom gperf b =
     do { c_assert (sb_pos b \<le> sb_capacity b);
          Some (case atom_end 0 (take (unat (LEFT b)) (HERE b)) of
                  None \<Rightarrow> (None, b)
                | Some i \<Rightarrow>
                    (Some (if i = 0 then 0 else lookup_atom gperf (of_nat i) (HERE b)),
                     ADVANCE (of_nat i + 1) b)) }"

text \<open>Counting the commas, as far as \<open>limit\<close> permits.\<close>

fun count_atoms :: "nat \<Rightarrow> nat \<Rightarrow> bytes \<Rightarrow> nat option" where
  "count_atoms limit count [] = Some count"
| "count_atoms limit count (c # cs) =
     (if c = 44 then if count \<ge> limit then None else count_atoms limit (count + 1) cs
      else count_atoms limit count cs)"

primrec parse_atoms_loop :: "gperf_atom \<Rightarrow> nat \<Rightarrow> simple_buffer \<Rightarrow> (nat list option \<times> simple_buffer) option" where
  "parse_atoms_loop gperf 0 b = Some (Some [], b)"
| "parse_atoms_loop gperf (Suc n) b =
     do { (r, b) \<leftarrow> parse_next_atom gperf b;
          (case r of
             None \<Rightarrow> Some (None, b)
           | Some a \<Rightarrow> do { (rs, b) \<leftarrow> parse_atoms_loop gperf n b;
                            Some (map_option ((#) a) rs, b) }) }"

definition parse_atoms :: "gperf_atom \<Rightarrow> nat \<Rightarrow> simple_buffer \<Rightarrow> (nat list option \<times> simple_buffer) option" where
  "parse_atoms gperf limit b =
     do { c_assert (limit \<noteq> 0);
          if LEFT b = 0 then Some (Some [], b)
          else (case count_atoms limit 1 (slice (unat (sb_pos b)) (unat (sb_capacity b) - unat (sb_pos b)) (sb_data b)) of
                  None \<Rightarrow> Some (None, b)
                | Some n \<Rightarrow> parse_atoms_loop gperf n b) }"

definition parse_atom_list :: "gperf_atom \<Rightarrow> nat \<Rightarrow> simple_buffer \<Rightarrow> (nat list option \<times> simple_buffer) option" where
  "parse_atom_list gperf limit b =
     (case parse_sub_buffer b of
        (None, b) \<Rightarrow> Some (None, b)
      | (Some sub, b) \<Rightarrow> do { (r, _) \<leftarrow> parse_atoms gperf limit sub; Some (r, b) })"

section \<open>What is left in a buffer\<close>

definition buffer_ok :: "simple_buffer \<Rightarrow> bool" where
  "buffer_ok b \<longleftrightarrow> unat (sb_pos b) \<le> unat (sb_capacity b) \<and> unat (sb_capacity b) \<le> length (sb_data b)"

definition remaining :: "simple_buffer \<Rightarrow> bytes" where
  "remaining b = take (unat (LEFT b)) (HERE b)"

lemma LEFT_length: "buffer_ok b \<Longrightarrow> unat (LEFT b) = length (remaining b)"
  by (auto simp: buffer_ok_def remaining_def LEFT_def HERE_def unat_u32_diff)

lemma buffer_ok_ADVANCE: "buffer_ok b \<Longrightarrow> unat n \<le> length (remaining b) \<Longrightarrow> buffer_ok (ADVANCE n b)"
  by (auto simp: buffer_ok_def ADVANCE_def LEFT_def remaining_def HERE_def unat_u32_diff unat_u32_mod)

lemma remaining_ADVANCE:
  assumes "buffer_ok b" "unat n \<le> length (remaining b)"
  shows "remaining (ADVANCE n b) = drop (unat n) (remaining b)"
proof -
  have u: "unat (sb_pos b + n) = unat (sb_pos b) + unat n"
    using assms unat_u32_bound [of "sb_capacity b"]
    by (auto simp: buffer_ok_def LEFT_def remaining_def HERE_def unat_u32_diff unat_u32_mod simp del: unat_u32_bound)
  moreover have "unat (sb_pos b) + unat n \<le> unat (sb_capacity b)"
    using assms by (auto simp: buffer_ok_def LEFT_def remaining_def HERE_def unat_u32_diff)
  ultimately show ?thesis
    using assms(1) by (simp add: remaining_def ADVANCE_def LEFT_def HERE_def buffer_ok_def unat_u32_diff drop_take add.commute)
qed

lemma HERE_remaining: "buffer_ok b \<Longrightarrow> n \<le> length (remaining b) \<Longrightarrow> take n (HERE b) = take n (remaining b)"
  by (auto simp: remaining_def min_def split: if_splits)

lemma HERE_nth: "buffer_ok b \<Longrightarrow> i < length (remaining b) \<Longrightarrow> HERE b ! i = remaining b ! i"
  by (simp add: remaining_def)

lemma length_HERE: "buffer_ok b \<Longrightarrow> length (remaining b) \<le> length (HERE b)"
  by (simp add: remaining_def)

lemma buffer_init: "length bs < 4294967296 \<Longrightarrow> buffer_ok (simple_buffer_init (of_nat (length bs)) bs)"
    "length bs < 4294967296 \<Longrightarrow> remaining (simple_buffer_init (of_nat (length bs)) bs) = bs"
  by (simp_all add: buffer_ok_def simple_buffer_init_def remaining_def LEFT_def HERE_def unat_u32_of_nat)

lemma LEFT_less: "buffer_ok b \<Longrightarrow> LEFT b < n \<longleftrightarrow> length (remaining b) < unat n"
  by (simp add: u32_less LEFT_length)

lemma LEFT_zero: "buffer_ok b \<Longrightarrow> LEFT b = 0 \<longleftrightarrow> remaining b = []"
  by (simp add: LEFT_length flip: unat_eq_0)

lemmas buffer_steps = buffer_ok_ADVANCE remaining_ADVANCE LEFT_less LEFT_zero HERE_nth HERE_remaining

text \<open>A parser stays inside the buffer, whether it succeeds or fails.\<close>

definition stays_inside :: "'a parser \<Rightarrow> bool" where
  "stays_inside p \<longleftrightarrow> (\<forall>b. buffer_ok b \<longrightarrow>
     buffer_ok (snd (p b)) \<and> (\<exists>n. remaining (snd (p b)) = drop n (remaining b)))"

text \<open>\<open>eats p bs P\<close>: in front of the bytes \<open>bs\<close> the parser succeeds, with a result in \<open>P\<close>, and
  stops behind them.\<close>

definition eats :: "'a parser \<Rightarrow> bytes \<Rightarrow> ('a \<Rightarrow> bool) \<Rightarrow> bool" where
  "eats p bs P \<longleftrightarrow> (\<forall>b rest. buffer_ok b \<longrightarrow> remaining b = bs @ rest \<longrightarrow>
     (\<exists>x b'. p b = (Some x, b') \<and> P x \<and> buffer_ok b' \<and> remaining b' = rest))"

lemma eatsI:
  "(\<And>b rest. buffer_ok b \<Longrightarrow> remaining b = bs @ rest \<Longrightarrow>
     \<exists>x b'. p b = (Some x, b') \<and> P x \<and> buffer_ok b' \<and> remaining b' = rest) \<Longrightarrow> eats p bs P"
  by (auto simp: eats_def)

lemma eats_pand:
  "eats p bs P \<Longrightarrow> (\<And>x. P x \<Longrightarrow> eats (f x) cs Q) \<Longrightarrow> eats (pand p f) (bs @ cs) Q"
  unfolding eats_def pand_def by (fastforce simp: append_assoc)

lemma eats_preturn: "P x \<Longrightarrow> eats (preturn x) [] P"
  by (auto simp: eats_def preturn_def)

lemma eats_weaken: "eats p bs P \<Longrightarrow> (\<And>x. P x \<Longrightarrow> Q x) \<Longrightarrow> eats p bs Q"
  unfolding eats_def by blast

lemma eats_uint32: "eats parse_uint32 (WRITE_UINT32 n) (\<lambda>x. x = n)"
proof (rule eatsI)
  fix b rest assume b: "buffer_ok b" "remaining b = WRITE_UINT32 n @ rest"
  have "READ_UINT32 (HERE b) = n"
  proof -
    have "take 4 (HERE b) = WRITE_UINT32 n" using b HERE_remaining [OF b(1), of 4] by simp
    then show ?thesis by (metis READ_UINT32_append READ_WRITE_UINT32 append_take_drop_id)
  qed
  then show "\<exists>x b'. parse_uint32 b = (Some x, b') \<and> x = n \<and> buffer_ok b' \<and> remaining b' = rest"
    using b by (auto simp: parse_uint32_def buffer_steps)
qed

lemma eats_uint8: "eats parse_uint8 [c] (\<lambda>x. x = ucast c)"
  by (rule eatsI) (auto simp: parse_uint8_def buffer_steps)

lemma eats_boolean: "eats parse_boolean [c] (\<lambda>x. x = ucast c)"
  by (rule eatsI) (auto simp: parse_boolean_def buffer_steps)

lemma eats_octets: "length bs = unat l \<Longrightarrow> eats (parse_octets l) bs (\<lambda>x. x = bs)"
  by (rule eatsI) (auto simp: parse_octets_def buffer_steps)

lemma eats_string:
  assumes "length bs < 4294967296"
  shows "eats parse_string (WRITE_UINT32 (of_nat (length bs)) @ bs)
    (\<lambda>(l, start). unat l = length bs \<and> take (unat l) start = bs)"
  unfolding parse_string_def
proof (rule eats_pand [OF eats_uint32])
  fix l :: u32 assume "l = of_nat (length bs)"
  then have l: "unat l = length bs" using assms by (simp add: unat_u32_of_nat)
  show "eats (\<lambda>b. if LEFT b < l then (None, b) else (Some (l, HERE b), ADVANCE l b)) bs
      (\<lambda>(l, start). unat l = length bs \<and> take (unat l) start = bs)"
    using l by (intro eatsI) (auto simp: buffer_steps)
qed


section \<open>Atom lists\<close>

text \<open>The pieces between the commas of a list, and what each piece is looked up as.\<close>

primrec split_comma :: "bytes \<Rightarrow> bytes list" where
  "split_comma [] = [[]]"
| "split_comma (c # cs) =
     (if c = 44 then [] # split_comma cs
      else (c # hd (split_comma cs)) # tl (split_comma cs))"

definition look_up :: "gperf_atom \<Rightarrow> bytes \<Rightarrow> nat" where
  "look_up gperf p = (if p = [] then 0 else lookup_atom gperf (of_nat (length p)) p)"

lemma split_comma_not_Nil [simp]: "split_comma bs \<noteq> []"
  by (cases bs) auto

lemma split_comma_no_comma: "44 \<notin> set bs \<Longrightarrow> split_comma bs = [bs]"
  by (induction bs) auto

lemma split_comma_append: "44 \<notin> set p \<Longrightarrow> split_comma (p @ 44 # cs) = p # split_comma cs"
  by (induction p) auto

lemma split_comma_cases:
  obtains "split_comma bs = [bs]" "44 \<notin> set bs"
    | p cs where "bs = p @ 44 # cs" "44 \<notin> set p" "split_comma bs = p # split_comma cs"
proof (cases "44 \<in> set bs")
  case True
  then obtain p cs where "bs = p @ 44 # cs" "44 \<notin> set p" by (meson split_list_first)
  then show ?thesis using that(2) split_comma_append by blast
next
  case False
  then show ?thesis using that(1) split_comma_no_comma by blast
qed

lemma count_atoms_eq:
  "n \<le> limit \<Longrightarrow> count_atoms limit n bs =
     (if n + length (split_comma bs) - 1 \<le> limit then Some (n + length (split_comma bs) - 1) else None)"
proof (induction bs arbitrary: n)
  case (Cons c cs)
  have "0 < length (split_comma cs)" by simp
  then show ?case using Cons.prems Cons.IH [of n] Cons.IH [of "n + 1"]
    by (auto simp del: length_greater_0_conv split_comma_not_Nil)
qed simp

lemma atom_end_append: "44 \<notin> set p \<Longrightarrow> i \<le> 64 \<Longrightarrow>
  atom_end i (p @ 44 # cs) = (if i + length p \<le> 64 then Some (i + length p) else None)"
  by (induction p arbitrary: i) auto

lemma atom_end_all: "44 \<notin> set p \<Longrightarrow> i \<le> 64 \<Longrightarrow>
  atom_end i p = (if i + length p \<le> 64 then Some (i + length p) else None)"
  by (induction p arbitrary: i) auto

lemma look_up_HERE:
  assumes "buffer_ok b" "take (length p) (remaining b) = p" "length p \<le> 64"
  shows "(if length p = 0 then 0 else lookup_atom gperf (of_nat (length p)) (HERE b)) = look_up gperf p"
proof -
  have "length p \<le> length (remaining b)" using assms(2) by (metis nat_le_linear take_all)
  then have "take (length p) (HERE b) = p" using HERE_remaining [OF assms(1)] assms(2) by simp
  then show ?thesis using assms(3) by (simp add: look_up_def lookup_atom_def unat_u32_of_nat)
qed

lemma parse_next_atom_eq:
  assumes b: "buffer_ok b" and p: "atom_end 0 (remaining b) = (if length p \<le> 64 then Some (length p) else None)"
    and "take (length p) (remaining b) = p"
  shows "parse_next_atom gperf b =
    Some (if length p \<le> 64 then (Some (look_up gperf p), ADVANCE (of_nat (length p) + 1) b) else (None, b))"
  using assms look_up_HERE [OF b assms(3), of gperf]
  by (auto simp: parse_next_atom_def buffer_ok_def u32_le c_assert_bind simp flip: remaining_def)

lemma parse_atoms_loop_eq:
  "buffer_ok b \<Longrightarrow> \<exists>b'. parse_atoms_loop gperf (length (split_comma (remaining b))) b =
     Some (if \<forall>p \<in> set (split_comma (remaining b)). length p \<le> 64
           then Some (map (look_up gperf) (split_comma (remaining b))) else None, b')"
proof (induction "length (remaining b)" arbitrary: b rule: less_induct)
  case less
  show ?case
  proof (cases "remaining b" rule: split_comma_cases)
    case 1
    then have "parse_next_atom gperf b = Some (if length (remaining b) \<le> 64
        then (Some (look_up gperf (remaining b)), ADVANCE (of_nat (length (remaining b)) + 1) b) else (None, b))"
      using less.prems atom_end_all [of "remaining b" 0] by (intro parse_next_atom_eq) auto
    then show ?thesis using 1 by auto
  next
    case (2 p cs)
    have next_atom: "parse_next_atom gperf b = Some (if length p \<le> 64
        then (Some (look_up gperf p), ADVANCE (of_nat (length p) + 1) b) else (None, b))"
      using less.prems 2 atom_end_append [of p 0 cs] by (intro parse_next_atom_eq) auto
    let ?b = "ADVANCE (of_nat (length p) + 1) b"
    show ?thesis
    proof (cases "length p \<le> 64")
      case True
      then have n: "unat (of_nat (length p) + 1 :: u32) = length p + 1"
        by (simp add: unat_word_ariths unat_of_nat)
      have r: "remaining ?b = cs" "buffer_ok ?b"
        using less.prems 2 n by (simp_all add: buffer_steps)
      then show ?thesis
        using less.hyps [OF _ r(2)] next_atom True 2 by (auto split: if_splits)
    next
      case False
      then show ?thesis using next_atom 2 by auto
    qed
  qed
qed


lemma count_atoms_remaining:
  "buffer_ok b \<Longrightarrow> slice (unat (sb_pos b)) (unat (sb_capacity b) - unat (sb_pos b)) (sb_data b) = remaining b"
  by (simp add: buffer_ok_def remaining_def slice_def LEFT_def HERE_def unat_u32_diff)

lemma parse_atoms_pieces:
  assumes "buffer_ok b" "limit \<noteq> 0"
  shows "\<exists>b'. parse_atoms gperf limit b =
    Some (if remaining b = [] then Some []
          else if length (split_comma (remaining b)) \<le> limit \<and> (\<forall>p \<in> set (split_comma (remaining b)). length p \<le> 64)
          then Some (map (look_up gperf) (split_comma (remaining b))) else None, b')"
proof (cases "remaining b = []")
  case True
  then show ?thesis using assms by (simp add: parse_atoms_def LEFT_zero)
next
  case False
  have "count_atoms limit 1 (remaining b) =
      (if length (split_comma (remaining b)) \<le> limit then Some (length (split_comma (remaining b))) else None)"
    using assms(2) count_atoms_eq [of 1 limit "remaining b"] by simp
  then show ?thesis
    using False assms parse_atoms_loop_eq [OF assms(1), of gperf]
    by (auto simp: parse_atoms_def LEFT_zero count_atoms_remaining)
qed

lemma split_join_comma:
  "ps \<noteq> [] \<Longrightarrow> (\<And>p. p \<in> set ps \<Longrightarrow> 44 \<notin> set p) \<Longrightarrow> split_comma (join_comma ps) = ps"
proof (induction ps rule: join_comma.induct)
  case (3 x y ys)
  then show ?case using split_comma_append [of x "join_comma (y # ys)"] by simp
qed (simp_all add: split_comma_no_comma)

text \<open>Atom lists on the wire: a formatted list without unknown atoms is read back as it was.\<close>

lemma look_up_names:
  assumes "gperf_spec gperf" "list_all known_atom as"
  shows "map (look_up gperf) (atom_names as) = as"
proof -
  have nz: "filter (\<lambda>a. a \<noteq> 0) as = as"
    using assms(2) by (auto simp: filter_id_conv list_all_iff known_atom_def)
  have "map (look_up gperf \<circ> get_atom_name) as = map id as"
  proof (rule map_cong [OF refl])
    fix a assume "a \<in> set as"
    then have a: "known_atom a" using assms(2) by (simp add: list_all_iff)
    have "get_atom_name a \<noteq> []" using atom_name_ok(1) [OF a] by auto
    then show "(look_up gperf \<circ> get_atom_name) a = id a"
      using atoms.look_name [OF a] by (simp add: look_up_def gperf_spec_eq [OF assms(1)])
  qed
  then show ?thesis by (simp only: atom_names_def nz map_map list.map_id)
qed

lemma atom_names_shape:
  assumes "list_all known_atom as" "p \<in> set (atom_names as)"
  shows "p \<noteq> []" "length p \<le> 64" "44 \<notin> set p"
  using assms atoms.name_shape by (auto simp: atom_names_def list_all_iff)

lemma join_comma_Nil: "(\<And>p. p \<in> set ps \<Longrightarrow> p \<noteq> []) \<Longrightarrow> join_comma ps = [] \<longleftrightarrow> ps = []"
  by (cases ps rule: join_comma.cases) auto

lemma parse_atoms_names:
  assumes "gperf_spec gperf" "list_all known_atom as" "length as \<le> limit" "limit \<noteq> 0"
    and "buffer_ok b" "remaining b = join_comma (atom_names as)"
  shows "\<exists>b'. parse_atoms gperf limit b = Some (Some as, b')"
proof (cases "as = []")
  case True
  then show ?thesis using parse_atoms_pieces [OF assms(5,4), of gperf] assms(6) by (simp add: atom_names_def)
next
  case False
  have len: "length (atom_names as) = length as"
    using assms(2) by (auto simp: atom_names_def list_all_iff known_atom_def filter_id_conv)
  then have ne: "atom_names as \<noteq> []" using False by auto
  have "split_comma (remaining b) = atom_names as"
    using assms(6) ne atom_names_shape(3) [OF assms(2)] by (simp add: split_join_comma)
  moreover have "remaining b \<noteq> []"
    using assms(6) ne join_comma_Nil [of "atom_names as"] atom_names_shape(1) [OF assms(2)] by auto
  ultimately show ?thesis
    using parse_atoms_pieces [OF assms(5,4), of gperf] len assms(3) atom_names_shape(2) [OF assms(2)]
      look_up_names [OF assms(1,2)] by auto
qed


section \<open>Fields that are read back as they were written\<close>

text \<open>\<open>repeat_parser\<close>: the loop that reads \<open>n\<close> fields and stops at the first failure.\<close>

primrec repeat_parser ::
  "(simple_buffer \<Rightarrow> ('a option \<times> simple_buffer) option) \<Rightarrow> nat \<Rightarrow> simple_buffer \<Rightarrow> ('a list option \<times> simple_buffer) option" where
  "repeat_parser get 0 b = Some (Some [], b)"
| "repeat_parser get (Suc n) b =
     do { (r, b) \<leftarrow> get b;
          (case r of
             None \<Rightarrow> Some (None, b)
           | Some x \<Rightarrow> do { (xs, b) \<leftarrow> repeat_parser get n b; Some (map_option ((#) x) xs, b) }) }"

locale wire_field =
  fixes put :: "'a \<Rightarrow> bytes"
    and get :: "simple_buffer \<Rightarrow> ('a option \<times> simple_buffer) option"
    and ok :: "'a \<Rightarrow> bool"
  assumes get_put: "ok x \<Longrightarrow> buffer_ok b \<Longrightarrow> remaining b = put x @ rest \<Longrightarrow>
    \<exists>b'. get b = Some (Some x, b') \<and> buffer_ok b' \<and> remaining b' = rest"
begin

lemma repeat_put:
  "list_all ok xs \<Longrightarrow> buffer_ok b \<Longrightarrow> remaining b = concat (map put xs) @ rest \<Longrightarrow>
   \<exists>b'. repeat_parser get (length xs) b = Some (Some xs, b') \<and> buffer_ok b' \<and> remaining b' = rest"
proof (induction xs arbitrary: b)
  case (Cons x xs)
  then obtain b' where "get b = Some (Some x, b')" "buffer_ok b'" "remaining b' = concat (map put xs) @ rest"
    using get_put [of x b "concat (map put xs) @ rest"] by auto
  then show ?case using Cons.IH [of b'] Cons.prems by auto
qed simp

lemma put_inject:
  assumes "ok x" "ok y" "put x = put y" "length (put x) < 4294967296"
  shows "x = y"
proof -
  let ?b = "simple_buffer_init (of_nat (length (put x))) (put x)"
  have "buffer_ok ?b" "remaining ?b = put x @ []" using assms(4) by (simp_all add: buffer_init)
  then show ?thesis using get_put [of x ?b "[]"] get_put [of y ?b "[]"] assms(1-3) by fastforce
qed

end

lemma eats_wire_field:
  "(\<And>x. ok x \<Longrightarrow> eats p (put x) (\<lambda>y. y = x)) \<Longrightarrow> wire_field put (\<lambda>b. Some (p b)) ok"
  by unfold_locales (fastforce simp: eats_def)

interpretation uint32_field: wire_field WRITE_UINT32 "\<lambda>b. Some (parse_uint32 b)" "\<lambda>_. True"
  by (rule eats_wire_field [OF eats_uint32])

definition put_string :: "bytes \<Rightarrow> bytes" where
  "put_string bs = WRITE_UINT32 (of_nat (length bs)) @ bs"

definition parse_bytes :: "bytes parser" where
  "parse_bytes = pand parse_string (\<lambda>(l, start). preturn (take (unat l) start))"

lemma eats_string_then:
  assumes "length bs < 4294967296"
    and "\<And>l start. unat l = length bs \<Longrightarrow> take (length bs) start = bs \<Longrightarrow> length bs \<le> length start \<Longrightarrow> P (f l start)"
  shows "eats (pand parse_string (\<lambda>(l, start). preturn (f l start))) (put_string bs) P"
proof -
  have "eats (pand parse_string (\<lambda>(l, start). preturn (f l start))) (put_string bs @ []) P"
    unfolding put_string_def
  proof (rule eats_pand [OF eats_string [OF assms(1)]])
    fix x :: "u32 \<times> bytes" assume x: "case x of (l, start) \<Rightarrow> unat l = length bs \<and> take (unat l) start = bs"
    obtain l start where [simp]: "x = (l, start)" by force
    have l: "unat l = length bs" "take (length bs) start = bs" using x by auto
    then have "min (length start) (length bs) = length bs" by (metis length_take)
    then have "P (f l start)" using l assms(2) by simp
    then show "eats (case x of (l, start) \<Rightarrow> preturn (f l start)) [] P" by (simp add: eats_preturn)
  qed
  then show ?thesis by simp
qed

lemma eats_bytes: "length bs < 4294967296 \<Longrightarrow> eats parse_bytes (put_string bs) (\<lambda>x. x = bs)"
  unfolding parse_bytes_def by (rule eats_string_then) simp_all

interpretation string_field: wire_field put_string "\<lambda>b. Some (parse_bytes b)" "\<lambda>bs. length bs < 4294967296"
  by (rule eats_wire_field [OF eats_bytes])

lemma parse_sub_buffer_eats:
  "length bs < 4294967296 \<Longrightarrow> eats parse_sub_buffer (put_string bs) (\<lambda>sub. buffer_ok sub \<and> remaining sub = bs)"
  unfolding parse_sub_buffer_def
  by (rule eats_string_then) (simp_all add: buffer_ok_def simple_buffer_init_def remaining_def LEFT_def HERE_def)

lemma parse_atom_list_put:
  assumes "gperf_spec gperf" "list_all known_atom as" "length as \<le> limit" "limit \<noteq> 0"
    and "length (join_comma (atom_names as)) < 4294967296"
    and "buffer_ok b" "remaining b = put_string (join_comma (atom_names as)) @ rest"
  shows "\<exists>b'. parse_atom_list gperf limit b = Some (Some as, b') \<and> buffer_ok b' \<and> remaining b' = rest"
proof -
  obtain sub b' where sub: "parse_sub_buffer b = (Some sub, b')" "buffer_ok sub" "remaining sub = join_comma (atom_names as)"
      "buffer_ok b'" "remaining b' = rest"
    using parse_sub_buffer_eats [OF assms(5)] assms(6,7) unfolding eats_def by blast
  then obtain b2 where "parse_atoms gperf limit sub = Some (Some as, b2)"
    using parse_atoms_names [OF assms(1-4)] by blast
  then show ?thesis using sub by (simp add: parse_atom_list_def)
qed


section \<open>No parser leaves its buffer\<close>

lemma stays_insideI:
  "(\<And>b. buffer_ok b \<Longrightarrow> buffer_ok (snd (p b)) \<and> (\<exists>n. remaining (snd (p b)) = drop n (remaining b))) \<Longrightarrow> stays_inside p"
  by (simp add: stays_inside_def)

lemma stays_inside_pand:
  assumes "stays_inside p" "\<And>x. stays_inside (f x)"
  shows "stays_inside (pand p f)"
proof (rule stays_insideI)
  fix b assume b: "buffer_ok b"
  obtain r b1 where p: "p b = (r, b1)" by force
  then obtain n where b1: "buffer_ok b1" "remaining b1 = drop n (remaining b)"
    using assms(1) b unfolding stays_inside_def by (metis snd_conv)
  show "buffer_ok (snd (pand p f b)) \<and> (\<exists>n. remaining (snd (pand p f b)) = drop n (remaining b))"
  proof (cases r)
    case None
    then show ?thesis using p b1 by (auto simp: pand_def)
  next
    case (Some x)
    obtain m where "buffer_ok (snd (f x b1))" "remaining (snd (f x b1)) = drop m (remaining b1)"
      using assms(2) [of x] b1(1) unfolding stays_inside_def by blast
    then show ?thesis using p b1 Some by (auto simp: pand_def)
  qed
qed

lemma stays_inside_same: "(\<And>b. snd (p b) = b) \<Longrightarrow> stays_inside p"
  by (rule stays_insideI) (auto intro: exI [of _ 0])

lemma stays_inside_take:
  "stays_inside (\<lambda>b. if LEFT b < n then (None, b) else (Some (f b), ADVANCE n b))"
  by (rule stays_insideI) (auto simp: buffer_steps intro: exI [of _ 0])

lemma stays_inside_take1:
  "stays_inside (\<lambda>b. if LEFT b = 0 then (None, b) else (Some (f b), ADVANCE 1 b))"
  by (rule stays_insideI) (auto simp: buffer_steps Suc_le_eq intro: exI [of _ 0])

lemma stays_inside_uint32: "stays_inside parse_uint32"
  unfolding parse_uint32_def by (rule stays_inside_take)

lemma stays_inside_string: "stays_inside parse_string"
  unfolding parse_string_def by (rule stays_inside_pand [OF stays_inside_uint32 stays_inside_take])

lemma stays_inside_string_then:
  assumes "\<And>x. (\<And>b. snd (f x b) = b)"
  shows "stays_inside (pand parse_string f)"
  by (rule stays_inside_pand [OF stays_inside_string]) (rule stays_inside_same, rule assms)

text \<open>C21 Whatever a packet contains, the parsers of single fields leave the cursor inside the buffer,
  on success and on failure, and only ever move it forward.\<close>

theorem parsers_stay_inside:
  "stays_inside parse_uint8 \<and> stays_inside parse_uint16 \<and> stays_inside parse_uint32
   \<and> stays_inside parse_boolean \<and> stays_inside (parse_octets n) \<and> stays_inside parse_string
   \<and> stays_inside parse_string16 \<and> stays_inside parse_string_copy \<and> stays_inside parse_sub_buffer
   \<and> stays_inside (parse_bignum set_str limit) \<and> stays_inside (parse_atom gperf)"
proof (intro conjI)
  show "stays_inside parse_uint16" unfolding parse_uint16_def by (rule stays_inside_take)
  then show "stays_inside parse_string16"
    unfolding parse_string16_def by (rule stays_inside_pand [OF _ stays_inside_take])
qed (auto simp: parse_uint8_def [abs_def] parse_boolean_def [abs_def] parse_octets_def [abs_def] parse_string_copy_def parse_sub_buffer_def
    parse_bignum_def parse_atom_def stays_inside_uint32 stays_inside_string preturn_def pfail_def
    intro: stays_inside_take stays_inside_take1 stays_inside_string_then split: prod.splits)

text \<open>C20 Reading a list of names is total on a buffer whose cursor is inside: the assertion on the
  position never fails, although the cursor may end beyond the capacity, and the result is one
  atom per piece between commas, zero for an unknown or empty piece. There is no result when the
  limit or the length of a name is exceeded.\<close>

theorem parse_atoms_correct:
  assumes "buffer_ok b" "limit \<noteq> 0"
  shows "\<exists>b'. parse_atoms gperf limit b =
    Some (if remaining b = [] then Some []
          else if length (split_comma (remaining b)) \<le> limit \<and> (\<forall>p \<in> set (split_comma (remaining b)). length p \<le> 64)
          then Some (map (look_up gperf) (split_comma (remaining b))) else None, b')"
  using assms by (rule parse_atoms_pieces)

theorem parse_atoms_correct_witness:
  "\<exists>b'. parse_atoms (map_of gperf_input) 3 (simple_buffer_init 10 (cstring ''zlib,,none'')) = Some (Some [2, 0, 1], b')"
proof -
  have "split_comma (cstring ''zlib,,none'') = [get_atom_name 2, [], get_atom_name 1]"
    by (simp add: cstring_def get_atom_name_def atom_table_def atoms_in_def)
  moreover have "look_up (map_of gperf_input) (get_atom_name a) = a" if "a = 1 \<or> a = 2" for a
    using look_up_names [OF gperf_spec_input, of "[a]"] that
    by (auto simp: atom_names_def known_atom_def NUMBER_OF_ATOMS_def atoms_in_def)
  moreover have "buffer_ok (simple_buffer_init 10 (cstring ''zlib,,none''))"
    "remaining (simple_buffer_init 10 (cstring ''zlib,,none'')) = cstring ''zlib,,none''"
    by (simp_all add: buffer_ok_def simple_buffer_init_def remaining_def LEFT_def HERE_def cstring_def)
  moreover have "length (get_atom_name 1) \<le> 64" "length (get_atom_name 2) \<le> 64" "cstring ''zlib,,none'' \<noteq> []"
    by (simp_all add: get_atom_name_def atom_table_def atoms_in_def cstring_def)
  ultimately show ?thesis
    using parse_atoms_correct [of "simple_buffer_init 10 (cstring ''zlib,,none'')" 3 "map_of gperf_input"]
    by (auto simp: look_up_def)
qed

text \<open>C19 A list of atoms formatted by \<open>%A\<close> and read back by \<open>parse_atom_list\<close> is the same list, and the
  cursor stands behind it.\<close>

theorem atom_list_roundtrip:
  assumes "gperf_spec gperf" "list_all known_atom as" "length as \<le> limit" "limit \<noteq> 0"
    and "length (join_comma (atom_names as)) + 4 < 4294967296"
    and "buffer_ok b" "ssh_format_bytes ''%A'' [List_arg as] = Some bs" "remaining b = bs @ rest"
  shows "\<exists>b'. parse_atom_list gperf limit b = Some (Some as, b') \<and> buffer_ok b' \<and> remaining b' = rest"
proof -
  have "ssh_format_bytes ''%A'' [List_arg as] = Some (put_string (join_comma (atom_names as)))"
    using assms(2,5) by (intro ssh_format_bytes_eq) (auto simp: render_simps put_string_def list_all_iff)
  then show ?thesis using assms by (intro parse_atom_list_put) auto
qed

theorem atom_list_roundtrip_witness:
  "\<exists>bs b'. ssh_format_bytes ''%A'' [List_arg [14, 2, 1]] = Some bs \<and>
     parse_atom_list (map_of gperf_input) 10 (simple_buffer_init (of_nat (length bs)) bs) = Some (Some [14, 2, 1], b')"
proof -
  have r: "render no_bignum (\<lambda>_. 0) ''%A'' [List_arg [14, 2, 1]] = Some (put_string (cstring ''aes256-cbc,zlib,none''))"
    by (simp add: render_simps put_string_def cstring_def atom_names_def get_atom_name_def atom_table_def atoms_in_def
        known_atom_def NUMBER_OF_ATOMS_def)
  have j: "join_comma (atom_names [14, 2, 1]) = cstring ''aes256-cbc,zlib,none''"
    by (simp add: cstring_def atom_names_def get_atom_name_def atom_table_def atoms_in_def)
  let ?bs = "put_string (cstring ''aes256-cbc,zlib,none'')"
  have f: "ssh_format_bytes ''%A'' [List_arg [14, 2, 1]] = Some ?bs"
    using r by (rule ssh_format_bytes_eq) (simp add: put_string_def cstring_def)
  have l: "length ?bs < 4294967296" by (simp add: put_string_def cstring_def)
  have "known_atom 14" "known_atom 2" "known_atom 1" by (simp_all add: known_atom_def NUMBER_OF_ATOMS_def atoms_in_def)
  then show ?thesis
    using atom_list_roundtrip [OF gperf_spec_input, of "[14, 2, 1]" 10 "simple_buffer_init (of_nat (length ?bs)) ?bs" ?bs "[]"]
      f buffer_init [OF l] j by (auto simp: cstring_def)
qed

end
