(* ===== verification/Utf8.thy ===== *)
theory Utf8
  imports Parse
begin

text \<open>
  \<open>parse_utf8\<close> of \<open>src/parse.c\<close>: one character of up to 31 bits from a buffer. It is compared with
  an encoder: the parser accepts exactly the shortest encodings of values that are neither
  surrogates nor the two non-characters.
\<close>

section \<open>UTF-8\<close>

text \<open>\<open>Utf8_error\<close> carries what \<open>*utf8_length\<close> was set to, if it was.\<close>

datatype utf8_result = Utf8_end | Utf8_error "nat option" | Utf8_char u32 nat

definition utf8_min_value :: "u32 list" where
  "utf8_min_value = [0, 0, 0x80, 0x800, 0x10000, 0x200000, 0x4000000]"

text \<open>The length and the leading bits that a first byte of at least \<open>0x80\<close> announces.\<close>

datatype utf8_lead = Lead nat u32 | Not_a_lead | Invalid_lead

definition utf8_lead :: "u32 \<Rightarrow> utf8_lead" where
  "utf8_lead c =
     (let h = c AND 0xF0 in
      if h = 0xC0 \<or> h = 0xD0 then Lead 2 (c AND 0x1F)
      else if h = 0xE0 then Lead 3 (c AND 0x0F)
      else if h = 0xF0 then
        (let e = c AND 0x0E in
         if e = 0 \<or> e = 2 \<or> e = 4 \<or> e = 6 then Lead 4 (c AND 0x07)
         else if e = 8 \<or> e = 0xA then Lead 5 (c AND 0x03)
         else if e = 0xC then Lead 6 (c AND 0x01)
         else Invalid_lead)
      else Not_a_lead)"

text \<open>The continuation bytes from index \<open>i\<close>: the value, or the index of a byte that is none.\<close>

primrec utf8_tail :: "bytes \<Rightarrow> nat \<Rightarrow> u32 \<Rightarrow> nat \<Rightarrow> nat + u32" where
  "utf8_tail p i value 0 = Inr value"
| "utf8_tail p i value (Suc left) =
     (let c = ucast (p ! i) :: u32 in
      if c AND 0xC0 \<noteq> 0x80 then Inl i
      else utf8_tail p (i + 1) (push_bit 6 value OR (c AND 0x3f)) left)"

definition parse_utf8 :: "simple_buffer \<Rightarrow> utf8_result \<times> simple_buffer" where
  "parse_utf8 b =
     (if LEFT b = 0 then (Utf8_end, b)
      else let c = ucast (HERE b ! 0) :: u32 in
        if c < 0x80 then (Utf8_char c 1, ADVANCE 1 b)
        else (case utf8_lead c of
           Not_a_lead \<Rightarrow> (Utf8_error (Some 1), ADVANCE 1 b)
         | Invalid_lead \<Rightarrow> (Utf8_error None, ADVANCE 1 b)
         | Lead l value \<Rightarrow>
             if LEFT b < of_nat l then (Utf8_error (Some 1), ADVANCE (LEFT b) b)
             else (case utf8_tail (HERE b) 1 value (l - 1) of
                Inl i \<Rightarrow> (Utf8_error (Some i), ADVANCE (of_nat i) b)
              | Inr value \<Rightarrow>
                  (if value < utf8_min_value ! l
                     \<or> (value \<ge> 0xd800 \<and> value < 0xe000) \<or> value = 0xfffe \<or> value = 0xffff
                   then Utf8_error (Some l) else Utf8_char value l,
                   ADVANCE (of_nat l) b))))"



section \<open>The encoding\<close>

text \<open>\<open>cont_bytes k n\<close>: the low \<open>6 k\<close> bits of \<open>n\<close> as continuation bytes; the leading byte of a
  sequence of length \<open>l\<close> carries the other bits.\<close>

primrec cont_bytes :: "nat \<Rightarrow> nat \<Rightarrow> bytes" where
  "cont_bytes 0 n = []"
| "cont_bytes (Suc k) n = cont_bytes k (n div 64) @ [of_nat (128 + n mod 64)]"

definition utf8_length :: "nat \<Rightarrow> nat" where
  "utf8_length n =
     (if n < 0x80 then 1 else if n < 0x800 then 2 else if n < 0x10000 then 3
      else if n < 0x200000 then 4 else if n < 0x4000000 then 5 else 6)"

definition lead_base :: "nat \<Rightarrow> nat" where
  "lead_base l = [0, 0, 0xC0, 0xE0, 0xF0, 0xF8, 0xFC] ! l"

definition utf8_encode :: "nat \<Rightarrow> bytes" where
  "utf8_encode n =
     (let l = utf8_length n in of_nat (lead_base l + n div 64 ^ (l - 1)) # cont_bytes (l - 1) n)"

definition utf8_valid :: "nat \<Rightarrow> bool" where
  "utf8_valid n \<longleftrightarrow> n < 2 ^ 31 \<and> \<not> (0xd800 \<le> n \<and> n < 0xe000) \<and> n \<noteq> 0xfffe \<and> n \<noteq> 0xffff"

text \<open>The value that continuation bytes append.\<close>

definition utf8_fold :: "nat \<Rightarrow> bytes \<Rightarrow> nat" where
  "utf8_fold v cs = foldl (\<lambda>v c. v * 64 + unat c mod 64) v cs"

definition is_cont :: "byte \<Rightarrow> bool" where
  "is_cont c \<longleftrightarrow> 128 \<le> unat c \<and> unat c < 192"

lemma cont_bytes_numeral [simp]:
  "cont_bytes (numeral k) n = cont_bytes (pred_numeral k) (n div 64) @ [of_nat (128 + n mod 64)]"
  by (simp only: numeral_eq_Suc [of k] cont_bytes.simps)

lemma utf8_tail_numeral [simp]:
  "utf8_tail p i value (numeral k) =
     (let c = ucast (p ! i) :: u32 in
      if c AND 0xC0 \<noteq> 0x80 then Inl i
      else utf8_tail p (i + 1) (push_bit 6 value OR (c AND 0x3f)) (pred_numeral k))"
  by (simp only: numeral_eq_Suc [of k] utf8_tail.simps)

lemma length_cont_bytes [simp]: "length (cont_bytes k n) = k"
  by (induction k arbitrary: n) auto

lemma cont_bytes_cont: "c \<in> set (cont_bytes k n) \<Longrightarrow> is_cont c"
  by (induction k arbitrary: n) (auto simp: is_cont_def unat_word_ariths unat_of_nat)

lemma unat_byte_of_nat: "m < 256 \<Longrightarrow> unat (of_nat m :: byte) = m"
  by (simp add: unat_of_nat)

lemma utf8_fold_snoc: "utf8_fold v (cs @ [c]) = utf8_fold v cs * 64 + unat c mod 64"
  by (simp add: utf8_fold_def)

lemma utf8_fold_cont_bytes: "utf8_fold v (cont_bytes k n) = v * 64 ^ k + n mod 64 ^ k"
proof (induction k arbitrary: n)
  case (Suc k)
  have "unat (of_nat (128 + n mod 64) :: byte) mod 64 = n mod 64"
    by (subst unat_byte_of_nat) (auto simp: mod_add_eq [symmetric])
  moreover have "n mod 64 ^ Suc k = 64 * (n div 64 mod 64 ^ k) + n mod 64"
    by (simp add: mod_mult2_eq)
  ultimately show ?case using Suc.IH [of "n div 64"] by (simp add: utf8_fold_snoc algebra_simps)
qed (simp add: utf8_fold_def)

lemma cont_bytes_fold: "(\<And>c. c \<in> set cs \<Longrightarrow> is_cont c) \<Longrightarrow> cont_bytes (length cs) (utf8_fold v cs) = cs"
proof (induction cs rule: rev_induct)
  case (snoc c cs)
  have "is_cont c" using snoc.prems by simp
  then obtain k where "unat c = k + 128" "k < 64"
    unfolding is_cont_def by (auto simp: le_iff_add add.commute)
  then have "128 + unat c mod 64 = unat c" using mod_mult_self1 [of k 2 64] by simp
  then have "(of_nat (128 + unat c mod 64) :: byte) = c" by simp
  then show ?case using snoc by (simp add: utf8_fold_snoc)
qed simp

lemma utf8_fold_less: "utf8_fold v cs < (v + 1) * 64 ^ length cs"
proof (induction cs rule: rev_induct)
  case (snoc c cs)
  have "utf8_fold v cs * 64 + unat c mod 64 < (utf8_fold v cs + 1) * 64" by simp
  also have "\<dots> \<le> (v + 1) * 64 ^ length cs * 64" using snoc by (intro mult_right_mono) auto
  finally show ?case by (simp add: utf8_fold_snoc algebra_simps)
qed (simp add: utf8_fold_def)

lemma lead_all:
  "list_all (\<lambda>i. utf8_lead (of_nat i) =
     (if i < 192 then Not_a_lead else if i < 224 then Lead 2 (of_nat (i - 192)) else if i < 240 then Lead 3 (of_nat (i - 224))
      else if i < 248 then Lead 4 (of_nat (i - 240)) else if i < 252 then Lead 5 (of_nat (i - 248))
      else if i < 254 then Lead 6 (of_nat (i - 252)) else Invalid_lead)) [128..<256]"
  by code_simp

lemma cont_all:
  "list_all (\<lambda>i. ((of_nat i :: u32) AND 0xC0 = 0x80) = (128 \<le> i \<and> i < 192)
     \<and> (of_nat i :: u32) AND 0x3f = of_nat (i mod 64)) [0..<256]"
  by code_simp


lemma utf8_lead_byte:
  assumes "128 \<le> unat (c :: byte)"
  shows "utf8_lead (ucast c) =
     (if unat c < 192 then Not_a_lead else if unat c < 224 then Lead 2 (of_nat (unat c - 192))
      else if unat c < 240 then Lead 3 (of_nat (unat c - 224))
      else if unat c < 248 then Lead 4 (of_nat (unat c - 240)) else if unat c < 252 then Lead 5 (of_nat (unat c - 248))
      else if unat c < 254 then Lead 6 (of_nat (unat c - 252)) else Invalid_lead)"
proof -
  have "unat c < 256" using unsigned_less [of c] by simp
  then have "unat c \<in> set [128..<256]" using assms unfolding set_upt by simp
  moreover have "ucast c = (of_nat (unat c) :: u32)" by (simp add: of_nat_unat)
  ultimately show ?thesis using lead_all [unfolded list_all_iff, THEN bspec, of "unat c"] by (simp only:)
qed

lemma cont_byte:
  "((ucast c :: u32) AND 0xC0 = 0x80) = is_cont c" "(ucast c :: u32) AND 0x3f = of_nat (unat c mod 64)"
proof -
  have "unat c < 256" using unsigned_less [of c] by simp
  then have "unat c \<in> set [0..<256]" unfolding set_upt by simp
  moreover have "ucast c = (of_nat (unat c) :: u32)" by (simp add: of_nat_unat)
  ultimately show "((ucast c :: u32) AND 0xC0 = 0x80) = is_cont c" "(ucast c :: u32) AND 0x3f = of_nat (unat c mod 64)"
    using cont_all [unfolded list_all_iff, THEN bspec, of "unat c"] by (simp_all only: is_cont_def)
qed

lemma append_bits:
  assumes "unat v * 64 + 63 < 4294967296" "m < 64"
  shows "push_bit 6 v OR of_nat m = (of_nat (unat v * 64 + m) :: u32)"
proof -
  have "push_bit 6 v AND of_nat m = (0 :: u32)"
  proof (rule bit_eqI)
    fix n
    have "take_bit 6 m = m" using assms(2) by (simp add: take_bit_nat_eq_self)
    then have "\<not> bit m n" if "6 \<le> n"
      using that bit_take_bit_iff [of 6 m n] by simp
    then show "bit (push_bit 6 v AND of_nat m :: u32) n = bit (0 :: u32) n"
      by (auto simp: bit_simps)
  qed
  then have "push_bit 6 v OR of_nat m = push_bit 6 v + (of_nat m :: u32)"
    by (simp add: disjunctive_add_eq_or)
  also have "\<dots> = of_nat (unat v * 64 + m)" by (simp add: push_bit_eq_mult)
  finally show ?thesis .
qed


lemma utf8_fold_Cons: "utf8_fold v (c # cs) = utf8_fold (v * 64 + unat c mod 64) cs"
  by (simp add: utf8_fold_def)

lemma utf8_fold_shift: "utf8_fold v cs = v * 64 ^ length cs + utf8_fold 0 cs"
  by (induction cs rule: rev_induct) (simp_all add: utf8_fold_snoc algebra_simps, simp add: utf8_fold_def)

lemma slice_Suc: "i < length p \<Longrightarrow> slice i (Suc n) p = p ! i # slice (Suc i) n p"
  by (simp add: slice_def Cons_nth_drop_Suc flip: take_Suc_Cons)

lemma utf8_tail_cont:
  "(\<And>c. c \<in> set (slice i left p) \<Longrightarrow> is_cont c) \<Longrightarrow> i + left \<le> length p \<Longrightarrow>
   (unat v + 1) * 64 ^ left \<le> 4294967296 \<Longrightarrow>
   utf8_tail p i v left = Inr (of_nat (utf8_fold (unat v) (slice i left p)))"
proof (induction left arbitrary: i v)
  case 0
  then show ?case by (simp add: utf8_fold_def slice_def)
next
  case (Suc left)
  have sl: "slice i (Suc left) p = p ! i # slice (Suc i) left p" using Suc.prems(2) by (simp add: slice_Suc)
  let ?n = "unat v * 64 + unat (p ! i) mod 64"
  have "(unat v + 1) * 64 ^ 1 \<le> (unat v + 1) * 64 ^ Suc left" by (intro mult_left_mono power_increasing) auto
  also note Suc.prems(3)
  finally have le: "unat v * 64 + 63 < 4294967296" by simp
  then have n: "unat (of_nat ?n :: u32) = ?n" by (intro unat_u32_of_nat) (rule le_less_trans [OF _ le], simp)
  have "(?n + 1) * 64 ^ left \<le> (unat v + 1) * 64 * 64 ^ left"
    by (intro mult_right_mono) auto
  also have "\<dots> \<le> 4294967296" using Suc.prems(3) by (simp add: algebra_simps)
  finally have "utf8_tail p (i + 1) (of_nat ?n) left = Inr (of_nat (utf8_fold ?n (slice (Suc i) left p)))"
    using Suc.IH [of "i + 1" "of_nat ?n"] Suc.prems n sl by simp
  moreover have "is_cont (p ! i)" using Suc.prems(1) sl by simp
  ultimately show ?case
    using append_bits [OF le, of "unat (p ! i) mod 64"] sl
    by (simp add: Let_def cont_byte utf8_fold_Cons)
qed

lemma utf8_tail_Inr:
  "utf8_tail p i v left = Inr w \<Longrightarrow> i + left \<le> length p \<Longrightarrow> c \<in> set (slice i left p) \<Longrightarrow> is_cont c"
proof (induction left arbitrary: i v)
  case (Suc left)
  then show ?case by (auto simp: slice_Suc Let_def cont_byte split: if_splits)
qed (simp add: slice_def)

lemma lead_info:
  fixes c :: byte
  assumes "utf8_lead (ucast c) = Lead l v" "128 \<le> unat c"
  shows "l \<in> {2..6}" "unat c = lead_base l + unat v" "unat v < 2 ^ (7 - l)"
proof -
  have "unat c < 256" using unsigned_less [of c] by simp
  then show "l \<in> {2..6}" "unat c = lead_base l + unat v" "unat v < 2 ^ (7 - l)"
    using assms utf8_lead_byte [OF assms(2)] by (auto simp: lead_base_def unat_u32_of_nat simp del: of_nat_diff split: if_splits)
qed

lemma lead_value:
  assumes "l \<in> {2..6}" "m < 2 ^ (7 - l)"
  shows "utf8_lead (ucast (of_nat (lead_base l + m) :: byte)) = Lead l (of_nat m)"
proof -
  have "l = 2 \<or> l = 3 \<or> l = 4 \<or> l = 5 \<or> l = 6" using assms(1) by auto
  then have "unat (of_nat (lead_base l + m) :: byte) = lead_base l + m"
    using assms(2) by (intro unat_byte_of_nat) (auto simp: lead_base_def)
  then show ?thesis
    using utf8_lead_byte [of "of_nat (lead_base l + m)"] assms(2) \<open>l = 2 \<or> _\<close>
    by (elim disjE) (simp_all add: lead_base_def)
qed

lemma utf8_lead_range:
  assumes "l \<in> {2..6}" "m < 2 ^ (7 - l)"
  shows "lead_base l + m < 256" "128 \<le> lead_base l + m"
proof -
  have "l = 2 \<or> l = 3 \<or> l = 4 \<or> l = 5 \<or> l = 6" using assms(1) by auto
  then show "lead_base l + m < 256" "128 \<le> lead_base l + m"
    using assms(2) by (auto simp: lead_base_def)
qed

lemma utf8_length_range:
  assumes "l \<in> {2..6}" "n < 2 ^ (7 - l) * 64 ^ (l - 1)"
  shows "utf8_length n = l \<longleftrightarrow> unat (utf8_min_value ! l) \<le> n"
proof -
  have "l = 2 \<or> l = 3 \<or> l = 4 \<or> l = 5 \<or> l = 6" using assms(1) by auto
  then show ?thesis using assms(2) by (elim disjE) (auto simp: utf8_length_def utf8_min_value_def)
qed


text \<open>One sequence of \<open>l\<close> bytes in front of the cursor.\<close>

lemma parse_utf8_Lead:
  assumes "buffer_ok b" "remaining b = c # cs" "128 \<le> unat c" "utf8_lead (ucast c) = Lead l v"
  shows "parse_utf8 b =
    (if length (remaining b) < l then (Utf8_error (Some 1), ADVANCE (LEFT b) b)
     else (case utf8_tail (HERE b) 1 v (l - 1) of
        Inl i \<Rightarrow> (Utf8_error (Some i), ADVANCE (of_nat i) b)
      | Inr value \<Rightarrow>
          (if value < utf8_min_value ! l \<or> (value \<ge> 0xd800 \<and> value < 0xe000) \<or> value = 0xfffe \<or> value = 0xffff
           then Utf8_error (Some l) else Utf8_char value l,
           ADVANCE (of_nat l) b)))"
proof -
  have "HERE b ! 0 = c" using assms(1,2) HERE_nth [of b 0] by simp
  moreover have "l \<in> {2..6}" using lead_info(1) [OF assms(4,3)] .
  then have "unat (of_nat l :: u32) = l" by (intro unat_u32_of_nat) auto
  moreover have "\<not> (ucast c :: u32) < 0x80" using assms(3) by (simp add: u32_less)
  ultimately show ?thesis using assms by (simp add: parse_utf8_def LEFT_zero LEFT_less)
qed

lemma utf8_sequence:
  assumes "l \<in> {2..6}" "m < 2 ^ (7 - l)" "length cs = l - 1" "\<And>c. c \<in> set cs \<Longrightarrow> is_cont c"
    and "n = utf8_fold m cs" "unat (utf8_min_value ! l) \<le> n"
  shows "utf8_encode n = of_nat (lead_base l + m) # cs" "n < 2 ^ 31" "utf8_length n = l"
proof -
  have "n < (m + 1) * 64 ^ (l - 1)" using utf8_fold_less [of m cs] assms(3,5) by simp
  also have "\<dots> \<le> 2 ^ (7 - l) * 64 ^ (l - 1)" using assms(2) by (intro mult_right_mono) auto
  finally have n: "n < 2 ^ (7 - l) * 64 ^ (l - 1)" .
  moreover have "l = 2 \<or> l = 3 \<or> l = 4 \<or> l = 5 \<or> l = 6" using assms(1) by auto
  ultimately show "n < 2 ^ 31" by (elim disjE) simp_all
  show len: "utf8_length n = l" using utf8_length_range [OF assms(1) n] assms(6) by simp
  have "utf8_fold 0 cs < 64 ^ (l - 1)" using utf8_fold_less [of 0 cs] assms(3) by simp
  then have "n div 64 ^ (l - 1) = m"
    using assms(3,5) utf8_fold_shift [of m cs] by simp
  moreover have "cont_bytes (l - 1) n = cs" using cont_bytes_fold [of cs m] assms(3-5) by simp
  ultimately show "utf8_encode n = of_nat (lead_base l + m) # cs"
    using len by (simp add: utf8_encode_def Let_def)
qed


lemma HERE_slice: "buffer_ok b \<Longrightarrow> i + n \<le> length (remaining b) \<Longrightarrow> slice i n (HERE b) = slice i n (remaining b)"
  by (simp add: remaining_def slice_take)

lemma lead_room: "l \<in> {2..6} \<Longrightarrow> m < 2 ^ (7 - l) \<Longrightarrow> (m + 1) * 64 ^ (l - 1) \<le> (2 ^ 31 :: nat)"
proof -
  assume l: "l \<in> {2..6}" and m: "m < 2 ^ (7 - l)"
  have "(m + 1) * 64 ^ (l - 1) \<le> 2 ^ (7 - l) * 64 ^ (l - 1)" using m by (intro mult_right_mono) auto
  also have "\<dots> \<le> 2 ^ 31"
  proof -
    have "l = 2 \<or> l = 3 \<or> l = 4 \<or> l = 5 \<or> l = 6" using l by auto
    then show ?thesis by (elim disjE) simp_all
  qed
  finally show ?thesis .
qed

lemma utf8_tail_value:
  assumes "utf8_tail p 1 v (l - 1) = Inr w" "l \<in> {2..6}" "unat v < 2 ^ (7 - l)" "slice 1 (l - 1) p = cs" "l \<le> length p"
  shows "unat w = utf8_fold (unat v) cs" "\<And>c. c \<in> set cs \<Longrightarrow> is_cont c"
proof -
  have len: "1 + (l - 1) \<le> length p" using assms(2,5) by auto
  show cont: "is_cont c" if "c \<in> set cs" for c
    using utf8_tail_Inr [OF assms(1) len] that assms(4) by simp
  have room: "(unat v + 1) * 64 ^ (l - 1) \<le> 2 ^ 31" using lead_room [OF assms(2,3)] .
  then have "w = of_nat (utf8_fold (unat v) cs)"
    using utf8_tail_cont [of 1 "l - 1" p v] cont len assms(1,4) by simp
  moreover have "length cs = l - 1" using assms(4) len by (auto simp: slice_def)
  then have "utf8_fold (unat v) cs < 4294967296" using utf8_fold_less [of "unat v" cs] room by simp
  ultimately show "unat w = utf8_fold (unat v) cs" by (simp add: unat_u32_of_nat)
qed

text \<open>C24 What \<open>parse_utf8\<close> accepts is the shortest encoding of the character it returns, which is neither a
  surrogate nor one of the two non-characters; it consumes exactly that encoding.\<close>

theorem parse_utf8_sound:
  assumes "buffer_ok b" "parse_utf8 b = (Utf8_char v l, b')"
  shows "utf8_valid (unat v) \<and> remaining b = utf8_encode (unat v) @ remaining b' \<and> l = length (utf8_encode (unat v))
    \<and> buffer_ok b'"
proof -
  obtain c cs where cs: "remaining b = c # cs"
    using assms by (cases "remaining b") (auto simp: parse_utf8_def LEFT_zero)
  have c: "HERE b ! 0 = c" using assms(1) cs HERE_nth [of b 0] by simp
  show ?thesis
  proof (cases "unat c < 128")
    case True
    then have "v = ucast c" "l = 1" "b' = ADVANCE 1 b"
      using assms cs c by (auto simp: parse_utf8_def LEFT_zero u32_less)
    then show ?thesis
      using True cs assms(1) by (simp add: utf8_valid_def utf8_encode_def utf8_length_def lead_base_def buffer_steps)
  next
    case False
    then obtain l' v' where lead: "utf8_lead (ucast c) = Lead l' v'"
      using assms cs c by (cases "utf8_lead (ucast c)") (auto simp: parse_utf8_def LEFT_zero u32_less)
    note info = lead_info [OF lead] and P = parse_utf8_Lead [OF assms(1) cs _ lead]
    have len: "l' \<le> length (remaining b)" and tail: "utf8_tail (HERE b) 1 v' (l' - 1) = Inr v" and "l = l'"
      and b': "b' = ADVANCE (of_nat l') b" and min: "\<not> v < utf8_min_value ! l'"
      and ok: "\<not> (v \<ge> 0xd800 \<and> v < 0xe000)" "v \<noteq> 0xfffe" "v \<noteq> 0xffff"
      using assms(2) P False by (auto split: if_splits sum.splits)
    have "utf8_encode (unat v) = of_nat (lead_base l' + unat v') # take (l' - 1) cs"
      and "unat v < 2 ^ 31" "utf8_length (unat v) = l'"
    proof -
      have "slice 1 (l' - 1) (HERE b) = take (l' - 1) cs"
        using HERE_slice [OF assms(1), of 1 "l' - 1"] len info(1) False cs by (simp add: slice_def)
      moreover have "l' \<le> length (HERE b)" using len length_HERE [OF assms(1)] by simp
      ultimately have v: "unat v = utf8_fold (unat v') (take (l' - 1) cs)"
          and cont: "\<And>x. x \<in> set (take (l' - 1) cs) \<Longrightarrow> is_cont x"
        using utf8_tail_value [OF tail] info False by auto
      have "length (take (l' - 1) cs) = l' - 1" using len cs by simp
      moreover have "l' \<in> {2..6}" "unat v' < 2 ^ (7 - l')" "unat (utf8_min_value ! l') \<le> unat v"
        using info min False by (simp_all add: u32_less)
      ultimately show "utf8_encode (unat v) = of_nat (lead_base l' + unat v') # take (l' - 1) cs"
        "unat v < 2 ^ 31" "utf8_length (unat v) = l'" using utf8_sequence [OF _ _ _ cont v] by blast+
    qed
    moreover have "of_nat (lead_base l' + unat v') = c" using info(2) False by (metis linorder_not_less of_nat_unat ucast_id)
    moreover have "unat (of_nat l' :: u32) = l'" using info(1) False by (intro unat_u32_of_nat) auto
    ultimately show ?thesis
      using b' \<open>l = l'\<close> cs len assms(1) ok info(1) False
      by (simp add: utf8_valid_def buffer_steps u32_le u32_less word_unat_eq_iff drop_Cons')
  qed
qed

theorem parse_utf8_sound_witness:
  "\<exists>b'. parse_utf8 (simple_buffer_init 3 [0xE2, 0x82, 0xAC]) = (Utf8_char 0x20AC 3, b') \<and>
     [0xE2, 0x82, 0xAC] = utf8_encode 0x20AC @ remaining b'"
proof -
  let ?b = "simple_buffer_init 3 [0xE2, 0x82, 0xAC]"
  have "parse_utf8 ?b = (Utf8_char 0x20AC 3, ADVANCE 3 ?b)"
    by (simp add: parse_utf8_def simple_buffer_init_def LEFT_def HERE_def utf8_lead_def Let_def utf8_min_value_def)
  moreover have "buffer_ok ?b" "remaining ?b = [0xE2, 0x82, 0xAC]"
    by (simp_all add: buffer_ok_def simple_buffer_init_def remaining_def LEFT_def HERE_def)
  ultimately show ?thesis using parse_utf8_sound [of ?b "0x20AC" 3 "ADVANCE 3 ?b"] by simp
qed

text \<open>C25 Every valid character is read back from its encoding, whatever follows it.\<close>

theorem parse_utf8_complete:
  assumes "buffer_ok b" "utf8_valid n" "remaining b = utf8_encode n @ rest"
  shows "\<exists>b'. parse_utf8 b = (Utf8_char (of_nat n) (length (utf8_encode n)), b') \<and> buffer_ok b' \<and> remaining b' = rest"
proof (cases "n < 128")
  case True
  then have "remaining b = of_nat n # rest" "utf8_encode n = [of_nat n]"
    using assms(3) by (simp_all add: utf8_encode_def utf8_length_def lead_base_def)
  moreover have "ucast (of_nat n :: byte) = (of_nat n :: u32)"
    using True by (simp add: word_unat_eq_iff unat_byte_of_nat unat_u32_of_nat)
  ultimately show ?thesis
    using assms(1) True by (simp add: parse_utf8_def buffer_steps u32_less unat_u32_of_nat)
next
  case False
  define l where "l = utf8_length n"
  define m where "m = n div 64 ^ (l - 1)"
  have l: "l \<in> {2..6}" using False by (simp add: l_def utf8_length_def)
  have n: "n < 2 ^ (7 - l) * 64 ^ (l - 1)" using assms(2) False by (auto simp: l_def utf8_length_def utf8_valid_def)
  have m: "m < 2 ^ (7 - l)" using n by (simp add: m_def less_mult_imp_div_less)
  have enc: "utf8_encode n = of_nat (lead_base l + m) # cont_bytes (l - 1) n"
    by (simp add: utf8_encode_def Let_def l_def m_def)
  have n': "n < 4294967296" using assms(2) by (simp add: utf8_valid_def)
  have c: "unat (of_nat (lead_base l + m) :: byte) = lead_base l + m" "128 \<le> lead_base l + m"
    using utf8_lead_range [OF l m] by (simp_all add: unat_byte_of_nat del: of_nat_add)
  have um: "unat (of_nat m :: u32) = m" using utf8_lead_range(1) [OF l m] by (intro unat_u32_of_nat) simp
  have len: "l \<le> length (remaining b)" using assms(3) enc by simp
  have sl: "slice 1 (l - 1) (HERE b) = cont_bytes (l - 1) n"
    using HERE_slice [OF assms(1), of 1 "l - 1"] len l assms(3) enc by (simp add: slice_def)
  have "utf8_tail (HERE b) 1 (of_nat m) (l - 1) = Inr (of_nat (utf8_fold m (cont_bytes (l - 1) n)))"
    using utf8_tail_cont [of 1 "l - 1" "HERE b" "of_nat m"] sl cont_bytes_cont um lead_room [OF l m] len
      length_HERE [OF assms(1)] l by auto
  moreover have "utf8_fold m (cont_bytes (l - 1) n) = n"
    unfolding utf8_fold_cont_bytes m_def by (rule div_mult_mod_eq)
  moreover have "unat (utf8_min_value ! l) \<le> n" using utf8_length_range [OF l n] by (simp add: l_def)
  moreover have "unat (of_nat l :: u32) = l" using l by (intro unat_u32_of_nat) auto
  ultimately show ?thesis
    using parse_utf8_Lead [OF assms(1) _ _ lead_value [OF l m]] c assms(1-3) enc len n' l
    by (auto simp: u32_less u32_le unat_u32_of_nat utf8_valid_def word_unat_eq_iff buffer_steps drop_Cons')
qed

theorem parse_utf8_complete_witness:
  "\<exists>b'. parse_utf8 (simple_buffer_init 5 [0xF0, 0x9F, 0x90, 0x9A, 33]) = (Utf8_char 0x1F41A 4, b') \<and> remaining b' = [33]"
proof -
  let ?b = "simple_buffer_init 5 [0xF0, 0x9F, 0x90, 0x9A, 33]"
  have enc: "utf8_encode 0x1F41A = [0xF0, 0x9F, 0x90, 0x9A]"
    by (simp add: utf8_encode_def utf8_length_def lead_base_def Let_def)
  have len: "length (utf8_encode 0x1F41A) = 4" by (simp add: enc)
  have "utf8_valid 0x1F41A" by (simp add: utf8_valid_def)
  moreover have "buffer_ok ?b" "remaining ?b = utf8_encode 0x1F41A @ [33]"
    by (simp_all add: enc buffer_ok_def simple_buffer_init_def remaining_def LEFT_def HERE_def)
  ultimately show ?thesis using parse_utf8_complete [of ?b "0x1F41A" "[33]", unfolded len] by auto
qed

end
