(* ===== verification/Alist.thy ===== *)
theory Alist
  imports Atoms
begin

text \<open>
  \<open>src/alist.c\<close>: association lists with integer keys, by which algorithms, channel types and request
  handlers are found. There are two implementations, an array indexed by atom and a linked list;
  the methods of an object are the arguments \<open>get\<close> and \<open>put\<close> of the operations that work on either.
  A value is an option, \<open>None\<close> being the null pointer, which \<open>put\<close> takes to delete a key. The
  locale \<open>alist\<close> is the contract of the interface in \<open>src/alist.h\<close>.
\<close>

section \<open>The operations on both kinds\<close>

text \<open>The variable arguments are \<open>n\<close> pairs, here a list, and the terminator that must follow them.\<close>

primrec alist_addv :: "('a \<Rightarrow> int \<Rightarrow> 'v option \<Rightarrow> 'a option) \<Rightarrow> 'a \<Rightarrow> (int \<times> 'v option) list \<Rightarrow> int \<Rightarrow> 'a option" where
  "alist_addv put a [] terminator = do { c_assert (terminator = -1); Some a }"
| "alist_addv put a (p # ps) terminator =
     (if fst p < 0 then None
      else do { a \<leftarrow> put a (fst p) (snd p); alist_addv put a ps terminator })"

primrec alist_select_loop ::
  "('b \<Rightarrow> int \<Rightarrow> 'v option option) \<Rightarrow> ('a \<Rightarrow> int \<Rightarrow> 'v option \<Rightarrow> 'a option) \<Rightarrow> 'b \<Rightarrow> 'a \<Rightarrow> int list \<Rightarrow> int \<Rightarrow> 'a option" where
  "alist_select_loop get put src dst [] terminator = do { c_assert (terminator = -1); Some dst }"
| "alist_select_loop get put src dst (atom # atoms) terminator =
     do { c_assert (atom \<ge> 0);
          r \<leftarrow> get src atom;
          dst \<leftarrow> (case r of None \<Rightarrow> Some dst | Some v \<Rightarrow> put dst atom (Some v));
          alist_select_loop get put src dst atoms terminator }"

section \<open>The linear implementation\<close>

record 'v alist_linear =
  al_table :: "'v option list"

definition do_linear_get :: "'v alist_linear \<Rightarrow> int \<Rightarrow> 'v option option" where
  "do_linear_get self atom =
     do { c_assert (atom \<ge> 0);
          c_assert (atom < int NUMBER_OF_ATOMS);
          Some (al_table self ! nat atom) }"

definition do_linear_set :: "'v alist_linear \<Rightarrow> int \<Rightarrow> 'v option \<Rightarrow> 'v alist_linear option" where
  "do_linear_set self atom v =
     do { c_assert (atom \<ge> 0);
          c_assert (atom < int NUMBER_OF_ATOMS);
          Some (self\<lparr>al_table := (al_table self)[nat atom := v]\<rparr>) }"

definition make_linear_alist :: "(int \<times> 'v option) list \<Rightarrow> int \<Rightarrow> 'v alist_linear option" where
  "make_linear_alist ps terminator =
     alist_addv do_linear_set \<lparr>al_table = replicate NUMBER_OF_ATOMS None\<rparr> ps terminator"

section \<open>The linked implementation\<close>

record 'v alist_linked =
  al_head :: "(int \<times> 'v) list"

fun linked_find :: "(int \<times> 'v) list \<Rightarrow> int \<Rightarrow> 'v option" where
  "linked_find [] atom = None"
| "linked_find ((k, v) # p) atom = (if k = atom then Some v else linked_find p atom)"

definition do_linked_get :: "'v alist_linked \<Rightarrow> int \<Rightarrow> 'v option option" where
  "do_linked_get self atom =
     do { c_assert (atom \<ge> 0);
          Some (linked_find (al_head self) atom) }"

text \<open>The loop that stores into an existing node; \<open>None\<close> when there is none.\<close>

fun linked_replace :: "(int \<times> 'v) list \<Rightarrow> int \<Rightarrow> 'v \<Rightarrow> (int \<times> 'v) list option" where
  "linked_replace [] atom v = None"
| "linked_replace ((k, w) # p) atom v =
     (if k = atom then Some ((k, v) # p) else map_option ((#) (k, w)) (linked_replace p atom v))"

fun linked_remove :: "(int \<times> 'v) list \<Rightarrow> int \<Rightarrow> (int \<times> 'v) list" where
  "linked_remove [] atom = []"
| "linked_remove ((k, w) # p) atom = (if k = atom then p else (k, w) # linked_remove p atom)"

definition do_linked_set :: "'v alist_linked \<Rightarrow> int \<Rightarrow> 'v option \<Rightarrow> 'v alist_linked option" where
  "do_linked_set self atom v =
     do { c_assert (atom \<ge> 0);
          Some (case v of
                  Some v \<Rightarrow>
                    (case linked_replace (al_head self) atom v of
                       Some l \<Rightarrow> self\<lparr>al_head := l\<rparr>
                     | None \<Rightarrow> self\<lparr>al_head := (atom, v) # al_head self\<rparr>)
                | None \<Rightarrow> self\<lparr>al_head := linked_remove (al_head self) atom\<rparr>) }"

definition make_linked_alist :: "(int \<times> 'v option) list \<Rightarrow> int \<Rightarrow> 'v alist_linked option" where
  "make_linked_alist ps terminator = alist_addv do_linked_set \<lparr>al_head = []\<rparr> ps terminator"

text \<open>\<open>make_alist\<close> is the linked kind (\<open>src/alist.h\<close>).\<close>

definition alist_select_l ::
  "('b \<Rightarrow> int \<Rightarrow> 'v option option) \<Rightarrow> 'b \<Rightarrow> int list \<Rightarrow> int \<Rightarrow> 'v alist_linked option" where
  "alist_select_l get src atoms terminator =
     do { dst \<leftarrow> make_linked_alist [] (-1);
          alist_select_loop get do_linked_set src dst atoms terminator }"

section \<open>The contract\<close>

text \<open>\<open>key\<close> are the keys that may be used; \<open>lookup\<close> is what \<open>get\<close> finds at such a key.\<close>

locale alist =
  fixes get :: "'a \<Rightarrow> int \<Rightarrow> 'v option option"
    and put :: "'a \<Rightarrow> int \<Rightarrow> 'v option \<Rightarrow> 'a option"
    and inv :: "'a \<Rightarrow> bool"
    and key :: "int \<Rightarrow> bool"
    and lookup :: "'a \<Rightarrow> int \<Rightarrow> 'v option"
  assumes get_lookup: "inv a \<Longrightarrow> key k \<Longrightarrow> get a k = Some (lookup a k)"
    and set_defined: "inv a \<Longrightarrow> key k \<Longrightarrow> \<exists>b. put a k v = Some b"
    and set_inv: "inv a \<Longrightarrow> key k \<Longrightarrow> put a k v = Some b \<Longrightarrow> inv b"
    and lookup_set: "inv a \<Longrightarrow> key k \<Longrightarrow> put a k v = Some b \<Longrightarrow> key k' \<Longrightarrow>
      lookup b k' = (if k' = k then v else lookup a k')"
    and key_nonneg: "key k \<Longrightarrow> 0 \<le> k"
begin

lemma get_set:
  assumes "inv a" "key k" "key k'"
  shows "\<exists>b. put a k v = Some b \<and> inv b \<and> get b k' = Some (if k' = k then v else lookup a k')"
proof -
  obtain b where b: "put a k v = Some b" using set_defined [OF assms(1,2)] by blast
  have "inv b" using set_inv [OF assms(1,2) b] .
  then show ?thesis using b get_lookup [OF _ assms(3)] lookup_set [OF assms(1,2) b assms(3)] by simp
qed

lemma addv_lookup:
  "inv a \<Longrightarrow> list_all (\<lambda>p. key (fst p)) ps \<Longrightarrow>
   \<exists>b. alist_addv put a ps (-1) = Some b \<and> inv b \<and>
     (\<forall>k. key k \<longrightarrow> lookup b k = (case map_of (rev ps) k of None \<Rightarrow> lookup a k | Some v \<Rightarrow> v))"
proof (induction ps arbitrary: a)
  case (Cons p ps)
  then obtain a' where a': "put a (fst p) (snd p) = Some a'" "inv a'"
    using set_defined [of a "fst p" "snd p"] set_inv [of a "fst p" "snd p"] by auto
  then obtain b where b: "alist_addv put a' ps (-1) = Some b" "inv b"
      "\<forall>k. key k \<longrightarrow> lookup b k = (case map_of (rev ps) k of None \<Rightarrow> lookup a' k | Some v \<Rightarrow> v)"
    using Cons by fastforce
  have "lookup b k = (case map_of (rev (p # ps)) k of None \<Rightarrow> lookup a k | Some v \<Rightarrow> v)" if "key k" for k
    using that b(3) Cons.prems lookup_set [OF _ _ a'(1) that]
    by (auto simp: map_add_def split: option.splits)
  moreover have "\<not> fst p < 0" using Cons.prems key_nonneg [of "fst p"] by simp
  ultimately show ?case using a' b by auto
qed simp

end


section \<open>Both implementations keep the contract\<close>

definition linear_inv :: "'v alist_linear \<Rightarrow> bool" where
  "linear_inv a \<longleftrightarrow> length (al_table a) = NUMBER_OF_ATOMS"

interpretation linear: alist do_linear_get do_linear_set linear_inv
  "\<lambda>k. 0 \<le> k \<and> k < int NUMBER_OF_ATOMS" "\<lambda>a k. al_table a ! nat k"
  by unfold_locales
    (auto simp: do_linear_get_def do_linear_set_def linear_inv_def c_assert_bind nth_list_update split: if_splits)

text \<open>In a linked list no key occurs twice.\<close>

definition linked_inv :: "'v alist_linked \<Rightarrow> bool" where
  "linked_inv a \<longleftrightarrow> distinct (map fst (al_head a))"

lemma linked_find_eq: "linked_find l k = map_of l k"
  by (induction l k rule: linked_find.induct) auto

lemma linked_replace_None: "linked_replace l k v = None \<longleftrightarrow> k \<notin> fst ` set l"
  by (induction l k v rule: linked_replace.induct) auto

lemma linked_replace_Some:
  "linked_replace l k v = Some m \<Longrightarrow> map fst m = map fst l \<and> (\<forall>k'. map_of m k' = (if k' = k then Some v else map_of l k'))"
  by (induction l k v arbitrary: m rule: linked_replace.induct) (auto split: if_splits)

lemma linked_remove_keys: "set (map fst (linked_remove l k)) \<subseteq> set (map fst l)"
  by (induction l k rule: linked_remove.induct) auto

lemma linked_remove_map_of:
  "distinct (map fst l) \<Longrightarrow> map_of (linked_remove l k) k' = (if k' = k then None else map_of l k')"
proof (induction l k rule: linked_remove.induct)
  case (2 j w p k)
  show ?case
  proof (cases "j = k")
    case True
    then have "map_of p k = None" using "2.prems" by (simp add: map_of_eq_None_iff)
    then show ?thesis using True by auto
  next
    case False
    then show ?thesis using 2 by auto
  qed
qed simp

lemma linked_remove_distinct: "distinct (map fst l) \<Longrightarrow> distinct (map fst (linked_remove l k))"
proof (induction l k rule: linked_remove.induct)
  case (2 j w p k)
  then show ?case using linked_remove_keys [of p k] by auto
qed simp

interpretation linked: alist do_linked_get do_linked_set linked_inv "\<lambda>k. 0 \<le> k" "\<lambda>a k. map_of (al_head a) k"
proof
  fix a b :: "'v alist_linked" and k k' :: int and v :: "'v option"
  assume a: "linked_inv a" "0 \<le> k" "do_linked_set a k v = Some b"
  show "linked_inv b"
    using a linked_replace_Some [of "al_head a" k] linked_replace_None [of "al_head a" k] linked_remove_distinct [of "al_head a" k]
    by (fastforce simp: do_linked_set_def linked_inv_def split: option.splits)
  show "map_of (al_head b) k' = (if k' = k then v else map_of (al_head a) k')"
    using a linked_replace_Some [of "al_head a" k] linked_remove_map_of [of "al_head a" k k']
    by (auto simp: do_linked_set_def linked_inv_def split: option.splits)
qed (auto simp: do_linked_get_def do_linked_set_def linked_find_eq)

text \<open>C26 An array and a linked list built from the same pairs answer every lookup alike: with the last
  value given for the key, and with the null pointer when the last one is null or there is none.\<close>

theorem alists_agree:
  assumes "list_all (\<lambda>p. 0 \<le> fst p \<and> fst p < int NUMBER_OF_ATOMS) ps" "0 \<le> k" "k < int NUMBER_OF_ATOMS"
  shows "\<exists>a b. make_linear_alist ps (-1) = Some a \<and> make_linked_alist ps (-1) = Some b \<and>
    do_linear_get a k = do_linked_get b k \<and> do_linked_get b k = Some (Option.bind (map_of (rev ps) k) id)"
proof -
  have nth: "replicate NUMBER_OF_ATOMS None ! nat k = None" using assms(2,3) by (intro nth_replicate) linarith
  obtain a where a: "make_linear_alist ps (-1) = Some a" "linear_inv a"
      "al_table a ! nat k = (case map_of (rev ps) k of None \<Rightarrow> None | Some v \<Rightarrow> v)"
    using linear.addv_lookup [of "\<lparr>al_table = replicate NUMBER_OF_ATOMS None\<rparr>" ps] assms nth
    by (auto simp: make_linear_alist_def linear_inv_def cong: option.case_cong)
  have "list_all (\<lambda>p. 0 \<le> fst p) ps" using assms(1) by (auto simp: list_all_iff)
  then obtain b where b: "make_linked_alist ps (-1) = Some b" "linked_inv b"
      "map_of (al_head b) k = (case map_of (rev ps) k of None \<Rightarrow> None | Some v \<Rightarrow> v)"
    using linked.addv_lookup [of "\<lparr>al_head = []\<rparr>" ps] assms(2)
    by (auto simp: make_linked_alist_def linked_inv_def cong: option.case_cong)
  show ?thesis
    using a b linear.get_lookup [OF a(2), of k] linked.get_lookup [OF b(2) assms(2)] assms(2,3)
    by (auto split: option.splits)
qed

theorem alists_agree_witness:
  "\<exists>a b. make_linear_alist [(3, Some ''x''), (5, Some ''y''), (3, None)] (-1) = Some a \<and>
     make_linked_alist [(3, Some ''x''), (5, Some ''y''), (3, None)] (-1) = Some b \<and> do_linear_get a 3 = do_linked_get b 3
     \<and> do_linked_get b 3 = Some None"
  using alists_agree [of "[(3, Some ''x''), (5, Some ''y''), (3, None)]" 3]
  by (simp add: NUMBER_OF_ATOMS_def atoms_in_def)

end
