(* ===== verification/Queue.thy ===== *)
theory Queue
  imports Lsh_Prelude
begin

text \<open>
  \<open>src/queue.c\<close>: doubly linked queues laid out as in AmigaOS. The queue holds three link words,
  \<open>head\<close>, \<open>tail\<close> and \<open>tailprev\<close>; seen as a node at the address of \<open>head\<close> its links are \<open>head\<close> and
  \<open>tail\<close>, and seen as a node at the address of \<open>tail\<close> they are \<open>tail\<close> and \<open>tailprev\<close>, so the word \<open>tail\<close> is
  shared. The model keeps this overlay: a pointer is a \<open>place\<close>, and \<open>next_cell\<close> and \<open>prev_cell\<close> give the
  memory word its links are in. The queue refines a list of nodes; the locale \<open>deque\<close> is the
  interface its users see.
\<close>

section \<open>Memory\<close>

datatype place = At_head | At_tail | Node nat

datatype cell = HT nat | NP_next nat | NP_prev nat

fun next_cell :: "place \<Rightarrow> cell" where
  "next_cell At_head = HT 0"
| "next_cell At_tail = HT 1"
| "next_cell (Node n) = NP_next n"

fun prev_cell :: "place \<Rightarrow> cell" where
  "prev_cell At_head = HT 1"
| "prev_cell At_tail = HT 2"
| "prev_cell (Node n) = NP_prev n"

text \<open>\<open>links\<close> are the link words, \<open>None\<close> being the null pointer; \<open>objects\<close> is the \<open>o\<close> or \<open>s\<close> field of
  the nodes.\<close>

record 'a lsh_queue =
  links :: "cell \<Rightarrow> place option"
  q_length :: u32
  objects :: "nat \<Rightarrow> 'a"

definition EMPTYP :: "'a lsh_queue \<Rightarrow> bool" where
  "EMPTYP q \<longleftrightarrow> q_length q = 0"

section \<open>Operations on nodes\<close>

definition lsh_queue_init :: "'a lsh_queue \<Rightarrow> 'a lsh_queue" where
  "lsh_queue_init q =
     q\<lparr>links := (links q)(HT 0 := Some At_tail, HT 1 := None, HT 2 := Some At_head), q_length := 0\<rparr>"

definition lsh_queue_is_empty :: "'a lsh_queue \<Rightarrow> bool" where
  "lsh_queue_is_empty q = EMPTYP q"

text \<open>The four assignments of an insertion, in the order of the code, each reading memory as the
  ones before it left it. Storing through a null pointer is undefined.\<close>

definition lsh_queue_add_head :: "'a lsh_queue \<Rightarrow> nat \<Rightarrow> 'a lsh_queue option" where
  "lsh_queue_add_head q n =
     do { let m = links q;
          let m = m(next_cell (Node n) := m (HT 0));
          let m = m(prev_cell (Node n) := Some At_head);
          p \<leftarrow> m (prev_cell (Node n));
          let m = m(next_cell p := Some (Node n));
          x \<leftarrow> m (next_cell (Node n));
          let m = m(prev_cell x := Some (Node n));
          Some (q\<lparr>links := m, q_length := q_length q + 1\<rparr>) }"

definition lsh_queue_add_tail :: "'a lsh_queue \<Rightarrow> nat \<Rightarrow> 'a lsh_queue option" where
  "lsh_queue_add_tail q n =
     do { let m = links q;
          let m = m(next_cell (Node n) := Some At_tail);
          let m = m(prev_cell (Node n) := m (HT 2));
          p \<leftarrow> m (prev_cell (Node n));
          let m = m(next_cell p := Some (Node n));
          x \<leftarrow> m (next_cell (Node n));
          let m = m(prev_cell x := Some (Node n));
          Some (q\<lparr>links := m, q_length := q_length q + 1\<rparr>) }"

definition lsh_queue_remove :: "'a lsh_queue \<Rightarrow> place \<Rightarrow> 'a lsh_queue option" where
  "lsh_queue_remove q n =
     do { let m = links q;
          c_assert (m (next_cell n) \<noteq> None);
          c_assert (m (prev_cell n) \<noteq> None);
          x \<leftarrow> m (next_cell n);
          let m = m(prev_cell x := m (prev_cell n));
          p \<leftarrow> m (prev_cell n);
          let m = m(next_cell p := m (next_cell n));
          Some (q\<lparr>links := m\<rparr>) }"

definition lsh_queue_remove_head :: "'a lsh_queue \<Rightarrow> (place \<times> 'a lsh_queue) option" where
  "lsh_queue_remove_head q =
     do { n \<leftarrow> links q (HT 0);
          c_assert (\<not> EMPTYP q);
          q \<leftarrow> lsh_queue_remove q n;
          Some (n, q\<lparr>q_length := q_length q - 1\<rparr>) }"

definition lsh_queue_remove_tail :: "'a lsh_queue \<Rightarrow> (place \<times> 'a lsh_queue) option" where
  "lsh_queue_remove_tail q =
     do { n \<leftarrow> links q (HT 2);
          c_assert (\<not> EMPTYP q);
          q \<leftarrow> lsh_queue_remove q n;
          Some (n, q\<lparr>q_length := q_length q - 1\<rparr>) }"

definition lsh_queue_peek_head :: "'a lsh_queue \<Rightarrow> place option" where
  "lsh_queue_peek_head q = (if EMPTYP q then None else links q (HT 0))"

definition lsh_queue_peek_tail :: "'a lsh_queue \<Rightarrow> place option" where
  "lsh_queue_peek_tail q = (if EMPTYP q then None else links q (HT 2))"

section \<open>Queues of objects and of strings\<close>

text \<open>\<open>n\<close> is the address of the node just allocated for the element.\<close>

definition make_object_queue_node :: "'a lsh_queue \<Rightarrow> nat \<Rightarrow> 'a \<Rightarrow> 'a lsh_queue" where
  "make_object_queue_node q n x = q\<lparr>objects := (objects q)(n := x)\<rparr>"

definition object_queue_add_head :: "'a lsh_queue \<Rightarrow> nat \<Rightarrow> 'a \<Rightarrow> 'a lsh_queue option" where
  "object_queue_add_head q n x = lsh_queue_add_head (make_object_queue_node q n x) n"

definition object_queue_add_tail :: "'a lsh_queue \<Rightarrow> nat \<Rightarrow> 'a \<Rightarrow> 'a lsh_queue option" where
  "object_queue_add_tail q n x = lsh_queue_add_tail (make_object_queue_node q n x) n"

text \<open>The element of a node; a place inside the queue itself is no node.\<close>

fun object_queue_get_contents :: "'a lsh_queue \<Rightarrow> place \<Rightarrow> 'a option" where
  "object_queue_get_contents q (Node n) = Some (objects q n)"
| "object_queue_get_contents q _ = None"

definition object_queue_remove_head :: "'a lsh_queue \<Rightarrow> ('a \<times> 'a lsh_queue) option" where
  "object_queue_remove_head q =
     do { (n, q) \<leftarrow> lsh_queue_remove_head q; x \<leftarrow> object_queue_get_contents q n; Some (x, q) }"

definition object_queue_remove_tail :: "'a lsh_queue \<Rightarrow> ('a \<times> 'a lsh_queue) option" where
  "object_queue_remove_tail q =
     do { (n, q) \<leftarrow> lsh_queue_remove_tail q; x \<leftarrow> object_queue_get_contents q n; Some (x, q) }"

text \<open>The outer option is undefined behaviour, the inner one the null pointer of an empty queue.\<close>

definition object_queue_peek_head :: "'a lsh_queue \<Rightarrow> 'a option option" where
  "object_queue_peek_head q =
     (if EMPTYP q then Some None
      else do { n \<leftarrow> links q (HT 0); x \<leftarrow> object_queue_get_contents q n; Some (Some x) })"

definition object_queue_peek_tail :: "'a lsh_queue \<Rightarrow> 'a option option" where
  "object_queue_peek_tail q =
     (if EMPTYP q then Some None
      else do { n \<leftarrow> links q (HT 2); x \<leftarrow> object_queue_get_contents q n; Some (Some x) })"

text \<open>\<open>FOR_OBJECT_QUEUE\<close>: from a place to the end of the queue, which is the place with a null
  \<open>next\<close>, or to the first node whose object is the null pointer. In memory that is no queue the loop need not end.\<close>

partial_function (option) for_object_queue :: "'a option lsh_queue \<Rightarrow> place \<Rightarrow> 'a list option" where
  "for_object_queue q p =
     (case links q (next_cell p) of
        None \<Rightarrow> Some []
      | Some nx \<Rightarrow>
          do { object \<leftarrow> object_queue_get_contents q p;
               (case object of
                  None \<Rightarrow> Some []
                | Some x \<Rightarrow> do { xs \<leftarrow> for_object_queue q nx; Some (x # xs) }) })"

definition queue_to_list :: "'a option lsh_queue \<Rightarrow> 'a list option" where
  "queue_to_list q =
     do { p \<leftarrow> links q (HT 0);
          xs \<leftarrow> for_object_queue q p;
          c_assert (of_nat (length xs) = q_length q);
          Some xs }"

text \<open>Queues of strings are the same code over another type of element.\<close>

definition string_queue_add_head :: "bytes lsh_queue \<Rightarrow> nat \<Rightarrow> bytes \<Rightarrow> bytes lsh_queue option" where
  "string_queue_add_head q n s = lsh_queue_add_head (make_object_queue_node q n s) n"

definition string_queue_add_tail :: "bytes lsh_queue \<Rightarrow> nat \<Rightarrow> bytes \<Rightarrow> bytes lsh_queue option" where
  "string_queue_add_tail q n s = lsh_queue_add_tail (make_object_queue_node q n s) n"

definition string_queue_remove_head :: "bytes lsh_queue \<Rightarrow> (bytes \<times> bytes lsh_queue) option" where
  "string_queue_remove_head q =
     do { (n, q) \<leftarrow> lsh_queue_remove_head q; s \<leftarrow> object_queue_get_contents q n; Some (s, q) }"

definition string_queue_remove_tail :: "bytes lsh_queue \<Rightarrow> (bytes \<times> bytes lsh_queue) option" where
  "string_queue_remove_tail q =
     do { (n, q) \<leftarrow> lsh_queue_remove_tail q; s \<leftarrow> object_queue_get_contents q n; Some (s, q) }"

section \<open>The list a queue represents\<close>

definition link :: "(cell \<Rightarrow> place option) \<Rightarrow> place \<Rightarrow> place \<Rightarrow> bool" where
  "link m a b \<longleftrightarrow> m (next_cell a) = Some b \<and> m (prev_cell b) = Some a"

fun linked :: "(cell \<Rightarrow> place option) \<Rightarrow> place list \<Rightarrow> bool" where
  "linked m (a # b # xs) \<longleftrightarrow> link m a b \<and> linked m (b # xs)"
| "linked m _ \<longleftrightarrow> True"

definition represents :: "'a lsh_queue \<Rightarrow> nat list \<Rightarrow> bool" where
  "represents q ns \<longleftrightarrow>
     distinct ns \<and> linked (links q) (At_head # map Node ns @ [At_tail]) \<and> links q (HT 1) = None
     \<and> q_length q = of_nat (length ns) \<and> length ns < 4294967296"

text \<open>The two halves of a queue around a place where a node is, or can be, linked in.\<close>

definition qfront :: "nat list \<Rightarrow> place list" where
  "qfront us = At_head # map Node us"

definition qback :: "nat list \<Rightarrow> place list" where
  "qback vs = map Node vs @ [At_tail]"

lemma qfront_not_Nil [simp]: "qfront us \<noteq> []" by (simp add: qfront_def)
lemma qback_not_Nil [simp]: "qback vs \<noteq> []" by (simp add: qback_def)

lemma linked_Cons: "xs \<noteq> [] \<Longrightarrow> linked m (a # xs) \<longleftrightarrow> link m a (hd xs) \<and> linked m xs"
  by (cases xs) auto

lemma linked_append:
  "xs \<noteq> [] \<Longrightarrow> ys \<noteq> [] \<Longrightarrow> linked m (xs @ ys) \<longleftrightarrow> linked m xs \<and> link m (last xs) (hd ys) \<and> linked m ys"
proof (induction xs)
  case (Cons a xs)
  then show ?case by (cases "xs = []") (auto simp: linked_Cons)
qed simp

lemma linked_cong:
  "(\<And>x. x \<in> set (butlast xs) \<Longrightarrow> m' (next_cell x) = m (next_cell x)) \<Longrightarrow>
   (\<And>y. y \<in> set (tl xs) \<Longrightarrow> m' (prev_cell y) = m (prev_cell y)) \<Longrightarrow> linked m' xs = linked m xs"
  by (induction m xs rule: linked.induct) (auto simp: link_def)

lemma cells_distinct [simp]:
  "next_cell x = next_cell y \<longleftrightarrow> x = y" "prev_cell x = prev_cell y \<longleftrightarrow> x = y"
  "next_cell x = prev_cell y \<longleftrightarrow> x = At_tail \<and> y = At_head"
  "prev_cell y = next_cell x \<longleftrightarrow> x = At_tail \<and> y = At_head"
  by (cases x; cases y; auto)+

declare next_cell.simps [simp del] prev_cell.simps [simp del]

text \<open>What the assignments of an insertion and of a removal do to memory.\<close>

definition inserted :: "(cell \<Rightarrow> place option) \<Rightarrow> place \<Rightarrow> nat \<Rightarrow> place \<Rightarrow> (cell \<Rightarrow> place option)" where
  "inserted m a n b =
     m(next_cell (Node n) := Some b, prev_cell (Node n) := Some a, next_cell a := Some (Node n), prev_cell b := Some (Node n))"

definition removed :: "(cell \<Rightarrow> place option) \<Rightarrow> place \<Rightarrow> place \<Rightarrow> (cell \<Rightarrow> place option)" where
  "removed m a b = m(prev_cell b := Some a, next_cell a := Some b)"

lemma qfront_places: "x \<in> set (butlast (qfront us)) \<Longrightarrow> x \<in> set (qfront us)"
  "x \<in> set (qfront us) \<Longrightarrow> x \<noteq> At_tail" "y \<in> set (tl (qfront us)) \<Longrightarrow> y \<in> Node ` set us"
  by (rule in_set_butlastD) (auto simp: qfront_def)

lemma qback_places: "x \<in> set (butlast (qback vs)) \<Longrightarrow> x \<in> Node ` set vs"
  "x \<in> set (qback vs) \<Longrightarrow> x \<noteq> At_head"
  by (auto simp: qback_def)

lemma tl_back: "y \<in> set (tl (qback vs)) \<Longrightarrow> y \<in> set (qback vs)"
  by (rule list.set_sel(2)) simp_all

lemma last_front: "last (qfront us) \<in> set (qfront us)" "last (qfront us) \<noteq> At_tail"
  using last_in_set [of "qfront us"] qfront_places(2) [of "last (qfront us)" us] by simp_all

lemma hd_back: "hd (qback vs) \<in> set (qback vs)" "hd (qback vs) \<noteq> At_head"
  using hd_in_set [of "qback vs"] qback_places(2) [of "hd (qback vs)" vs] by simp_all

lemma front_back_disjoint: "distinct (us @ vs) \<Longrightarrow> x \<in> set (qfront us) \<Longrightarrow> y \<in> set (qback vs) \<Longrightarrow> x \<noteq> y"
  by (auto simp: qfront_def qback_def)

lemma last_front_distinct: "distinct us \<Longrightarrow> x \<in> set (butlast (qfront us)) \<Longrightarrow> x \<noteq> last (qfront us)"
proof -
  assume "distinct us"
  then have "distinct (qfront us)" by (auto simp: qfront_def distinct_map inj_on_def)
  then show "x \<in> set (butlast (qfront us)) \<Longrightarrow> x \<noteq> last (qfront us)" by (cases "qfront us" rule: rev_cases) auto
qed

lemma hd_back_distinct: "distinct vs \<Longrightarrow> y \<in> set (tl (qback vs)) \<Longrightarrow> y \<noteq> hd (qback vs)"
proof -
  assume "distinct vs"
  then have "distinct (qback vs)" by (auto simp: qback_def distinct_map inj_on_def)
  then show "y \<in> set (tl (qback vs)) \<Longrightarrow> y \<noteq> hd (qback vs)" by (cases "qback vs") auto
qed

lemma linked_insert:
  assumes d: "distinct (us @ n # vs)" and l: "linked m (qfront us @ qback vs)"
  shows "linked (inserted m (last (qfront us)) n (hd (qback vs))) (qfront us @ Node n # qback vs)"
proof -
  let ?a = "last (qfront us)" and ?b = "hd (qback vs)"
  let ?m = "inserted m ?a n ?b"
  have d': "distinct (us @ vs)" "distinct us" "distinct vs" "n \<notin> set us" "n \<notin> set vs" using d by auto
  have ab: "?a \<in> set (qfront us)" "?a \<noteq> At_tail" "?b \<in> set (qback vs)" "?b \<noteq> At_head" "?a \<noteq> ?b"
    using last_front hd_back front_back_disjoint [OF d'(1)] by auto
  have n: "Node n \<notin> set (qfront us)" "Node n \<notin> set (qback vs)" using d' by (auto simp: qfront_def qback_def)
  have "linked ?m (qfront us) = linked m (qfront us)"
  proof (rule linked_cong)
    fix x assume x: "x \<in> set (butlast (qfront us))"
    then have "x \<in> set (qfront us)" "x \<noteq> At_tail" "x \<noteq> ?a"
      using qfront_places(1,2) last_front_distinct [OF d'(2)] by auto
    then show "?m (next_cell x) = m (next_cell x)" using n ab by (auto simp: inserted_def)
  next
    fix y assume y: "y \<in> set (tl (qfront us))"
    then have "y \<in> Node ` set us" "y \<in> set (qfront us)" using qfront_places(3) by (auto dest: list.set_sel(2) [rotated])
    then show "?m (prev_cell y) = m (prev_cell y)"
      using n ab front_back_disjoint [OF d'(1)] by (auto simp: inserted_def)
  qed
  moreover have "linked ?m (qback vs) = linked m (qback vs)"
  proof (rule linked_cong)
    fix x assume x: "x \<in> set (butlast (qback vs))"
    then have "x \<in> Node ` set vs" "x \<in> set (qback vs)" using qback_places(1) by (auto dest: in_set_butlastD)
    then show "?m (next_cell x) = m (next_cell x)"
      using n ab front_back_disjoint [OF d'(1) ab(1), of x] by (auto simp: inserted_def)
  next
    fix y assume y: "y \<in> set (tl (qback vs))"
    then have "y \<in> set (qback vs)" "y \<noteq> At_head" "y \<noteq> ?b"
      using qback_places(2) tl_back hd_back_distinct [OF d'(3)] by auto
    then show "?m (prev_cell y) = m (prev_cell y)" using n ab by (auto simp: inserted_def)
  qed
  moreover have "link ?m ?a (Node n)" "link ?m (Node n) ?b" using ab n by (auto simp: link_def inserted_def)
  ultimately show ?thesis using l by (auto simp: linked_append linked_Cons)
qed


lemma linked_remove:
  assumes d: "distinct (us @ n # vs)" and l: "linked m (qfront us @ Node n # qback vs)"
  shows "linked (removed m (last (qfront us)) (hd (qback vs))) (qfront us @ qback vs)"
proof -
  let ?a = "last (qfront us)" and ?b = "hd (qback vs)"
  let ?m = "removed m ?a ?b"
  have d': "distinct (us @ vs)" "distinct us" "distinct vs" using d by auto
  have "linked ?m (qfront us) = linked m (qfront us)"
  proof (rule linked_cong)
    fix x assume x: "x \<in> set (butlast (qfront us))"
    then show "?m (next_cell x) = m (next_cell x)"
      using qfront_places(2) [OF qfront_places(1) [OF x]] last_front_distinct [OF d'(2) x] hd_back by (auto simp: removed_def)
  next
    fix y assume y: "y \<in> set (tl (qfront us))"
    then have "y \<in> set (qfront us)" by (auto dest: list.set_sel(2) [rotated])
    then have "y \<noteq> ?b" "y \<noteq> At_head"
      using front_back_disjoint [OF d'(1) _ hd_back(1), of y] qfront_places(3) [OF y] by auto
    then show "?m (prev_cell y) = m (prev_cell y)" using last_front by (auto simp: removed_def)
  qed
  moreover have "linked ?m (qback vs) = linked m (qback vs)"
  proof (rule linked_cong)
    fix x assume x: "x \<in> set (butlast (qback vs))"
    then have "x \<in> set (qback vs)" by (rule in_set_butlastD)
    then have "x \<noteq> ?a" "x \<noteq> At_tail"
      using front_back_disjoint [OF d'(1) last_front(1), of x] qback_places(1) [OF x] by auto
    then show "?m (next_cell x) = m (next_cell x)" using hd_back by (auto simp: removed_def)
  next
    fix y assume y: "y \<in> set (tl (qback vs))"
    then show "?m (prev_cell y) = m (prev_cell y)"
      using qback_places(2) [OF tl_back [OF y]] hd_back_distinct [OF d'(3) y] last_front by (auto simp: removed_def)
  qed
  moreover have "link ?m ?a ?b" using last_front hd_back by (auto simp: link_def removed_def)
  ultimately show ?thesis using l by (auto simp: linked_append linked_Cons)
qed

lemma links_around:
  assumes "linked m (qfront us @ Node n # qback vs)"
  shows "m (next_cell (last (qfront us))) = Some (Node n)" "m (prev_cell (Node n)) = Some (last (qfront us))"
    "m (next_cell (Node n)) = Some (hd (qback vs))" "m (prev_cell (hd (qback vs))) = Some (Node n)"
  using assms by (auto simp: linked_append linked_Cons link_def)

lemma represents_alt:
  "represents q ns \<longleftrightarrow> distinct ns \<and> linked (links q) (qfront us @ qback vs) \<and> links q (HT 1) = None
     \<and> q_length q = of_nat (length ns) \<and> length ns < 4294967296" if "ns = us @ vs"
  using that by (simp add: represents_def qfront_def qback_def)

text \<open>The word shared by both ends stays null.\<close>

lemma tail_cell: "HT 1 = next_cell At_tail" "HT 1 = prev_cell At_head" "HT 0 = next_cell At_head" "HT 2 = prev_cell At_tail"
  by (simp_all add: next_cell.simps prev_cell.simps)


lemma ends [simp]: "last (qfront []) = At_head" "hd (qback []) = At_tail"
  by (simp_all add: qfront_def qback_def)

lemma inserted_null: "last (qfront us) \<noteq> At_tail \<Longrightarrow> inserted m (last (qfront us)) n (hd (qback vs)) (HT 1) = m (HT 1)"
  using hd_back(2) [of vs] unfolding tail_cell(1) by (auto simp: inserted_def)

lemma removed_null: "removed m (last (qfront us)) (hd (qback vs)) (HT 1) = m (HT 1)"
  using last_front(2) [of us] hd_back(2) [of vs] unfolding tail_cell(1) by (auto simp: removed_def)

lemma add_head_links:
  assumes "linked (links q) (qfront [] @ qback ns)" "n \<notin> set ns"
  shows "lsh_queue_add_head q n =
    Some (q\<lparr>links := inserted (links q) At_head n (hd (qback ns)), q_length := q_length q + 1\<rparr>)"
proof -
  have "links q (HT 0) = Some (hd (qback ns))"
    using assms(1) by (simp add: linked_append link_def tail_cell(3))
  moreover have "hd (qback ns) \<noteq> At_head" "hd (qback ns) \<noteq> Node n"
    using hd_back [of ns] assms(2) by (auto simp: qback_def)
  ultimately show ?thesis
    by (simp add: lsh_queue_add_head_def inserted_def Let_def tail_cell(3))
qed

lemma add_tail_links:
  assumes "linked (links q) (qfront ns @ qback [])" "n \<notin> set ns"
  shows "lsh_queue_add_tail q n =
    Some (q\<lparr>links := inserted (links q) (last (qfront ns)) n At_tail, q_length := q_length q + 1\<rparr>)"
proof -
  have "links q (HT 2) = Some (last (qfront ns))"
    using assms(1) by (simp add: linked_append link_def tail_cell(4))
  moreover have "last (qfront ns) \<noteq> At_tail" "last (qfront ns) \<noteq> Node n"
    using last_front [of ns] assms(2) by (auto simp: qfront_def split: if_splits)
  ultimately show ?thesis
    by (simp add: lsh_queue_add_tail_def inserted_def Let_def tail_cell(4))
qed

lemma remove_links:
  assumes "linked (links q) (qfront us @ Node n # qback vs)"
  shows "lsh_queue_remove q (Node n) = Some (q\<lparr>links := removed (links q) (last (qfront us)) (hd (qback vs))\<rparr>)"
  using links_around [OF assms] last_front [of us] hd_back [of vs]
  by (auto simp: lsh_queue_remove_def removed_def Let_def)

section \<open>Every operation refines its list operation\<close>

lemma add_head_represents:
  assumes "represents q ns" "n \<notin> set ns" "length ns + 1 < 4294967296"
  shows "\<exists>q'. lsh_queue_add_head q n = Some q' \<and> represents q' (n # ns) \<and> objects q' = objects q"
proof -
  have q: "distinct ns" "linked (links q) (qfront [] @ qback ns)" "links q (HT 1) = None" "q_length q = of_nat (length ns)"
    using assms(1) represents_alt [of ns "[]" ns q] by auto
  let ?m = "inserted (links q) At_head n (hd (qback ns))"
  have "linked ?m (qfront [] @ qback (n # ns))"
    using linked_insert [of "[]" n ns "links q"] q assms(2) by (simp add: qback_def)
  moreover have "?m (HT 1) = None" using inserted_null [of "[]" "links q" n ns] q(3) by simp
  ultimately show ?thesis
    using add_head_links [OF q(2) assms(2)] q assms(2,3)
    by (simp add: represents_alt [of "n # ns" "[]" "n # ns"] add.commute)
qed

lemma add_tail_represents:
  assumes "represents q ns" "n \<notin> set ns" "length ns + 1 < 4294967296"
  shows "\<exists>q'. lsh_queue_add_tail q n = Some q' \<and> represents q' (ns @ [n]) \<and> objects q' = objects q"
proof -
  have q: "distinct ns" "linked (links q) (qfront ns @ qback [])" "links q (HT 1) = None" "q_length q = of_nat (length ns)"
    using assms(1) represents_alt [of ns ns "[]" q] by auto
  let ?m = "inserted (links q) (last (qfront ns)) n At_tail"
  have "linked ?m (qfront (ns @ [n]) @ qback [])"
    using linked_insert [of ns n "[]" "links q"] q assms(2) by (simp add: qfront_def)
  moreover have "?m (HT 1) = None" using inserted_null [of ns "links q" n "[]"] last_front q(3) by simp
  ultimately show ?thesis
    using add_tail_links [OF q(2) assms(2)] q assms(2,3)
    by (simp add: represents_alt [of "ns @ [n]" "ns @ [n]" "[]"] add.commute)
qed

text \<open>Unlinking any node; the length is corrected by the caller.\<close>

lemma remove_represents:
  assumes "represents q (us @ n # vs)"
  shows "\<exists>q'. lsh_queue_remove q (Node n) = Some q' \<and> represents (q'\<lparr>q_length := q_length q' - 1\<rparr>) (us @ vs)
    \<and> objects q' = objects q"
proof -
  have l: "linked (links q) (qfront us @ Node n # qback vs)" and d: "distinct (us @ n # vs)" and
    q: "links q (HT 1) = None" "q_length q = of_nat (length (us @ n # vs))" "length (us @ n # vs) < 4294967296"
    using assms represents_alt [of "us @ n # vs" us "n # vs" q] by (auto simp: qback_def)
  have "linked (removed (links q) (last (qfront us)) (hd (qback vs))) (qfront us @ qback vs)"
    using linked_remove [OF d l] .
  then show ?thesis
    using remove_links [OF l] d q removed_null [of "links q" us vs]
    by (simp add: represents_alt [of "us @ vs" us vs])
qed


text \<open>A queue holds a list of nodes, each with its element.\<close>

definition holds :: "'a lsh_queue \<Rightarrow> (nat \<times> 'a) list \<Rightarrow> bool" where
  "holds q l \<longleftrightarrow> represents q (map fst l) \<and> (\<forall>(n, x) \<in> set l. objects q n = x)"

lemma represents_objects [simp]: "represents (q\<lparr>objects := f\<rparr>) ns = represents q ns"
  by (simp add: represents_def)

lemma represents_empty: "represents q ns \<Longrightarrow> EMPTYP q \<longleftrightarrow> ns = []"
  by (auto simp: represents_def EMPTYP_def unat_u32_of_nat simp flip: unat_eq_0)

lemma object_queue_add_head_holds:
  assumes "holds q l" "n \<notin> fst ` set l" "length l + 1 < 4294967296"
  shows "\<exists>q'. object_queue_add_head q n x = Some q' \<and> holds q' ((n, x) # l)"
proof -
  let ?q = "make_object_queue_node q n x"
  have "represents ?q (map fst l)" using assms(1) by (simp add: holds_def make_object_queue_node_def)
  then obtain q' where q': "lsh_queue_add_head ?q n = Some q'" "represents q' (map fst ((n, x) # l))" "objects q' = objects ?q"
    using add_head_represents [of ?q "map fst l" n] assms(2,3) by auto
  have "objects q' m = y" if "(m, y) \<in> set ((n, x) # l)" for m y
    using that assms(1,2) q'(3) by (auto simp: holds_def make_object_queue_node_def image_iff)
  then show ?thesis using q' by (auto simp: holds_def object_queue_add_head_def)
qed

lemma object_queue_add_tail_holds:
  assumes "holds q l" "n \<notin> fst ` set l" "length l + 1 < 4294967296"
  shows "\<exists>q'. object_queue_add_tail q n x = Some q' \<and> holds q' (l @ [(n, x)])"
proof -
  let ?q = "make_object_queue_node q n x"
  have "represents ?q (map fst l)" using assms(1) by (simp add: holds_def make_object_queue_node_def)
  then obtain q' where q': "lsh_queue_add_tail ?q n = Some q'" "represents q' (map fst (l @ [(n, x)]))" "objects q' = objects ?q"
    using add_tail_represents [of ?q "map fst l" n] assms(2,3) by auto
  have "objects q' m = y" if "(m, y) \<in> set (l @ [(n, x)])" for m y
    using that assms(1,2) q'(3) by (auto simp: holds_def make_object_queue_node_def image_iff)
  then show ?thesis using q' by (auto simp: holds_def object_queue_add_tail_def)
qed

lemma object_queue_remove_head_holds:
  assumes "holds q ((n, x) # l)"
  shows "\<exists>q'. object_queue_remove_head q = Some (x, q') \<and> holds q' l"
proof -
  have r: "represents q ([] @ n # map fst l)" using assms by (simp add: holds_def)
  have "links q (HT 0) = Some (Node n)"
    using r by (simp add: represents_def link_def tail_cell(3))
  then show ?thesis
    using remove_represents [OF r] represents_empty [OF r] assms
    by (auto simp: object_queue_remove_head_def lsh_queue_remove_head_def holds_def)
qed

lemma object_queue_remove_tail_holds:
  assumes "holds q (l @ [(n, x)])"
  shows "\<exists>q'. object_queue_remove_tail q = Some (x, q') \<and> holds q' l"
proof -
  have r: "represents q (map fst l @ n # [])" using assms by (simp add: holds_def)
  have "linked (links q) (qfront (map fst l) @ Node n # qback [])"
    using r represents_alt [of "map fst l @ [n]" "map fst l" "[n]" q] by (simp add: qback_def)
  then have "links q (HT 2) = Some (Node n)"
    using links_around(4) [of "links q" "map fst l" n "[]"] by (simp add: tail_cell(4))
  then show ?thesis
    using remove_represents [OF r] represents_empty [OF r] assms
    by (auto simp: object_queue_remove_tail_def lsh_queue_remove_tail_def holds_def)
qed

lemma remove_from_empty:
  "holds q [] \<Longrightarrow> object_queue_remove_head q = None \<and> object_queue_remove_tail q = None"
  using represents_empty [of q "[]"]
  by (auto simp: holds_def object_queue_remove_head_def object_queue_remove_tail_def lsh_queue_remove_head_def
      lsh_queue_remove_tail_def c_assert_bind split: Option.bind_splits)

lemma init_holds: "holds (lsh_queue_init q) []"
  by (simp add: holds_def represents_def lsh_queue_init_def link_def next_cell.simps prev_cell.simps)


section \<open>The interface\<close>

datatype 'a queue_op = Add_head nat 'a | Add_tail nat 'a | Remove_head | Remove_tail

text \<open>What an operation means for the list of nodes and elements: \<open>None\<close> for a removal from an empty
  queue and for linking in a node that is linked in already.\<close>

fun list_op :: "'a queue_op \<Rightarrow> (nat \<times> 'a) list \<Rightarrow> ('a option \<times> (nat \<times> 'a) list) option" where
  "list_op (Add_head n x) l = (if n \<in> fst ` set l then None else Some (None, (n, x) # l))"
| "list_op (Add_tail n x) l = (if n \<in> fst ` set l then None else Some (None, l @ [(n, x)]))"
| "list_op Remove_head l = (case l of [] \<Rightarrow> None | (n, x) # l' \<Rightarrow> Some (Some x, l'))"
| "list_op Remove_tail l = (if l = [] then None else Some (Some (snd (last l)), butlast l))"

primrec run_ops :: "('o \<Rightarrow> 's \<Rightarrow> ('r \<times> 's) option) \<Rightarrow> 'o list \<Rightarrow> 's \<Rightarrow> ('r list \<times> 's) option" where
  "run_ops f [] s = Some ([], s)"
| "run_ops f (c # cs) s =
     do { (r, s) \<leftarrow> f c s; (rs, s) \<leftarrow> run_ops f cs s; Some (r # rs, s) }"

text \<open>An implementation, \<open>exec\<close>, that follows the list operations while \<open>rel\<close> relates its state to a list.\<close>

locale deque =
  fixes exec :: "'a queue_op \<Rightarrow> 'q \<Rightarrow> ('a option \<times> 'q) option"
    and rel :: "'q \<Rightarrow> (nat \<times> 'a) list \<Rightarrow> bool"
    and fresh :: 'q
  assumes fresh_rel: "rel fresh []"
    and exec_list: "rel q l \<Longrightarrow> length l + 1 < 4294967296 \<Longrightarrow> list_op c l = Some (r, l') \<Longrightarrow>
      \<exists>q'. exec c q = Some (r, q') \<and> rel q' l'"
begin

lemma list_op_length: "list_op c l = Some (r, l') \<Longrightarrow> length l' \<le> length l + 1"
  by (cases c) (auto split: if_splits list.splits)

lemma run_refines:
  "rel q l \<Longrightarrow> length l + length cs < 4294967296 \<Longrightarrow> run_ops list_op cs l = Some (rs, l') \<Longrightarrow>
   \<exists>q'. run_ops exec cs q = Some (rs, q') \<and> rel q' l'"
proof (induction cs arbitrary: q l rs)
  case (Cons c cs)
  then obtain r l1 rs' where l1: "list_op c l = Some (r, l1)" "run_ops list_op cs l1 = Some (rs', l')" "rs = r # rs'"
    by (auto simp: bind_eq_Some_conv)
  then obtain q1 where q1: "exec c q = Some (r, q1)" "rel q1 l1"
    using exec_list [OF Cons.prems(1) _ l1(1)] Cons.prems(2) by auto
  then show ?case
    using Cons.IH [OF q1(2) _ l1(2)] list_op_length [OF l1(1)] Cons.prems(2) l1(3) by auto
qed auto

text \<open>First in, first out.\<close>

lemma fifo_list: "distinct (map fst (l @ m)) \<Longrightarrow> run_ops list_op (map (\<lambda>(n, x). Add_tail n x) m) l = Some (map (\<lambda>_. None) m, l @ m)"
proof (induction m arbitrary: l)
  case (Cons p m)
  obtain n x where p: "p = (n, x)" by force
  then have "run_ops list_op (map (\<lambda>(n, x). Add_tail n x) m) (l @ [(n, x)]) = Some (map (\<lambda>_. None) m, (l @ [(n, x)]) @ m)"
    using Cons by auto
  then show ?case using Cons.prems p by auto
qed simp

lemma drain_list: "run_ops list_op (map (\<lambda>_. Remove_head) l) l = Some (map (Some \<circ> snd) l, [])"
  by (induction l) auto

end

fun queue_exec :: "'a queue_op \<Rightarrow> 'a lsh_queue \<Rightarrow> ('a option \<times> 'a lsh_queue) option" where
  "queue_exec (Add_head n x) q = map_option (Pair None) (object_queue_add_head q n x)"
| "queue_exec (Add_tail n x) q = map_option (Pair None) (object_queue_add_tail q n x)"
| "queue_exec Remove_head q = map_option (\<lambda>(x, q). (Some x, q)) (object_queue_remove_head q)"
| "queue_exec Remove_tail q = map_option (\<lambda>(x, q). (Some x, q)) (object_queue_remove_tail q)"

interpretation object_queue: deque queue_exec holds "lsh_queue_init q0" for q0
proof
  fix q :: "'a lsh_queue" and l c r l'
  assume q: "holds q l" "length l + 1 < 4294967296" "list_op c l = Some (r, l')"
  show "\<exists>q'. queue_exec c q = Some (r, q') \<and> holds q' l'"
  proof (cases c)
    case (Add_head n x)
    then show ?thesis using q object_queue_add_head_holds [OF q(1) _ q(2)] by (auto split: if_splits)
  next
    case (Add_tail n x)
    then show ?thesis using q object_queue_add_tail_holds [OF q(1) _ q(2)] by (auto split: if_splits)
  next
    case Remove_head
    then show ?thesis using q by (cases l) (auto dest: object_queue_remove_head_holds)
  next
    case Remove_tail
    then show ?thesis using q by (cases l rule: rev_cases) (auto dest: object_queue_remove_tail_holds)
  qed
qed (rule init_holds)

lemma for_object_queue_holds:
  "linked (links q) (map Node (map fst l) @ [At_tail]) \<Longrightarrow> links q (HT 1) = None \<Longrightarrow> (\<forall>(n, x) \<in> set l. objects q n = x) \<Longrightarrow>
   for_object_queue q (hd (map Node (map fst l) @ [At_tail])) = Some (map the (takeWhile (\<lambda>x. x \<noteq> None) (map snd l)))"
proof (induction l)
  case Nil
  then show ?case by (subst for_object_queue.simps) (simp add: next_cell.simps)
next
  case (Cons p l)
  then show ?case
    by (subst for_object_queue.simps) (auto simp: linked_Cons link_def split: option.splits)
qed

lemma run_list_op_length: "run_ops list_op cs l = Some (rs, l') \<Longrightarrow> length l' \<le> length l + length cs"
proof (induction cs arbitrary: l rs)
  case (Cons c cs)
  then obtain r l1 rs' where "list_op c l = Some (r, l1)" "run_ops list_op cs l1 = Some (rs', l')"
    by (auto simp: bind_eq_Some_conv)
  then show ?case using Cons.IH [of l1 rs'] object_queue.list_op_length [of c l r l1] by simp
qed simp

lemma takeWhile_shorter: "x \<in> set xs \<Longrightarrow> \<not> P x \<Longrightarrow> length (takeWhile P xs) < length xs"
  by (induction xs) auto

text \<open>C22 Any sequence of additions and removals at both ends behaves as on a plain list: starting from an
  initialised queue, with nodes that are not linked in twice, no removal from an empty queue and
  fewer than \<open>2 ^ 32\<close> operations, no assertion fails, every removal returns the element the list
  gives, and walking the links afterwards finds the elements of the list in order, unless one of them is the
  null pointer: then the walk ends early and the assertion on the number of elements fails.\<close>

theorem queue_refines_list:
  assumes "run_ops list_op cs [] = Some (rs, l)" "length cs < 4294967296"
  shows "\<exists>q. run_ops queue_exec cs (lsh_queue_init q0) = Some (rs, q)
    \<and> queue_to_list q = (if None \<in> snd ` set l then None else Some (map (the \<circ> snd) l))"
proof -
  obtain q where q: "run_ops queue_exec cs (lsh_queue_init q0) = Some (rs, q)" "holds q l"
    using object_queue.run_refines [OF init_holds, of cs rs l] assms by auto
  have "represents q (map fst l)" using q(2) by (simp add: holds_def)
  then have linked: "linked (links q) (qfront [] @ qback (map fst l))" "links q (HT 1) = None" "q_length q = of_nat (length l)"
    using represents_alt [of "map fst l" "[]" "map fst l" q] by auto
  let ?found = "takeWhile (\<lambda>x. x \<noteq> None) (map snd l)"
  have walk: "links q (HT 0) = Some (hd (qback (map fst l)))" "for_object_queue q (hd (qback (map fst l))) = Some (map the ?found)"
    using linked q(2) for_object_queue_holds [of q l] by (auto simp: linked_append link_def tail_cell(3) holds_def qback_def)
  have len: "length l < 4294967296" using run_list_op_length [OF assms(1)] assms(2) by simp
  have "queue_to_list q = (if None \<in> snd ` set l then None else Some (map (the \<circ> snd) l))"
  proof (cases "None \<in> snd ` set l")
    case True
    then have "length ?found < length l" using takeWhile_shorter [of None "map snd l"] by auto
    then have "(of_nat (length ?found) :: u32) \<noteq> of_nat (length l)"
      using len unat_u32_of_nat [of "length ?found"] unat_u32_of_nat [of "length l"] by auto
    then show ?thesis using True walk linked(3) by (simp add: queue_to_list_def)
  next
    case False
    then have "?found = map snd l" by (force simp: takeWhile_eq_all_conv)
    then show ?thesis using False walk(1) walk(2) [unfolded \<open>?found = _\<close>] linked(3) by (simp add: queue_to_list_def)
  qed
  then show ?thesis using q(1) by blast
qed

theorem queue_refines_list_witness:
  "\<exists>q. run_ops queue_exec [Add_tail 1 (Some ''a''), Add_tail 2 (Some ''b''), Add_head 3 None, Remove_tail, Remove_head]
         (lsh_queue_init \<lparr>links = \<lambda>_. None, q_length = 7, objects = \<lambda>_. None\<rparr>) = Some ([None, None, None, Some (Some ''b''), Some None], q)
       \<and> queue_to_list q = Some [''a'']"
  using queue_refines_list [of "[Add_tail 1 (Some ''a''), Add_tail 2 (Some ''b''), Add_head 3 None, Remove_tail, Remove_head]"
      "[None, None, None, Some (Some ''b''), Some None]" "[(1, Some ''a'')]" "\<lparr>links = \<lambda>_. None, q_length = 7, objects = \<lambda>_. None\<rparr>"]
  by simp

end
