(* ===== verification/Buffer_Window.thy ===== *)
theory Buffer_Window
  imports Lsh_String
begin

text \<open>
  The input and output buffers of a connection use a string as a sliding window: a start and a
  length select the bytes that are in use, bytes are consumed at the front and appended at the end,
  and the window is moved to the front of the string when it gets too close to the end. The lemmas here
  are shared by the buffers of \<open>src/ssh_read.c\<close> and \<open>src/ssh_write.c\<close>.
\<close>

definition window :: "lsh_string \<Rightarrow> u32 \<Rightarrow> u32 \<Rightarrow> bytes" where
  "window b st n = slice (unat st) (unat n) (str_data b)"

text \<open>Strings of \<open>2 ^ 31\<close> bytes and more are excluded: sums of offsets are computed in 32 bits.\<close>

definition window_ok :: "lsh_string \<Rightarrow> u32 \<Rightarrow> u32 \<Rightarrow> bool" where
  "window_ok b st n \<longleftrightarrow> nul_terminated b \<and> unat (str_length b) < 2147483648
     \<and> unat st + unat n \<le> unat (str_length b)"

lemma length_window: "window_ok b st n \<Longrightarrow> length (window b st n) = unat n"
  by (auto simp: window_ok_def window_def nul_terminated_def)

lemma window_empty [simp]: "window b st 0 = []"
  by (simp add: window_def)

lemma window_nth: "window_ok b st n \<Longrightarrow> i < unat n \<Longrightarrow> window b st n ! i = str_data b ! (unat st + i)"
  by (auto simp: window_ok_def window_def nul_terminated_def)

lemma window_take:
  "window_ok b st n \<Longrightarrow> k \<le> unat n \<Longrightarrow> take k (drop (unat st) (str_data b)) = take k (window b st n)"
  by (simp add: window_def slice_def min_absorb1)

lemma window_alloc: "unat n < 2147483648 \<Longrightarrow> window_ok (lsh_string_alloc junk n) 0 0"
  by (simp add: window_ok_def)

lemma window_drop:
  assumes "window_ok b st n" "k \<le> unat n"
  shows "window_ok b (st + of_nat k) (n - of_nat k)" "window b (st + of_nat k) (n - of_nat k) = drop k (window b st n)"
    "unat (n - of_nat k) = unat n - k"
proof -
  have k: "unat (of_nat k :: u32) = k"
    using assms(2) unat_u32_bound [of n] by (intro unat_u32_of_nat) (simp del: unat_u32_bound)
  have start: "unat (st + of_nat k) = unat st + k"
    using assms by (intro unat_u32_add_nat [where b = "str_length b"]) (simp add: window_ok_def)
  show len: "unat (n - of_nat k) = unat n - k" using assms(2) k by (simp add: unat_u32_diff)
  show "window_ok b (st + of_nat k) (n - of_nat k)" "window b (st + of_nat k) (n - of_nat k) = drop k (window b st n)"
    using assms start len by (simp_all add: window_ok_def window_def drop_slice)
qed

lemma window_drop_word:
  assumes "window_ok b st n" "unat k \<le> unat n"
  shows "window_ok b (st + k) (n - k)" "window b (st + k) (n - k) = drop (unat k) (window b st n)"
    "unat (n - k) = unat n - unat k"
  using window_drop [OF assms] by simp_all

definition moved :: "lsh_string \<Rightarrow> u32 \<Rightarrow> u32 \<Rightarrow> lsh_string" where
  "moved b st n = b\<lparr>str_data := overwrite 0 (window b st n) (str_data b)\<rparr>"

lemma window_move:
  assumes "window_ok b st n"
  shows "st \<noteq> 0 \<Longrightarrow> lsh_string_move b 0 n st = Some (moved b st n)"
    "window_ok (moved b st n) 0 n" "window (moved b st n) 0 n = window b st n" "str_length (moved b st n) = str_length b"
proof -
  have "room b 0 n" "unat st + unat n \<le> length (str_data b)"
    using assms by (auto simp: window_ok_def room_def nul_terminated_def)
  then show "st \<noteq> 0 \<Longrightarrow> lsh_string_move b 0 n st = Some (moved b st n)"
    using assms by (simp add: lsh_string_move_eq window_ok_def moved_def window_def)
  have "nul_terminated (moved b st n)"
    unfolding moved_def using assms length_window [OF assms] by (intro nul_terminated_overwrite) (auto simp: window_ok_def)
  then show "window_ok (moved b st n) 0 n" using assms by (simp add: window_ok_def moved_def)
  show "window (moved b st n) 0 n = window b st n"
    using slice_overwrite_same [of 0 "window b st n" "str_data b"] length_window [OF assms] assms
    by (simp add: moved_def window_ok_def nul_terminated_def window_def [of _ 0])
qed (simp add: moved_def)

lemma window_append:
  assumes "window_ok b st n" "unat st + unat n + length d \<le> unat (str_length b)"
  defines "b' \<equiv> b\<lparr>str_data := overwrite (unat st + unat n) d (str_data b)\<rparr>"
  shows "window_ok b' st (n + of_nat (length d))" "window b' st (n + of_nat (length d)) = window b st n @ d"
    "unat (st + n) = unat st + unat n" "unat (n + of_nat (length d)) = unat n + length d"
proof -
  have nul: "nul_terminated b" and small: "length d < 4294967296" using assms by (auto simp: window_ok_def)
  have sum: "unat (st + n) = unat st + unat n" "unat (n + of_nat (length d)) = unat n + length d"
    using assms(1,2) small by (simp_all add: window_ok_def unat_u32_mod unat_u32_of_nat)
  then show "unat (st + n) = unat st + unat n" "unat (n + of_nat (length d)) = unat n + length d" by auto
  have "nul_terminated b'" unfolding b'_def using assms(2) nul by (intro nul_terminated_overwrite) auto
  then show "window_ok b' st (n + of_nat (length d))" using assms(1,2) sum by (simp add: window_ok_def b'_def)
  have "unat (str_length b) < length (str_data b)" using nul by (simp add: nul_terminated_def)
  then have "slice (unat st) (unat n + length d) (str_data b') = window b st n @ d"
    using assms(2) slice_overwrite_same [of "unat st + unat n" d "str_data b"]
    by (simp add: slice_append_split window_def slice_overwrite_before b'_def)
  then show "window b' st (n + of_nat (length d)) = window b st n @ d" using sum by (simp add: window_def)
qed

text \<open>Storing bytes inside the window.\<close>

lemma window_slice:
  "window_ok b st n \<Longrightarrow> i + k \<le> unat n \<Longrightarrow> slice (unat st + i) k (str_data b) = slice i k (window b st n)"
  by (simp add: window_def slice_slice)

lemma slice_overwrite_inside:
  assumes "i + length out \<le> n" "st + n \<le> length xs"
  shows "slice st n (overwrite (st + i) out xs) = overwrite i out (slice st n xs)"
proof (rule nth_equalityI)
  show "length (slice st n (overwrite (st + i) out xs)) = length (overwrite i out (slice st n xs))" using assms by simp
  fix j assume "j < length (slice st n (overwrite (st + i) out xs))"
  then have j: "j < n" by simp
  have o: "overwrite k ys zs ! m = (if k \<le> m \<and> m < k + length ys then ys ! (m - k) else zs ! m)"
    if "k + length ys \<le> length zs" "m < length zs" for k m and ys zs :: "'a list"
    using that by (auto simp: overwrite_def nth_append)
  show "slice st n (overwrite (st + i) out xs) ! j = overwrite i out (slice st n xs) ! j"
    using assms j by (subst o) (auto simp: o)
qed

lemma window_overwrite:
  assumes "window_ok b st n" "i + length out \<le> unat n"
  defines "b' \<equiv> b\<lparr>str_data := overwrite (unat st + i) out (str_data b)\<rparr>"
  shows "window_ok b' st n" "window b' st n = overwrite i out (window b st n)"
proof -
  have "nul_terminated b'"
    unfolding b'_def using assms(1,2) by (intro nul_terminated_overwrite) (auto simp: window_ok_def)
  then show "window_ok b' st n" using assms(1) by (simp add: window_ok_def b'_def)
  show "window b' st n = overwrite i out (window b st n)"
    using assms(1,2) slice_overwrite_inside [of i out "unat n" "unat st" "str_data b"]
    by (simp add: window_def b'_def window_ok_def nul_terminated_def)
qed

end
