(* ===== verification/Ssh_Write.thy ===== *)
theory Ssh_Write
  imports Buffer_Window
begin

text \<open>
  \<open>src/ssh_write.c\<close>: the output buffer of a connection. Data goes to the file descriptor directly
  when possible and is buffered otherwise. The results of the system calls \<open>write\<close> and \<open>writev\<close> are an
  argument of the operations, a list that each call consumes from; a call with no result left
  blocks for ever. The bytes accepted by the system are part of the result, so that the lemmas can
  state what the peer receives: nothing is lost, repeated or reordered.
\<close>

section \<open>System calls\<close>

datatype errno = EINTR | EWOULDBLOCK | EOVERFLOW | Errno nat

datatype io_result = Done nat | Fail errno

text \<open>The results of the calls to come, each as a function of the number of bytes it is asked to write.\<close>

type_synonym system_calls = "(nat \<Rightarrow> io_result) list"

text \<open>\<open>do res = write(...); while (res < 0 && errno == EINTR)\<close>\<close>

fun retry :: "nat \<Rightarrow> system_calls \<Rightarrow> (io_result \<times> system_calls) option" where
  "retry n [] = None"
| "retry n (f # fs) = (if f n = Fail EINTR then retry n fs else Some (f n, fs))"

text \<open>A system call accepts at least one and at most the given number of bytes, or fails.\<close>

fun io_ok :: "nat \<Rightarrow> io_result \<Rightarrow> bool" where
  "io_ok n (Done k) \<longleftrightarrow> 0 < k \<and> k \<le> n"
| "io_ok n (Fail e) \<longleftrightarrow> True"

definition io_legal :: "system_calls \<Rightarrow> bool" where
  "io_legal ios \<longleftrightarrow> (\<forall>f \<in> set ios. \<forall>n > 0. io_ok n (f n))"

section \<open>The buffer\<close>

record ssh_write_state =
  w_buffer :: lsh_string
  w_start :: u32
  w_length :: u32

definition WRITE_MAX :: u32 where
  "WRITE_MAX = 0x4000"

definition init_ssh_write_state :: "(nat \<Rightarrow> byte) \<Rightarrow> u32 \<Rightarrow> ssh_write_state" where
  "init_ssh_write_state junk buffer_size =
     \<lparr>w_buffer = lsh_string_alloc junk buffer_size, w_start = 0, w_length = 0\<rparr>"

definition make_ssh_write_state :: "(nat \<Rightarrow> byte) \<Rightarrow> u32 \<Rightarrow> ssh_write_state" where
  "make_ssh_write_state junk buffer_size = init_ssh_write_state junk buffer_size"

text \<open>What an operation leaves: the return value, \<open>errno\<close> if it was set, the bytes the system
  accepted, the new state and the results of later system calls.\<close>

record write_result =
  w_ret :: u32
  w_errno :: "errno option"
  w_sent :: bytes
  w_state :: ssh_write_state
  w_ios :: "system_calls"

definition ssh_write_flush :: "ssh_write_state \<Rightarrow> u32 \<Rightarrow> system_calls \<Rightarrow> write_result option" where
  "ssh_write_flush self to_write ios =
     do { let to_write = (if to_write = 0 then min (w_length self) WRITE_MAX else to_write);
          c_assert (to_write > 0);
          c_assert (to_write \<le> w_length self);
          let buffer = drop (unat (w_start self)) (lsh_string_data (w_buffer self));
          (res, ios) \<leftarrow> retry (unat to_write) ios;
          (case res of
             Fail e \<Rightarrow> Some \<lparr>w_ret = 0, w_errno = Some e, w_sent = [], w_state = self, w_ios = ios\<rparr>
           | Done k \<Rightarrow>
               Some \<lparr>w_ret = of_nat k, w_errno = None, w_sent = take k buffer,
                     w_state = self\<lparr>w_start := w_start self + of_nat k, w_length := w_length self - of_nat k\<rparr>,
                     w_ios = ios\<rparr>) }"

definition ssh_write_enqueue :: "ssh_write_state \<Rightarrow> u32 \<Rightarrow> bytes \<Rightarrow> (bool \<times> ssh_write_state) option" where
  "ssh_write_enqueue self l d =
     do { let sz = lsh_string_length (w_buffer self);
          if l + w_length self > sz then Some (False, self)
          else do {
            self \<leftarrow> (if l + w_length self + w_start self > sz
                     then do { b \<leftarrow> lsh_string_move (w_buffer self) 0 (w_length self) (w_start self);
                               Some (self\<lparr>w_buffer := b, w_start := 0\<rparr>) }
                     else Some self);
            b \<leftarrow> lsh_string_write (w_buffer self) (w_start self + w_length self) l d;
            Some (True, self\<lparr>w_buffer := b, w_length := w_length self + l\<rparr>) } }"

text \<open>The tail of \<open>ssh_write_data\<close>: what is left of the data is buffered.\<close>

definition enqueue_rest :: "ssh_write_state \<Rightarrow> u32 \<Rightarrow> bytes \<Rightarrow> (bool \<times> ssh_write_state) option" where
  "enqueue_rest self l d = (if l > 0 then ssh_write_enqueue self l d else Some (True, self))"

definition write_io_error ::
  "errno \<Rightarrow> ssh_write_state \<Rightarrow> u32 \<Rightarrow> bytes \<Rightarrow> system_calls \<Rightarrow> write_result option" where
  "write_io_error e self l d ios =
     do { (ok, self) \<leftarrow> enqueue_rest self l d;
          Some \<lparr>w_ret = 0, w_errno = Some (if ok then e else EOVERFLOW), w_sent = [], w_state = self, w_ios = ios\<rparr> }"

definition write_done ::
  "nat \<Rightarrow> bytes \<Rightarrow> ssh_write_state \<Rightarrow> u32 \<Rightarrow> bytes \<Rightarrow> system_calls \<Rightarrow> write_result option" where
  "write_done done sent self l d ios =
     do { c_assert (done > 0);
          (ok, self) \<leftarrow> enqueue_rest self l d;
          Some \<lparr>w_ret = (if ok then of_nat done else 0), w_errno = (if ok then None else Some EOVERFLOW),
                w_sent = sent, w_state = self, w_ios = ios\<rparr> }"

text \<open>The three ways to write: from the buffer only, from the data only, or both at once.\<close>

definition ssh_write_data ::
  "ssh_write_state \<Rightarrow> u32 \<Rightarrow> u32 \<Rightarrow> bytes \<Rightarrow> system_calls \<Rightarrow> write_result option" where
  "ssh_write_data self to_write l d ios =
     do { let to_write = (if to_write = 0 then min (w_length self + l) WRITE_MAX else to_write);
          c_assert (to_write > 0);
          let buffer = drop (unat (w_start self)) (lsh_string_data (w_buffer self));
          (res, ios) \<leftarrow> retry (unat to_write) ios;
          (case res of
             Fail e \<Rightarrow> write_io_error e self l d ios
           | Done k \<Rightarrow>
               if to_write \<le> w_length self
               then write_done k (take k buffer)
                      (self\<lparr>w_length := w_length self - of_nat k, w_start := w_start self + of_nat k\<rparr>) l d ios
               else if w_length self = 0
               then write_done k (take k d) self (l - of_nat k) (drop k d) ios
               else if of_nat k < w_length self
               then write_done k (take k buffer)
                      (self\<lparr>w_length := w_length self - of_nat k, w_start := w_start self + of_nat k\<rparr>) l d ios
               else let data_done = of_nat k - w_length self in
                 write_done k (take (unat (w_length self)) buffer @ take (unat data_done) d)
                   (self\<lparr>w_length := 0, w_start := 0\<rparr>) (l - data_done) (drop (unat data_done) d) ios) }"

definition ssh_write_available :: "ssh_write_state \<Rightarrow> u32 option" where
  "ssh_write_available self =
     do { let sz = lsh_string_length (w_buffer self);
          c_assert (w_length self \<le> sz);
          Some (sz - w_length self) }"

section \<open>What is buffered\<close>

definition write_inv :: "ssh_write_state \<Rightarrow> bool" where
  "write_inv s \<longleftrightarrow> window_ok (w_buffer s) (w_start s) (w_length s)"

definition pending :: "ssh_write_state \<Rightarrow> bytes" where
  "pending s = window (w_buffer s) (w_start s) (w_length s)"

lemma length_pending: "write_inv s \<Longrightarrow> length (pending s) = unat (w_length s)"
  by (simp add: write_inv_def pending_def length_window)

lemma init_write_inv:
  "unat n < 2147483648 \<Longrightarrow> write_inv (init_ssh_write_state junk n)" "pending (init_ssh_write_state junk n) = []"
  by (simp_all add: write_inv_def pending_def init_ssh_write_state_def window_alloc)

text \<open>Dropping \<open>k\<close> bytes from the front of the buffer.\<close>

lemma consume:
  assumes "write_inv s" "k \<le> unat (w_length s)"
  defines "s' \<equiv> s\<lparr>w_start := w_start s + of_nat k, w_length := w_length s - of_nat k\<rparr>"
  shows "write_inv s'" "take k (pending s) @ pending s' = pending s" "str_length (w_buffer s') = str_length (w_buffer s)"
  using assms(1) window_drop [OF _ assms(2), of "w_buffer s" "w_start s"] by (simp_all add: write_inv_def pending_def s'_def)

text \<open>Moving the buffered bytes to the front.\<close>

definition compacted :: "ssh_write_state \<Rightarrow> ssh_write_state" where
  "compacted s = s\<lparr>w_buffer := moved (w_buffer s) (w_start s) (w_length s), w_start := 0\<rparr>"

lemma compacted_eq:
  assumes "write_inv s" "w_start s \<noteq> 0"
  shows "do { b \<leftarrow> lsh_string_move (w_buffer s) 0 (w_length s) (w_start s); Some (s\<lparr>w_buffer := b, w_start := 0\<rparr>) } =
    Some (compacted s)"
  using assms by (simp add: write_inv_def compacted_def window_move(1))

lemma compacted_inv:
  assumes "write_inv s"
  shows "write_inv (compacted s)" "pending (compacted s) = pending s" "w_length (compacted s) = w_length s"
    "str_length (w_buffer (compacted s)) = str_length (w_buffer s)"
  using assms by (simp_all add: compacted_def write_inv_def pending_def window_move(2-4))

lemma append_data:
  assumes "write_inv s" "unat l \<le> length d" "unat (w_start s) + unat (w_length s) + unat l \<le> unat (str_length (w_buffer s))"
  shows "\<exists>b. lsh_string_write (w_buffer s) (w_start s + w_length s) l d = Some b
    \<and> write_inv (s\<lparr>w_buffer := b, w_length := w_length s + l\<rparr>)
    \<and> pending (s\<lparr>w_buffer := b, w_length := w_length s + l\<rparr>) = pending s @ take (unat l) d
    \<and> str_length b = str_length (w_buffer s)"
proof -
  have ok: "window_ok (w_buffer s) (w_start s) (w_length s)" using assms(1) by (simp add: write_inv_def)
  have "length (take (unat l) d) = unat l" using assms(2) by simp
  then show ?thesis
    using window_append [OF ok, of "take (unat l) d"] assms(3) ok
    by (simp add: lsh_string_write_eq window_ok_def [of "w_buffer s"] room_def write_inv_def pending_def min_absorb2 assms(2))
qed

lemma ssh_write_enqueue_ok:
  assumes "write_inv s" "unat l \<le> length d" "unat l + unat (w_length s) < 4294967296"
  shows "\<exists>ok s'. ssh_write_enqueue s l d = Some (ok, s') \<and> write_inv s' \<and> str_length (w_buffer s') = str_length (w_buffer s)
    \<and> (ok \<longleftrightarrow> unat l + unat (w_length s) \<le> unat (str_length (w_buffer s)))
    \<and> pending s' = pending s @ (if ok then take (unat l) d else [])"
proof -
  let ?n = "unat (str_length (w_buffer s))"
  have sum: "unat (l + w_length s) = unat l + unat (w_length s)" using assms(3) by (simp add: unat_u32_add)
  show ?thesis
  proof (cases "unat l + unat (w_length s) \<le> ?n")
    case False
    then show ?thesis using assms(1) sum by (auto simp: ssh_write_enqueue_def lsh_string_length_def u32_less)
  next
    case True
    have sum3: "unat (l + w_length s + w_start s) = unat l + unat (w_length s) + unat (w_start s)"
      using True assms(1) sum by (simp add: write_inv_def window_ok_def unat_u32_mod)
    show ?thesis
    proof (cases "unat l + unat (w_length s) + unat (w_start s) \<le> ?n")
      case fits: True
      obtain b where b: "lsh_string_write (w_buffer s) (w_start s + w_length s) l d = Some b"
          "write_inv (s\<lparr>w_buffer := b, w_length := w_length s + l\<rparr>)" "str_length b = str_length (w_buffer s)"
          "pending (s\<lparr>w_buffer := b, w_length := w_length s + l\<rparr>) = pending s @ take (unat l) d"
        using append_data [OF assms(1,2)] fits by auto
      then have "ssh_write_enqueue s l d = Some (True, s\<lparr>w_buffer := b, w_length := w_length s + l\<rparr>)"
        using True fits sum sum3 by (simp add: ssh_write_enqueue_def lsh_string_length_def u32_less)
      then show ?thesis using b True by auto
    next
      case False
      let ?c = "compacted s"
      note c = compacted_inv [OF assms(1)]
      have start: "w_start s \<noteq> 0" using True False by auto
      have "unat (w_start ?c) + unat (w_length ?c) + unat l \<le> unat (str_length (w_buffer ?c))"
        using True c by (simp add: compacted_def)
      then obtain b where b: "lsh_string_write (w_buffer ?c) (w_start ?c + w_length ?c) l d = Some b"
          "write_inv (?c\<lparr>w_buffer := b, w_length := w_length ?c + l\<rparr>)" "str_length b = str_length (w_buffer s)"
          "pending (?c\<lparr>w_buffer := b, w_length := w_length ?c + l\<rparr>) = pending s @ take (unat l) d"
        using append_data [OF c(1) assms(2)] c by auto
      then have "ssh_write_enqueue s l d = Some (True, ?c\<lparr>w_buffer := b, w_length := w_length ?c + l\<rparr>)"
        using True False sum sum3 compacted_eq [OF assms(1) start]
        by (simp add: ssh_write_enqueue_def lsh_string_length_def u32_less)
      then show ?thesis using b True by auto
    qed
  qed
qed


lemma enqueue_rest_ok:
  assumes "write_inv s" "unat l \<le> length d" "unat l + unat (w_length s) < 4294967296"
  shows "\<exists>ok s' lost. enqueue_rest s l d = Some (ok, s') \<and> write_inv s' \<and> str_length (w_buffer s') = str_length (w_buffer s)
    \<and> pending s' @ lost = pending s @ take (unat l) d \<and> (ok \<longrightarrow> lost = [])"
proof (cases "l > 0")
  case True
  then show ?thesis using ssh_write_enqueue_ok [OF assms] by (fastforce simp: enqueue_rest_def)
next
  case False
  then have "l = 0" by (simp add: word_gt_0)
  then show ?thesis using assms(1) by (auto simp: enqueue_rest_def)
qed

section \<open>The stream\<close>

text \<open>\<open>accounts s d r\<close>: the result \<open>r\<close> accounts for the buffered bytes of \<open>s\<close> followed by \<open>d\<close>. They
  are sent or still buffered, in order, and what is missing at the end was reported as overflow.\<close>

definition accounts :: "ssh_write_state \<Rightarrow> bytes \<Rightarrow> write_result \<Rightarrow> bool" where
  "accounts s d r \<longleftrightarrow> write_inv (w_state r) \<and> str_length (w_buffer (w_state r)) = str_length (w_buffer s)
     \<and> (\<exists>lost. w_sent r @ pending (w_state r) @ lost = pending s @ d \<and> (w_errno r \<noteq> Some EOVERFLOW \<longrightarrow> lost = []))
     \<and> (w_ret r = 0 \<longleftrightarrow> w_errno r \<noteq> None) \<and> (w_ret r \<noteq> 0 \<longrightarrow> unat (w_ret r) = length (w_sent r))
     \<and> (w_ret r = 0 \<and> w_errno r \<noteq> Some EOVERFLOW \<longrightarrow> w_sent r = [])"

lemma write_done_accounts:
  assumes "write_inv s'" "unat l \<le> length d'" "unat l + unat (w_length s') < 4294967296"
    and "str_length (w_buffer s') = str_length (w_buffer s)"
    and "sent @ pending s' @ take (unat l) d' = pending s @ d" "length sent = k" "0 < k" "k < 4294967296"
  shows "\<exists>r. write_done k sent s' l d' ios = Some r \<and> accounts s d r"
proof -
  obtain ok s2 lost where e: "enqueue_rest s' l d' = Some (ok, s2)" "write_inv s2"
      "str_length (w_buffer s2) = str_length (w_buffer s')" "pending s2 @ lost = pending s' @ take (unat l) d'" "ok \<longrightarrow> lost = []"
    using enqueue_rest_ok [OF assms(1-3)] by blast
  have k: "unat (of_nat k :: u32) = k" using assms(8) by (rule unat_u32_of_nat)
  then have "(of_nat k :: u32) \<noteq> 0" using assms(7) by auto
  moreover have "sent @ pending s2 @ lost = pending s @ d" using e(4) assms(5) by simp
  ultimately show ?thesis
    using e assms(4,6,7) k by (auto simp: write_done_def accounts_def intro!: exI [of _ lost])
qed

lemma write_io_error_accounts:
  assumes "write_inv s" "unat l \<le> length d" "unat l + unat (w_length s) < 4294967296"
  shows "\<exists>r. write_io_error e s l d ios = Some r \<and> accounts s (take (unat l) d) r"
proof -
  obtain ok s2 lost where e: "enqueue_rest s l d = Some (ok, s2)" "write_inv s2"
      "str_length (w_buffer s2) = str_length (w_buffer s)" "pending s2 @ lost = pending s @ take (unat l) d" "ok \<longrightarrow> lost = []"
    using enqueue_rest_ok [OF assms] by blast
  then show ?thesis by (auto simp: write_io_error_def accounts_def)
qed

lemma retry_ok: "\<lbrakk>retry n ios = Some (r, rest); io_legal ios; 0 < n\<rbrakk> \<Longrightarrow> io_ok n r \<and> io_legal rest"
  by (induction ios) (auto simp: io_legal_def split: if_splits)

lemma buffer_take:
  "write_inv s \<Longrightarrow> k \<le> unat (w_length s) \<Longrightarrow> take k (drop (unat (w_start s)) (str_data (w_buffer s))) = take k (pending s)"
  by (simp add: write_inv_def pending_def window_take)

text \<open>The number of bytes a call asks the system to write.\<close>

definition effective :: "ssh_write_state \<Rightarrow> u32 \<Rightarrow> u32 \<Rightarrow> u32" where
  "effective s to_write l = (if to_write = 0 then min (w_length s + l) WRITE_MAX else to_write)"

lemma write_from_buffer:
  assumes "write_inv s" "unat l \<le> length d" "unat l + unat (w_length s) < 4294967296" "0 < k" "k \<le> unat (w_length s)"
  shows "\<exists>r. write_done k (take k (drop (unat (w_start s)) (str_data (w_buffer s))))
      (s\<lparr>w_length := w_length s - of_nat k, w_start := w_start s + of_nat k\<rparr>) l d ios = Some r \<and> accounts s (take (unat l) d) r"
proof -
  let ?s = "s\<lparr>w_start := w_start s + of_nat k, w_length := w_length s - of_nat k\<rparr>"
  have eq: "s\<lparr>w_length := w_length s - of_nat k, w_start := w_start s + of_nat k\<rparr> = ?s" by simp
  note c = consume [OF assms(1,5)]
  have "k < 4294967296" using assms(5) unat_u32_bound [of "w_length s"] by (simp del: unat_u32_bound)
  moreover have "length (take k (pending s)) = k" using assms(5) length_pending [OF assms(1)] by simp
  moreover have "unat (w_length ?s) \<le> unat (w_length s)"
    using assms(5) \<open>k < _\<close> by (simp add: unat_u32_diff unat_u32_of_nat)
  ultimately show ?thesis
    unfolding eq using c assms buffer_take [OF assms(1,5)]
    by (intro write_done_accounts) auto
qed

lemma ssh_write_data_accounts:
  assumes inv: "write_inv s" and l: "unat l \<le> length d" and sum: "unat l + unat (w_length s) < 4294967296"
    and tw: "0 < unat (effective s to_write l)" "unat (effective s to_write l) \<le> unat (w_length s) + unat l"
    and io: "retry (unat (effective s to_write l)) ios = Some (res, rest)" "io_ok (unat (effective s to_write l)) res"
  shows "\<exists>r. ssh_write_data s to_write l d ios = Some r \<and> accounts s (take (unat l) d) r"
proof (cases res)
  case (Fail e)
  then show ?thesis
    using write_io_error_accounts [OF inv l sum, of e rest] io(1) tw(1)
    by (auto simp: ssh_write_data_def u32_less Let_def simp flip: effective_def)
next
  case (Done k)
  let ?tw = "effective s to_write l"
  have k: "0 < k" "k \<le> unat ?tw" "k < 4294967296" using io(2) Done tw unat_u32_bound [of ?tw] by (auto simp del: unat_u32_bound)
  have unat_k: "unat (of_nat k :: u32) = k" using k(3) by (rule unat_u32_of_nat)
  have step: "ssh_write_data s to_write l d ios =
     (let buffer = drop (unat (w_start s)) (str_data (w_buffer s)) in
      if ?tw \<le> w_length s
       then write_done k (take k buffer)
              (s\<lparr>w_length := w_length s - of_nat k, w_start := w_start s + of_nat k\<rparr>) l d rest
       else if w_length s = 0
       then write_done k (take k d) s (l - of_nat k) (drop k d) rest
       else if of_nat k < w_length s
       then write_done k (take k buffer)
              (s\<lparr>w_length := w_length s - of_nat k, w_start := w_start s + of_nat k\<rparr>) l d rest
       else let data_done = of_nat k - w_length s in
         write_done k (take (unat (w_length s)) buffer @ take (unat data_done) d)
           (s\<lparr>w_length := 0, w_start := 0\<rparr>) (l - data_done) (drop (unat data_done) d) rest)"
    using io(1) tw(1) Done by (simp add: ssh_write_data_def lsh_string_data_def u32_less Let_def flip: effective_def)
  show ?thesis
  proof (cases "k \<le> unat (w_length s) \<and> (?tw \<le> w_length s \<or> k < unat (w_length s))")
    case True
    then have "ssh_write_data s to_write l d ios = write_done k (take k (drop (unat (w_start s)) (str_data (w_buffer s))))
      (s\<lparr>w_length := w_length s - of_nat k, w_start := w_start s + of_nat k\<rparr>) l d rest"
      using k(1) by (auto simp: step Let_def u32_less unat_k)
    then show ?thesis using write_from_buffer [OF inv l sum k(1)] True by simp
  next
    case False
    then have more: "\<not> ?tw \<le> w_length s" "unat (w_length s) \<le> k" using k(2) by (auto simp: u32_le)
    define dd where "dd = k - unat (w_length s)"
    have dd: "dd \<le> unat l" "unat (of_nat k - w_length s) = dd" "unat (l - (of_nat k - w_length s)) = unat l - dd"
      using k(2) tw(2) more(2) unat_k by (auto simp: dd_def unat_u32_diff)
    have small: "unat l - dd < 4294967296" using unat_u32_bound [of l] by (simp del: unat_u32_bound)
    have same: "take dd d @ take (unat l - dd) (drop dd d) = take (unat l) d"
      using dd(1) by (metis le_add_diff_inverse take_add)
    have all: "take (unat (w_length s)) (drop (unat (w_start s)) (str_data (w_buffer s))) = pending s"
      using buffer_take [OF inv le_refl] length_pending [OF inv] by simp
    show ?thesis
    proof (cases "w_length s = 0")
      case True
      then have "pending s = []" "dd = k" using length_pending [OF inv] by (auto simp: dd_def)
      then show ?thesis
        using True more step same small dd k l inv by (auto simp: Let_def intro!: write_done_accounts)
    next
      case False
      let ?s = "s\<lparr>w_length := 0, w_start := 0\<rparr>"
      have "write_inv ?s" "pending ?s = []" using inv by (auto simp: write_inv_def pending_def window_ok_def)
      moreover have "length (pending s @ take dd d) = k" using length_pending [OF inv] more(2) dd(1) l by (simp add: dd_def)
      ultimately show ?thesis
        using False more step same small dd k l all unat_k by (auto simp: Let_def u32_less intro!: write_done_accounts)
    qed
  qed
qed

lemma ssh_write_flush_accounts:
  assumes inv: "write_inv s" and tw: "0 < unat (effective s to_write 0)" "unat (effective s to_write 0) \<le> unat (w_length s)"
    and io: "retry (unat (effective s to_write 0)) ios = Some (res, rest)" "io_ok (unat (effective s to_write 0)) res"
  shows "\<exists>r. ssh_write_flush s to_write ios = Some r \<and> accounts s [] r"
proof (cases res)
  case (Fail e)
  then show ?thesis
    using inv tw io(1) by (auto simp: ssh_write_flush_def u32_less u32_le Let_def accounts_def effective_def)
next
  case (Done k)
  have k: "0 < k" "k \<le> unat (w_length s)" "k < 4294967296"
    using io(2) Done tw unat_u32_bound [of "w_length s"] by (auto simp del: unat_u32_bound)
  then have "unat (of_nat k :: u32) = k" by (intro unat_u32_of_nat)
  moreover from this have "(of_nat k :: u32) \<noteq> 0" using k(1) by auto
  ultimately show ?thesis
    using tw io(1) Done consume [OF inv k(2)] buffer_take [OF inv k(2)] length_pending [OF inv] k(2)
    by (auto simp: ssh_write_flush_def u32_less u32_le Let_def accounts_def effective_def lsh_string_data_def simp del: length_take)
      (simp_all add: min_def)
qed

text \<open>A connection writes by any sequence of these operations. The state of a run is the buffer, the
  bytes given to it and the bytes the system accepted. A connection that sees \<open>EOVERFLOW\<close> is closed, so
  no step follows it.\<close>

inductive stream_step :: "ssh_write_state \<times> bytes \<times> bytes \<Rightarrow> ssh_write_state \<times> bytes \<times> bytes \<Rightarrow> bool" where
  data: "\<lbrakk>ssh_write_data s to_write l d ios = Some r; w_errno r \<noteq> Some EOVERFLOW; unat l = length d;
          unat l + unat (w_length s) < 4294967296; io_legal ios; unat (effective s to_write l) \<le> unat (w_length s) + unat l\<rbrakk>
         \<Longrightarrow> stream_step (s, given, sent) (w_state r, given @ d, sent @ w_sent r)"
| flush: "\<lbrakk>ssh_write_flush s to_write ios = Some r; w_errno r \<noteq> Some EOVERFLOW; io_legal ios\<rbrakk>
         \<Longrightarrow> stream_step (s, given, sent) (w_state r, given, sent @ w_sent r)"
| enqueue: "\<lbrakk>ssh_write_enqueue s l d = Some (True, s'); unat l = length d; unat l + unat (w_length s) < 4294967296\<rbrakk>
         \<Longrightarrow> stream_step (s, given, sent) (s', given @ d, sent)"

definition stream_inv :: "u32 \<Rightarrow> ssh_write_state \<times> bytes \<times> bytes \<Rightarrow> bool" where
  "stream_inv n = (\<lambda>(s, given, sent). write_inv s \<and> str_length (w_buffer s) = n \<and> sent @ pending s = given)"

lemma stream_inv_accounts:
  "\<lbrakk>stream_inv n (s, given, sent); accounts s d r; w_errno r \<noteq> Some EOVERFLOW\<rbrakk>
    \<Longrightarrow> stream_inv n (w_state r, given @ d, sent @ w_sent r)"
  by (auto simp: stream_inv_def accounts_def)

lemma write_ios:
  "write_io_error e s l d ios = Some r \<Longrightarrow> w_ios r = ios" "write_done k sent s l d ios = Some r \<Longrightarrow> w_ios r = ios"
  by (auto simp: write_io_error_def write_done_def bind_eq_Some_conv)

lemma write_request:
  "ssh_write_data s to_write l d ios = Some r
    \<Longrightarrow> 0 < unat (effective s to_write l) \<and> (\<exists>res. retry (unat (effective s to_write l)) ios = Some (res, w_ios r))"
  "ssh_write_flush s to_write ios = Some r
    \<Longrightarrow> 0 < unat (effective s to_write 0) \<and> unat (effective s to_write 0) \<le> unat (w_length s)
      \<and> (\<exists>res. retry (unat (effective s to_write 0)) ios = Some (res, w_ios r))"
proof -
  assume r: "ssh_write_data s to_write l d ios = Some r"
  then obtain res rest where res: "retry (unat (effective s to_write l)) ios = Some (res, rest)" and pos: "0 < effective s to_write l"
    unfolding ssh_write_data_def Let_def effective_def [symmetric] by (auto simp: bind_eq_Some_conv c_assert_def split: if_splits)
  have "w_ios r = rest"
    using r pos res unfolding ssh_write_data_def Let_def effective_def [symmetric]
    by (cases res) (auto simp: write_ios split: if_splits)
  then show "0 < unat (effective s to_write l) \<and> (\<exists>res. retry (unat (effective s to_write l)) ios = Some (res, w_ios r))"
    using res pos by (simp add: u32_less)
next
  assume "ssh_write_flush s to_write ios = Some r"
  then show "0 < unat (effective s to_write 0) \<and> unat (effective s to_write 0) \<le> unat (w_length s)
      \<and> (\<exists>res. retry (unat (effective s to_write 0)) ios = Some (res, w_ios r))"
    by (auto simp: ssh_write_flush_def effective_def Let_def u32_less u32_le bind_eq_Some_conv c_assert_def
        split: if_splits io_result.splits)
qed

text \<open>The same for a call that has returned.\<close>

lemma ssh_write_data_result:
  assumes "ssh_write_data s to_write l d ios = Some r" "write_inv s" "unat l \<le> length d" "unat l + unat (w_length s) < 4294967296"
    and "unat (effective s to_write l) \<le> unat (w_length s) + unat l" "io_legal ios"
  shows "accounts s (take (unat l) d) r" "io_legal (w_ios r)"
  using write_request(1) [OF assms(1)] assms ssh_write_data_accounts [OF assms(2-4) _ assms(5)] retry_ok by (metis option.inject)+

lemma ssh_write_flush_result:
  assumes "ssh_write_flush s to_write ios = Some r" "write_inv s" "io_legal ios"
  shows "accounts s [] r" "io_legal (w_ios r)"
  using write_request(2) [OF assms(1)] assms ssh_write_flush_accounts [OF assms(2)] retry_ok by (metis option.inject)+

lemma stream_step_inv: "stream_step x y \<Longrightarrow> stream_inv n x \<Longrightarrow> stream_inv n y"
proof (induction rule: stream_step.induct)
  case (data s to_write l d ios r given sent)
  have "write_inv s" using data.prems by (simp add: stream_inv_def)
  then have "accounts s (take (unat l) d) r" using ssh_write_data_result data.hyps by (metis order_refl)
  then have "accounts s d r" using data.hyps(3) by simp
  then show ?case using stream_inv_accounts data.prems data.hyps(2) by blast
next
  case (flush s to_write ios r given sent)
  then have "accounts s [] r" using ssh_write_flush_result by (auto simp: stream_inv_def)
  then show ?case using stream_inv_accounts [of n s given sent "[]" r] flush by simp
next
  case (enqueue s l d s' given sent)
  then show ?case using ssh_write_enqueue_ok [of s l d] by (auto simp: stream_inv_def)
qed

lemma stream_run_inv: "stream_step\<^sup>*\<^sup>* x y \<Longrightarrow> stream_inv n x \<Longrightarrow> stream_inv n y"
  by (induction rule: rtranclp_induct) (auto intro: stream_step_inv)

section \<open>Properties\<close>

text \<open>C23 Output stream: whatever sequence of writes, flushes and enqueues a connection performs on a
  fresh buffer, with whatever partial writes and errors the system reports, as long as no call reports \<open>EOVERFLOW\<close>, the bytes
  the system accepted followed by the bytes still buffered are exactly the bytes given, in order, and
  at most the size of the buffer is pending.\<close>

theorem write_stream_in_order:
  assumes "stream_step\<^sup>*\<^sup>* (make_ssh_write_state junk n, [], []) (s, given, sent)" "unat n < 2147483648"
  shows "sent @ pending s = given \<and> length (pending s) \<le> unat n"
proof -
  have "stream_inv n (make_ssh_write_state junk n, [], [])"
    using init_write_inv(1) [OF assms(2), of junk] init_write_inv(2) [of junk n]
    by (simp add: stream_inv_def make_ssh_write_state_def init_ssh_write_state_def)
  then have "stream_inv n (s, given, sent)" by (rule stream_run_inv [OF assms(1)])
  then show ?thesis using length_pending [of s] by (auto simp: stream_inv_def write_inv_def window_ok_def)
qed

lemma write_example:
  "stream_step (make_ssh_write_state (\<lambda>_. 0) 4, [], [])
     (\<lparr>w_buffer = \<lparr>str_length = 4, str_data = [3, 0, 0, 0, 0]\<rparr>, w_start = 0, w_length = 1\<rparr>, [1, 2, 3], [1, 2])"
  using stream_step.data [of "make_ssh_write_state (\<lambda>_. 0) 4" 0 3 "[1, 2, 3]" "[\<lambda>_. Fail EINTR, \<lambda>n. Done (min n 2)]"
    "\<lparr>w_ret = 2, w_errno = None, w_sent = [1, 2],
      w_state = \<lparr>w_buffer = \<lparr>str_length = 4, str_data = [3, 0, 0, 0, 0]\<rparr>, w_start = 0, w_length = 1\<rparr>, w_ios = []\<rparr>" "[]" "[]"]
  by (simp add: make_ssh_write_state_def init_ssh_write_state_def lsh_string_alloc_def ssh_write_data_def write_done_def
      enqueue_rest_def ssh_write_enqueue_def lsh_string_write_def overwrite_def effective_def WRITE_MAX_def upt_rec Let_def
      lsh_string_length_def lsh_string_data_def ASSERT_ROOM_def ASSERT_NUL_def io_legal_def)

theorem write_stream_in_order_witness:
  "[1, 2] @ pending \<lparr>w_buffer = \<lparr>str_length = 4, str_data = [3, 0, 0, 0, 0]\<rparr>, w_start = 0, w_length = 1\<rparr> = [1, 2, 3]"
  using write_stream_in_order [OF r_into_rtranclp [where r = stream_step, OF write_example]] by simp

text \<open>C34 One call of ssh_write_data: for a well-formed buffer, data of the given length and a system call
  that accepts part of what it is offered or fails, the call returns. It reports the number of bytes the
  system accepted, or zero with an error; no byte is lost unless it reports \<open>EOVERFLOW\<close>.\<close>

theorem ssh_write_data_correct:
  assumes "write_inv s" "unat l \<le> length d" "unat l + unat (w_length s) < 4294967296"
    and "0 < unat (effective s to_write l)" "unat (effective s to_write l) \<le> unat (w_length s) + unat l"
    and "retry (unat (effective s to_write l)) ios = Some (res, rest)" "io_legal ios"
  shows "\<exists>r. ssh_write_data s to_write l d ios = Some r \<and> accounts s (take (unat l) d) r"
  using assms(1-6) retry_ok [OF assms(6,7,4)] by (intro ssh_write_data_accounts) auto

theorem ssh_write_data_correct_witness:
  "\<exists>r. ssh_write_data (make_ssh_write_state (\<lambda>_. 0) 4) 0 3 [1, 2, 3] [\<lambda>_. Fail EINTR, \<lambda>n. Done (min n 2)] = Some r
     \<and> accounts (make_ssh_write_state (\<lambda>_. 0) 4) [1, 2, 3] r"
  using ssh_write_data_correct [of "make_ssh_write_state (\<lambda>_. 0) 4" 3 "[1, 2, 3]" 0 "[\<lambda>_. Fail EINTR, \<lambda>n. Done (min n 2)]" "Done 2" "[]"]
    init_write_inv(1) [of 4 "\<lambda>_. 0"]
  by (simp add: make_ssh_write_state_def effective_def WRITE_MAX_def init_ssh_write_state_def io_legal_def)

end
