(* ===== verification/Ssh_Read.thy ===== *)
theory Ssh_Read
  imports Ssh_Write
begin

text \<open>
  \<open>src/ssh_read.c\<close>: the input buffer shared by the transport and the service readers, with
  \<open>lsh_string_read\<close> of \<open>src/lsh_string.c\<close>. The system side of a descriptor is a socket: the
  bytes that the peer has sent or will send, what the coming reads do, error or number of bytes, and what the poll of
  \<open>io_readable_p\<close> says. A read moves bytes from the socket to the end of the unread bytes, and nothing is lost or repeated in
  compacting the buffer.
\<close>

datatype ssh_read_status =
  SSH_READ_IO_ERROR | SSH_READ_PROTOCOL_ERROR | SSH_READ_EOF | SSH_READ_COMPLETE | SSH_READ_PENDING | SSH_READ_PUSH

text \<open>The values of the enumeration, which the code compares.\<close>

primrec status_code :: "ssh_read_status \<Rightarrow> int" where
  "status_code SSH_READ_IO_ERROR = -1"
| "status_code SSH_READ_PROTOCOL_ERROR = -2"
| "status_code SSH_READ_EOF = 0"
| "status_code SSH_READ_COMPLETE = 1"
| "status_code SSH_READ_PENDING = 2"
| "status_code SSH_READ_PUSH = 3"

instantiation ssh_read_status :: linorder
begin

definition less_eq_ssh_read_status :: "ssh_read_status \<Rightarrow> ssh_read_status \<Rightarrow> bool" where
  "less_eq_ssh_read_status a b \<longleftrightarrow> status_code a \<le> status_code b"

definition less_ssh_read_status :: "ssh_read_status \<Rightarrow> ssh_read_status \<Rightarrow> bool" where
  "less_ssh_read_status a b \<longleftrightarrow> status_code a < status_code b"

instance
proof
  fix a b :: ssh_read_status
  show "a \<le> b \<Longrightarrow> b \<le> a \<Longrightarrow> a = b"
    by (cases a; cases b) (simp_all add: less_eq_ssh_read_status_def)
qed (auto simp: less_eq_ssh_read_status_def less_ssh_read_status_def)

end

record ssh_read_state =
  r_buffer :: lsh_string
  r_start :: u32
  r_length :: u32
  r_status :: ssh_read_status

section \<open>Reading\<close>

text \<open>What a call of \<open>read\<close> does: it fails, or it returns at most \<open>Suc k\<close> bytes, those that have arrived by then, however many
  it is asked for. \<open>sk_events\<close> is the schedule of the coming calls, so that the bytes of \<open>sk_input\<close> arrive in any chunks, with
  interruptions and calls that would block in between; after the schedule a call returns as much as it is asked for, and when
  all bytes are taken it reports the end of file.\<close>

datatype read_event = Read_fails errno | Read_bytes nat

record socket =
  sk_events :: "read_event list"
  sk_input :: bytes
  sk_readable :: bool

text \<open>\<open>do res = read(...); while (res < 0 && errno == EINTR)\<close>\<close>

fun read_retry :: "read_event list \<Rightarrow> bytes \<Rightarrow> nat \<Rightarrow> (errno + bytes) \<times> read_event list \<times> bytes" where
  "read_retry [] input n = (Inr (take n input), [], drop n input)"
| "read_retry (Read_bytes k # es) input n = (Inr (take (min n (Suc k)) input), es, drop (min n (Suc k)) input)"
| "read_retry (Read_fails e # es) input n = (if e = EINTR then read_retry es input n else (Inl e, es, input))"

definition lsh_string_read ::
  "lsh_string \<Rightarrow> u32 \<Rightarrow> socket \<Rightarrow> u32 \<Rightarrow> ((errno + nat) \<times> lsh_string \<times> socket) option" where
  "lsh_string_read s start fd l =
     do { c_assert (l \<noteq> 0);
          ASSERT_ROOM s start l;
          let (res, es, input) = read_retry (sk_events fd) (sk_input fd) (unat l);
          let fd = fd\<lparr>sk_events := es, sk_input := input\<rparr>;
          (case res of
             Inl e \<Rightarrow> do { ASSERT_NUL s; Some (Inl e, s, fd) }
           | Inr bs \<Rightarrow>
               do { let s' = s\<lparr>str_data := overwrite (unat start) bs (str_data s)\<rparr>;
                    ASSERT_NUL s';
                    Some (Inr (length bs), s', fd) }) }"

text \<open>The results -1, 0 and 1 of \<open>ssh_read_some\<close>; an error comes with \<open>errno\<close>.\<close>

datatype read_outcome = Read_error errno | Read_eof | Read_ok

definition ssh_read_some ::
  "'a ssh_read_state_scheme \<Rightarrow> socket \<Rightarrow> u32 \<Rightarrow> (read_outcome \<times> 'a ssh_read_state_scheme \<times> socket) option" where
  "ssh_read_some self fd limit =
     do { c_assert (limit < lsh_string_length (r_buffer self));
          c_assert (r_length self < limit);
          self \<leftarrow> (if r_start self + limit > lsh_string_length (r_buffer self)
                   then do { c_assert (r_start self > 0);
                             b \<leftarrow> lsh_string_move (r_buffer self) 0 (r_length self) (r_start self);
                             Some (self\<lparr>r_buffer := b, r_start := 0\<rparr>) }
                   else Some self);
          let left = limit - r_length self;
          (res, b, fd) \<leftarrow> lsh_string_read (r_buffer self) (r_start self + r_length self) fd left;
          let self = self\<lparr>r_buffer := b\<rparr>;
          (case res of
             Inl e \<Rightarrow> Some (Read_error e, self, fd)
           | Inr n \<Rightarrow>
               if n = 0 then Some (Read_eof, self, fd)
               else Some (Read_ok,
                      self\<lparr>r_length := r_length self + of_nat n,
                           r_status := (if of_nat n < left \<or> \<not> sk_readable fd
                                        then SSH_READ_PUSH else SSH_READ_PENDING)\<rparr>, fd)) }"

definition init_ssh_read_state :: "(nat \<Rightarrow> byte) \<Rightarrow> u32 \<Rightarrow> ssh_read_state" where
  "init_ssh_read_state junk buffer_size =
     \<lparr>r_buffer = lsh_string_alloc junk buffer_size, r_start = 0, r_length = 0, r_status = SSH_READ_PUSH\<rparr>"

section \<open>Reading appends to the unread bytes\<close>

definition read_inv :: "'a ssh_read_state_scheme \<Rightarrow> bool" where
  "read_inv s \<longleftrightarrow> window_ok (r_buffer s) (r_start s) (r_length s) \<and> r_status s \<in> {SSH_READ_PENDING, SSH_READ_PUSH}"

definition unread :: "'a ssh_read_state_scheme \<Rightarrow> bytes" where
  "unread s = window (r_buffer s) (r_start s) (r_length s)"

lemma length_unread: "read_inv s \<Longrightarrow> length (unread s) = unat (r_length s)"
  by (simp add: read_inv_def unread_def length_window)

lemma init_read_inv:
  "unat n < 2147483648 \<Longrightarrow> read_inv (init_ssh_read_state junk n)" "unread (init_ssh_read_state junk n) = []"
  by (simp_all add: read_inv_def unread_def init_ssh_read_state_def window_alloc)

lemma read_consume:
  assumes "read_inv s" "unat k \<le> unat (r_length s)"
  shows "read_inv (s\<lparr>r_start := r_start s + k, r_length := r_length s - k\<rparr>)"
    "unread (s\<lparr>r_start := r_start s + k, r_length := r_length s - k\<rparr>) = drop (unat k) (unread s)"
  using assms(1) window_drop_word [OF _ assms(2), of "r_buffer s" "r_start s"] by (simp_all add: read_inv_def unread_def)

text \<open>The errors of a schedule.\<close>

primrec read_errors :: "read_event list \<Rightarrow> errno list" where
  "read_errors [] = []"
| "read_errors (x # xs) = (case x of Read_fails e \<Rightarrow> [e] | Read_bytes _ \<Rightarrow> []) @ read_errors xs"

definition sk_errors :: "socket \<Rightarrow> errno list" where
  "sk_errors sk = read_errors (sk_events sk)"

lemma sk_errors_simps [simp]:
  "sk_errors \<lparr>sk_events = es, sk_input = i, sk_readable = b\<rparr> = read_errors es"
  "sk_errors (sk\<lparr>sk_input := i\<rparr>) = sk_errors sk" "sk_errors (sk\<lparr>sk_events := es\<rparr>) = read_errors es"
  by (simp_all add: sk_errors_def)

text \<open>What a read does, whatever the socket holds: \<open>taken\<close> bytes move from the socket to the unread
  bytes, and none do unless it succeeds.\<close>

definition reads_from :: "'a ssh_read_state_scheme \<Rightarrow> socket \<Rightarrow> u32 \<Rightarrow> read_outcome \<Rightarrow> 'a ssh_read_state_scheme \<Rightarrow> socket \<Rightarrow> bool" where
  "reads_from s fd limit o' s' fd' \<longleftrightarrow>
     read_inv s' \<and> str_length (r_buffer s') = str_length (r_buffer s) \<and> ssh_read_state.more s' = ssh_read_state.more s
     \<and> (\<exists>taken. unread s' = unread s @ taken \<and> sk_input fd = taken @ sk_input fd'
          \<and> (taken \<noteq> [] \<longleftrightarrow> o' = Read_ok) \<and> (o' = Read_eof \<longrightarrow> sk_input fd = []))
     \<and> unat (r_length s') \<le> unat limit
     \<and> set (sk_errors fd') \<subseteq> set (sk_errors fd) \<and> length (sk_events fd') \<le> length (sk_events fd)
     \<and> (\<forall>e. o' = Read_error e \<longrightarrow> e \<in> set (sk_errors fd) - {EINTR} \<and> length (sk_events fd') < length (sk_events fd))"

lemma read_retry_cases:
  obtains e es where "read_retry evs input n = (Inl e, es, input)" "e \<noteq> EINTR"
      "e \<in> set (read_errors evs)" "set (read_errors es) \<subseteq> set (read_errors evs)" "length es < length evs"
  | k es where "read_retry evs input n = (Inr (take k input), es, drop k input)" "k \<le> n" "0 < n \<longrightarrow> 0 < k"
      "set (read_errors es) \<subseteq> set (read_errors evs)" "length es \<le> length evs"
proof (induction evs input n arbitrary: thesis rule: read_retry.induct)
  case (1 input n)
  show ?case by (rule 1(2) [of n "[]"]) simp_all
next
  case (2 k es input n)
  show ?case by (rule 2(2) [of "min n (Suc k)" es]) auto
next
  case (3 e es input n)
  show ?case
  proof (cases "e = EINTR")
    case True
    show ?thesis by (rule 3(1) [OF True]) (use True 3(2,3) in auto)
  next
    case False
    then show ?thesis using 3(2) [of e es] by auto
  qed
qed

text \<open>The read itself, once there is room behind the unread bytes.\<close>

lemma read_behind:
  assumes inv: "read_inv s" and room: "unat (r_start s) + unat limit \<le> unat (str_length (r_buffer s))"
    and len: "unat (r_length s) < unat limit"
  obtains e fd' where "lsh_string_read (r_buffer s) (r_start s + r_length s) fd (limit - r_length s) = Some (Inl e, r_buffer s, fd')"
      "sk_input fd' = sk_input fd" "e \<noteq> EINTR" "e \<in> set (sk_errors fd)" "set (sk_errors fd') \<subseteq> set (sk_errors fd)"
      "length (sk_events fd') < length (sk_events fd)"
  | b taken fd' where "lsh_string_read (r_buffer s) (r_start s + r_length s) fd (limit - r_length s) = Some (Inr (length taken), b, fd')"
      "window_ok b (r_start s) (r_length s + of_nat (length taken))" "str_length b = str_length (r_buffer s)"
      "window b (r_start s) (r_length s + of_nat (length taken)) = unread s @ taken" "sk_input fd = taken @ sk_input fd'"
      "taken = [] \<longrightarrow> sk_input fd = []" "set (sk_errors fd') \<subseteq> set (sk_errors fd)"
      "length (sk_events fd') \<le> length (sk_events fd)" "length taken \<le> unat limit - unat (r_length s)"
proof -
  let ?n = "unat limit - unat (r_length s)"
  have ok: "window_ok (r_buffer s) (r_start s) (r_length s)" using inv by (simp add: read_inv_def)
  then have nul: "nul_terminated (r_buffer s)" by (simp add: window_ok_def)
  have sum: "unat (r_start s + r_length s) = unat (r_start s) + unat (r_length s)"
      "unat (limit - r_length s) = ?n"
    using window_append(3) [OF ok, of "[]"] ok len by (simp_all add: window_ok_def unat_u32_diff)
  then have pre: "ASSERT_ROOM (r_buffer s) (r_start s + r_length s) (limit - r_length s) = Some ()" "limit - r_length s \<noteq> 0"
    using room len by (auto simp: ASSERT_ROOM_eq room_def)
  have nul': "nul_terminated (r_buffer s\<lparr>str_data := overwrite (unat (r_start s) + unat (r_length s)) (take k (sk_input fd)) (str_data (r_buffer s))\<rparr>)"
    and app: "unat (r_start s) + unat (r_length s) + length (take k (sk_input fd)) \<le> unat (str_length (r_buffer s))" if "k \<le> ?n" for k
    using room len nul that by (auto intro!: nul_terminated_overwrite)
  show thesis
  proof (cases rule: read_retry_cases [of "sk_events fd" "sk_input fd" ?n])
    case (1 e es)
    then show thesis using that(1) [of e "fd\<lparr>sk_events := es\<rparr>"] pre sum nul by (simp add: lsh_string_read_def sk_errors_def)
  next
    case (2 k es)
    let ?fd = "fd\<lparr>sk_events := es, sk_input := drop k (sk_input fd)\<rparr>"
    have "0 < k" using 2(3) len by simp
    then show thesis
      using that(2) [of "take k (sk_input fd)" _ ?fd] window_append [OF ok app [OF 2(2)]] pre sum nul' [OF 2(2)] 2
      by (auto simp: lsh_string_read_def unread_def sk_errors_def)
  qed
qed

lemma ssh_read_some_ok:
  assumes inv: "read_inv s" and limit: "unat limit < unat (str_length (r_buffer s))" "unat (r_length s) < unat limit"
  shows "\<exists>o' s' fd'. ssh_read_some s fd limit = Some (o', s', fd') \<and> reads_from s fd limit o' s' fd'"
proof -
  have ok: "window_ok (r_buffer s) (r_start s) (r_length s)" using inv by (simp add: read_inv_def)
  define s2 where "s2 = (if r_start s + limit > str_length (r_buffer s)
    then s\<lparr>r_buffer := moved (r_buffer s) (r_start s) (r_length s), r_start := 0\<rparr> else s)"
  have sum: "unat (r_start s + limit) = unat (r_start s) + unat limit"
    using ok limit by (simp add: window_ok_def unat_u32_mod)
  have step: "(if r_start s + limit > lsh_string_length (r_buffer s)
      then do { c_assert (r_start s > 0); b \<leftarrow> lsh_string_move (r_buffer s) 0 (r_length s) (r_start s);
                Some (s\<lparr>r_buffer := b, r_start := 0\<rparr>) }
      else Some s) = Some s2"
  proof (cases "r_start s = 0")
    case True
    then show ?thesis using limit sum by (simp add: s2_def lsh_string_length_def u32_less)
  qed (use window_move(1) [OF ok] sum limit in \<open>auto simp: s2_def lsh_string_length_def u32_less word_gt_0\<close>)
  have s2: "read_inv s2" "unread s2 = unread s" "str_length (r_buffer s2) = str_length (r_buffer s)" "r_length s2 = r_length s"
      "unat (r_start s2) + unat limit \<le> unat (str_length (r_buffer s2))" "ssh_read_state.more s2 = ssh_read_state.more s"
    using inv window_move(2-4) [OF ok] sum limit
    by (auto simp: s2_def read_inv_def unread_def u32_less moved_def)
  have lim: "unat (r_length s2) < unat limit" using limit(2) s2(4) by simp
  show ?thesis
  proof (cases rule: read_behind [OF s2(1,5) lim, of fd])
    case (1 e fd')
    then have "ssh_read_some s fd limit = Some (Read_error e, s2, fd')"
      using limit unfolding ssh_read_some_def step by (simp add: lsh_string_length_def u32_less Let_def)
    then show ?thesis using s2 1 lim by (simp add: reads_from_def)
  next
    case (2 b taken fd')
    then have eq: "ssh_read_some s fd limit =
       (if taken = [] then Some (Read_eof, s2\<lparr>r_buffer := b\<rparr>, fd')
        else Some (Read_ok, s2\<lparr>r_buffer := b, r_length := r_length s2 + of_nat (length taken),
              r_status := (if of_nat (length taken) < limit - r_length s2 \<or> \<not> sk_readable fd'
                           then SSH_READ_PUSH else SSH_READ_PENDING)\<rparr>, fd'))"
      using limit unfolding ssh_read_some_def step by (simp add: lsh_string_length_def u32_less Let_def)
    have "unat (r_length s2 + of_nat (length taken)) = unat (r_length s) + length taken"
      using length_window [OF 2(2)] 2(4) s2 length_unread [OF inv] by simp
    then show ?thesis using 2 s2 lim by (auto simp: eq reads_from_def read_inv_def unread_def)
  qed
qed

text \<open>The events and bytes that a socket still holds; every read that does not end the stream makes progress.\<close>

definition sk_measure :: "socket \<Rightarrow> nat" where
  "sk_measure sk = length (sk_events sk) + length (sk_input sk)"

lemma reads_from_facts:
  assumes "reads_from s sk limit o' s' sk'"
  shows "read_inv s'" "unread s' @ sk_input sk' = unread s @ sk_input sk" "str_length (r_buffer s') = str_length (r_buffer s)"
    "set (sk_errors sk') \<subseteq> set (sk_errors sk)" "o' \<noteq> Read_eof \<Longrightarrow> sk_measure sk' < sk_measure sk" "sk_measure sk' \<le> sk_measure sk"
    "ssh_read_state.more s' = ssh_read_state.more s" "o' = Read_eof \<Longrightarrow> sk_input sk = [] \<and> unread s' = unread s"
    "o' = Read_error e \<Longrightarrow> e \<in> set (sk_errors sk) \<and> e \<noteq> EINTR"
proof -
  obtain taken where t: "unread s' = unread s @ taken" "sk_input sk = taken @ sk_input sk'" "taken \<noteq> [] \<longleftrightarrow> o' = Read_ok"
      "o' = Read_eof \<longrightarrow> sk_input sk = []"
    using assms by (auto simp: reads_from_def)
  have r: "length (sk_events sk') \<le> length (sk_events sk)" "\<And>e. o' = Read_error e \<Longrightarrow> length (sk_events sk') < length (sk_events sk)"
    using assms by (auto simp: reads_from_def)
  show "unread s' @ sk_input sk' = unread s @ sk_input sk" "sk_measure sk' \<le> sk_measure sk"
    "o' = Read_eof \<Longrightarrow> sk_input sk = [] \<and> unread s' = unread s"
    using t r(1) by (auto simp: sk_measure_def)
  show "o' \<noteq> Read_eof \<Longrightarrow> sk_measure sk' < sk_measure sk"
    using t(2,3) r by (cases o'; cases taken) (auto simp: sk_measure_def)
qed (use assms in \<open>auto simp: reads_from_def\<close>)

end
