(* ===== verification/Crypto.thy ===== *)
theory Crypto
  imports Ssh
begin

text \<open>
  \<open>src/crypto.h\<close>, \<open>src/crypto.c\<close>, \<open>src/compress.h\<close> and \<open>src/zlib.c\<close>: the objects that encrypt,
  authenticate and compress packets. The algorithms are those of nettle and zlib; an instance here is its parameters
  and methods, with the state of the algorithm as a component. \<open>inverse_ciphers\<close> and
  \<open>mac_laws\<close> state what is relied on: decryption undoes encryption and works block by block, and a message
  authentication code does not depend on how the data was split over the updates. The padding of encrypted
  private keys is shown to be removed by decryption.
\<close>

section \<open>Ciphers\<close>

record 'c crypto_instance =
  c_block_size :: u32
  c_crypt :: "'c \<Rightarrow> bytes \<Rightarrow> 'c \<times> bytes"
  c_ctx :: 'c

text \<open>All instances call \<open>lsh_string_crypt\<close> or a variant of it for a mode; the length must be a
  multiple of the block size. \<open>same\<close> says whether source and destination are the same string.\<close>

definition CRYPT ::
  "'c crypto_instance \<Rightarrow> u32 \<Rightarrow> bool \<Rightarrow> lsh_string \<Rightarrow> u32 \<Rightarrow> lsh_string \<Rightarrow> u32 \<Rightarrow>
   ('c crypto_instance \<times> lsh_string) option" where
  "CRYPT self l same dst di src si =
     do { c_assert (l mod c_block_size self = 0);
          (ctx, dst) \<leftarrow> lsh_string_crypt (c_crypt self) (c_ctx self) same dst di src si l;
          Some (self\<lparr>c_ctx := ctx\<rparr>, dst) }"

definition crypt_string :: "'c crypto_instance \<Rightarrow> lsh_string \<Rightarrow> ('c crypto_instance \<times> lsh_string option) option" where
  "crypt_string c s =
     do { let l = lsh_string_length s;
          if c_block_size c \<noteq> 0 \<and> l mod c_block_size c \<noteq> 0 then Some (c, None)
          else do { (c, out) \<leftarrow> CRYPT c l True s 0 s 0; Some (c, Some out) } }"

definition crypt_string_pad ::
  "(nat \<Rightarrow> byte) \<Rightarrow> 'c crypto_instance \<Rightarrow> lsh_string \<Rightarrow> ('c crypto_instance \<times> lsh_string option) option" where
  "crypt_string_pad junk c s =
     do { let l = lsh_string_length s;
          let pad = c_block_size c - l mod c_block_size c;
          c_assert (pad \<noteq> 0);
          (t, ps) \<leftarrow> ssh_format no_bignum junk ''%lfS%lr'' [String_arg s, Int_arg pad, Pos_arg True];
          t \<leftarrow> lsh_string_set t (hd ps) pad (ucast pad);
          crypt_string c t }"

definition crypt_string_unpad ::
  "'c crypto_instance \<Rightarrow> lsh_string \<Rightarrow> ('c crypto_instance \<times> lsh_string option) option" where
  "crypt_string_unpad c s =
     do { c_assert (lsh_string_length s \<noteq> 0);
          (c, out) \<leftarrow> crypt_string c s;
          (case out of
             None \<Rightarrow> Some (c, None)
           | Some out \<Rightarrow>
               do { let l = lsh_string_length out;
                    let pad = ucast (lsh_string_data out ! (unat l - 1));
                    if pad > 0 \<and> pad \<le> c_block_size c
                    then do { c_assert (pad \<le> l);
                              out \<leftarrow> lsh_string_trunc out (l - pad);
                              Some (c, Some out) }
                    else Some (c, None) }) }"

section \<open>Message authentication codes\<close>

record 'm mac_instance =
  m_size :: u32
  m_update :: "'m \<Rightarrow> bytes \<Rightarrow> 'm"
  m_digest :: "'m \<Rightarrow> 'm \<times> bytes"
  m_ctx :: 'm

definition do_hmac_update :: "'m mac_instance \<Rightarrow> u32 \<Rightarrow> bytes \<Rightarrow> 'm mac_instance" where
  "do_hmac_update self l data = self\<lparr>m_ctx := m_update self (m_ctx self) (take (unat l) data)\<rparr>"

text \<open>\<open>hmac_digest\<close> also resets the state for the next message.\<close>

definition lsh_string_write_hmac :: "bytes \<Rightarrow> lsh_string \<Rightarrow> u32 \<Rightarrow> u32 \<Rightarrow> lsh_string option" where
  "lsh_string_write_hmac digest s start l =
     do { ASSERT_ROOM s start l;
          let s' = s\<lparr>str_data := overwrite (unat start) digest (str_data s)\<rparr>;
          ASSERT_NUL s';
          Some s' }"

definition do_hmac_digest :: "'m mac_instance \<Rightarrow> lsh_string \<Rightarrow> u32 \<Rightarrow> ('m mac_instance \<times> lsh_string) option" where
  "do_hmac_digest self res start =
     do { let (ctx, digest) = m_digest self (m_ctx self);
          res \<leftarrow> lsh_string_write_hmac digest res start (m_size self);
          Some (self\<lparr>m_ctx := ctx\<rparr>, res) }"

text \<open>An algorithm, which makes an instance from the length and the bytes of a key.\<close>

record 'm mac_algorithm =
  ma_mac_size :: u32
  ma_key_size :: u32
  ma_make_mac :: "u32 \<Rightarrow> bytes \<Rightarrow> 'm mac_instance"

definition mac_string :: "(nat \<Rightarrow> byte) \<Rightarrow> 'm mac_algorithm \<Rightarrow> lsh_string \<Rightarrow> lsh_string \<Rightarrow> lsh_string option" where
  "mac_string junk a key s =
     do { let mac = ma_make_mac a (lsh_string_length key) (lsh_string_data key);
          let mac = do_hmac_update mac (lsh_string_length s) (lsh_string_data s);
          (_, out) \<leftarrow> do_hmac_digest mac (lsh_string_alloc junk (m_size mac)) 0;
          Some out }"

section \<open>Compression\<close>

datatype zlib_code = Z_OK | Z_BUF_ERROR | Z_error

text \<open>\<open>deflate\<close> or \<open>inflate\<close> with \<open>Z_SYNC_FLUSH\<close>: from the state, the input and the space for output to the new
  state, the return code, what is left of the input and the output.\<close>

record 'z zlib_instance =
  z_f :: "'z \<Rightarrow> bytes \<Rightarrow> nat \<Rightarrow> 'z \<times> zlib_code \<times> nat \<times> bytes"
  z_ctx :: 'z

definition lsh_string_zlib ::
  "lsh_string \<Rightarrow> u32 \<Rightarrow> 'z zlib_instance \<Rightarrow> bytes \<Rightarrow> u32 \<Rightarrow> ('z zlib_instance \<times> lsh_string \<times> zlib_code \<times> nat \<times> u32) option" where
  "lsh_string_zlib s start z input l =
     do { ASSERT_ROOM s start l;
          let (ctx, rc, avail_in, out) = z_f z (z_ctx z) input (unat l);
          let s' = s\<lparr>str_data := overwrite (unat start) out (str_data s)\<rparr>;
          ASSERT_NUL s';
          Some (z\<lparr>z_ctx := ctx\<rparr>, s', rc, avail_in, l - of_nat (length out)) }"

definition do_zlib ::
  "'z zlib_instance \<Rightarrow> lsh_string \<Rightarrow> u32 \<Rightarrow> u32 \<Rightarrow> bytes \<Rightarrow> (u32 \<times> 'z zlib_instance \<times> lsh_string) option" where
  "do_zlib self output start l input =
     do { c_assert (l > 0);
          let space = lsh_string_length output - start;
          (self, output, rc, avail_in, avail_out) \<leftarrow> lsh_string_zlib output start self (take (unat l) input) space;
          (if rc = Z_error then Some (0, self, output)
           else if avail_out = 0 then Some (0, self, output)
           else do { c_assert (avail_in = 0); Some (space - avail_out, self, output) }) }"

section \<open>What is relied on\<close>

definition inverse_ciphers :: "'c crypto_instance \<Rightarrow> 'c crypto_instance \<Rightarrow> ('c \<Rightarrow> 'c \<Rightarrow> bool) \<Rightarrow> bool" where
  "inverse_ciphers e d R \<longleftrightarrow> c_block_size e = c_block_size d \<and>
     (\<forall>x y bs. R x y \<longrightarrow> unat (c_block_size e) dvd length bs \<longrightarrow>
        length (snd (c_crypt e x bs)) = length bs \<and> snd (c_crypt d y (snd (c_crypt e x bs))) = bs
        \<and> R (fst (c_crypt e x bs)) (fst (c_crypt d y (snd (c_crypt e x bs)))))"

definition blockwise :: "'c crypto_instance \<Rightarrow> bool" where
  "blockwise d \<longleftrightarrow> (\<forall>y xs. length (snd (c_crypt d y xs)) = length xs) \<and>
     (\<forall>y xs ys. unat (c_block_size d) dvd length xs \<longrightarrow>
        c_crypt d y (xs @ ys) =
          (let (y1, a) = c_crypt d y xs; (y2, b) = c_crypt d y1 ys in (y2, a @ b)))"

definition mac_laws :: "'m mac_instance \<Rightarrow> bool" where
  "mac_laws m \<longleftrightarrow> (\<forall>x. length (snd (m_digest m x)) = unat (m_size m)) \<and>
     (\<forall>x a b. m_update m (m_update m x a) b = m_update m x (a @ b))"

section \<open>Ciphers in place\<close>

lemma CRYPT_in_place:
  assumes "nul_terminated s" "room s i l" "l mod c_block_size c = 0"
    and "length (snd (c_crypt c (c_ctx c) (slice (unat i) (unat l) (str_data s)))) = unat l"
  shows "CRYPT c l True s i s i =
    Some (c\<lparr>c_ctx := fst (c_crypt c (c_ctx c) (slice (unat i) (unat l) (str_data s)))\<rparr>,
          s\<lparr>str_data := overwrite (unat i) (snd (c_crypt c (c_ctx c) (slice (unat i) (unat l) (str_data s)))) (str_data s)\<rparr>)"
proof -
  obtain y out where c: "c_crypt c (c_ctx c) (slice (unat i) (unat l) (str_data s)) = (y, out)" by fastforce
  have "nul_terminated (s\<lparr>str_data := overwrite (unat i) out (str_data s)\<rparr>)"
    using assms c by (intro nul_terminated_overwrite) (auto simp: room_def)
  then show ?thesis using assms c by (simp add: CRYPT_def lsh_string_crypt_def ASSERT_ROOM_eq)
qed

lemma slice_contents: "nul_terminated s \<Longrightarrow> slice 0 (unat (str_length s)) (str_data s) = contents s"
  by (simp add: slice_def contents_def)

text \<open>Encrypting a whole string.\<close>

lemma crypt_string_ok:
  assumes "nul_terminated s" "unat (c_block_size c) dvd unat (str_length s)"
    and "length (snd (c_crypt c (c_ctx c) (contents s))) = length (contents s)"
  shows "\<exists>t. crypt_string c s = Some (c\<lparr>c_ctx := fst (c_crypt c (c_ctx c) (contents s))\<rparr>, Some t) \<and> nul_terminated t
    \<and> contents t = snd (c_crypt c (c_ctx c) (contents s)) \<and> str_length t = str_length s"
proof -
  have m: "str_length s mod c_block_size c = 0" using assms(2) by (simp add: word_unat_eq_iff unat_mod)
  let ?t = "s\<lparr>str_data := overwrite 0 (snd (c_crypt c (c_ctx c) (contents s))) (str_data s)\<rparr>"
  have "CRYPT c (str_length s) True s 0 s 0 = Some (c\<lparr>c_ctx := fst (c_crypt c (c_ctx c) (contents s))\<rparr>, ?t)"
    using CRYPT_in_place [OF assms(1) _ m, of 0] assms(1,3) by (simp add: room_def slice_contents)
  moreover have "nul_terminated ?t" "contents ?t = snd (c_crypt c (c_ctx c) (contents s))"
    using assms nul_terminated_overwrite [of s 0] contents_overwrite [of s 0] by (auto simp: overwrite_whole)
  ultimately show ?thesis using m by (simp add: crypt_string_def lsh_string_length_def)
qed

section \<open>The padding of encrypted keys\<close>

definition pad_size :: "'c crypto_instance \<Rightarrow> lsh_string \<Rightarrow> nat" where
  "pad_size c s = unat (c_block_size c) - unat (str_length s) mod unat (c_block_size c)"

lemma pad_size_bounds: "c_block_size c \<noteq> 0 \<Longrightarrow> 0 < pad_size c s \<and> pad_size c s \<le> unat (c_block_size c)"
  by (simp add: pad_size_def word_unat_eq_iff)

lemma pad_size_dvd:
  assumes "c_block_size c \<noteq> 0"
  shows "unat (c_block_size c) dvd unat (str_length s) + pad_size c s"
proof -
  have "unat (str_length s) mod unat (c_block_size c) < unat (c_block_size c)" using assms by (simp add: word_unat_eq_iff)
  then show ?thesis
    unfolding pad_size_def by (metis add.commute dvd_triv_left le_add_diff_inverse2 less_imp_le_nat minus_mod_eq_mult_div
        mult.commute add_diff_assoc2 dvd_add_triv_left_iff mod_less_eq_dividend)
qed

text \<open>The string before encryption.\<close>

lemma pad_format:
  assumes "nul_terminated s" "c_block_size c \<noteq> 0" "unat (c_block_size c) < 256"
    and small: "unat (str_length s) + unat (c_block_size c) < 4294967296"
  defines "pad \<equiv> c_block_size c - str_length s mod c_block_size c"
  shows "\<exists>t t' ps. ssh_format no_bignum junk ''%lfS%lr'' [String_arg s, Int_arg pad, Pos_arg True] = Some (t, ps)
    \<and> lsh_string_set t (hd ps) pad (ucast pad) = Some t' \<and> nul_terminated t'
    \<and> contents t' = contents s @ replicate (pad_size c s) (of_nat (pad_size c s))"
proof -
  note b = pad_size_bounds [OF assms(2), of s]
  have pad: "unat pad = pad_size c s"
    using b assms(2) by (simp add: pad_def pad_size_def unat_sub word_le_nat_alt unat_mod less_imp_le_nat)
  have ucast: "(ucast pad :: byte) = of_nat (pad_size c s)"
    using pad by (metis of_nat_unat)
  let ?h = "map (\<lambda>i. junk (length (contents s) + i)) [0..<unat pad]"
  have r: "render no_bignum junk ''%lfS%lr'' [String_arg s, Int_arg pad, Pos_arg True] = Some (contents s @ ?h)"
    using assms(1) by (simp add: render_simps)
  have p: "render_positions no_bignum junk (scan_format ''%lfS%lr'') 0 [String_arg s, Int_arg pad, Pos_arg True] = [str_length s]"
    using assms(1) by (simp add: conv_positions_def render_simps)
  obtain t where t: "ssh_format no_bignum junk ''%lfS%lr'' [String_arg s, Int_arg pad, Pos_arg True] = Some (t, [str_length s])"
      "nul_terminated t" "contents t = contents s @ ?h" "str_length t = of_nat (length (contents s @ ?h))"
    using ssh_format_holes [OF r] p small b pad assms(1) by auto
  have len: "unat (str_length t) = unat (str_length s) + unat pad"
    using t(4) assms(1) small b pad by (simp add: unat_u32_of_nat del: of_nat_add)
  let ?t = "t\<lparr>str_data := overwrite (unat (str_length s)) (replicate (unat pad) (ucast pad)) (str_data t)\<rparr>"
  have ok: "nul_terminated ?t" "contents ?t = overwrite (unat (str_length s)) (replicate (unat pad) (ucast pad)) (contents t)"
    using t(2) len by (intro nul_terminated_overwrite contents_overwrite; simp)+
  then have "lsh_string_set t (str_length s) pad (ucast pad) = Some ?t"
    using len by (simp add: lsh_string_set_def ASSERT_ROOM_eq room_def)
  moreover have "contents ?t = contents s @ replicate (pad_size c s) (of_nat (pad_size c s))"
    unfolding ok(2) using t(3) assms(1) pad ucast by (simp add: overwrite_def)
  ultimately show ?thesis using t(1) ok(1) by auto
qed

lemma crypt_string_pad_ok:
  assumes "nul_terminated s" "c_block_size c \<noteq> 0" "unat (c_block_size c) < 256"
    and "unat (str_length s) + unat (c_block_size c) < 4294967296"
    and keep: "\<And>bs. unat (c_block_size c) dvd length bs \<Longrightarrow> length (snd (c_crypt c (c_ctx c) bs)) = length bs"
  defines "bs \<equiv> contents s @ replicate (pad_size c s) (of_nat (pad_size c s))"
  shows "\<exists>t. crypt_string_pad junk c s = Some (c\<lparr>c_ctx := fst (c_crypt c (c_ctx c) bs)\<rparr>, Some t) \<and> nul_terminated t
    \<and> contents t = snd (c_crypt c (c_ctx c) bs)"
proof -
  let ?pad = "c_block_size c - str_length s mod c_block_size c"
  obtain t t' ps where f: "ssh_format no_bignum junk ''%lfS%lr'' [String_arg s, Int_arg ?pad, Pos_arg True] = Some (t, ps)"
      "lsh_string_set t (hd ps) ?pad (ucast ?pad) = Some t'" "nul_terminated t'" "contents t' = bs"
    using pad_format [OF assms(1-4), of junk] unfolding bs_def by auto
  have "str_length s mod c_block_size c < c_block_size c" using assms(2) by (simp add: word_mod_less_divisor word_gt_0)
  then have "?pad \<noteq> 0" by auto
  moreover have dvd: "unat (c_block_size c) dvd length bs"
    using pad_size_dvd [OF assms(2), of s] assms(1) by (simp add: bs_def)
  moreover have "unat (str_length t') = length bs" using f(3,4) length_contents by metis
  ultimately show ?thesis
    using crypt_string_ok [OF f(3), of c] f keep [OF dvd] by (auto simp: crypt_string_pad_def lsh_string_length_def)
qed

lemma trunc_contents:
  assumes "nul_terminated s" "l \<le> str_length s"
  shows "\<exists>t. lsh_string_trunc s l = Some t \<and> nul_terminated t \<and> contents t = take (unat l) (contents s) \<and> str_length t = l"
  using assms by (auto simp: lsh_string_trunc_def nul_terminated_def contents_def u32_le)

text \<open>C32 Encrypted private keys: padding and encrypting a string and then decrypting and unpadding it, with ciphers that
  are inverse to each other and blocks of less than 256 bytes, gives the contents back.\<close>

theorem crypt_pad_roundtrip:
  assumes "nul_terminated s" "c_block_size e \<noteq> 0" "unat (c_block_size e) < 256"
    and "unat (str_length s) + unat (c_block_size e) < 4294967296"
    and inverse: "inverse_ciphers e d R" "R (c_ctx e) (c_ctx d)"
  shows "\<exists>e' t d' s'. crypt_string_pad junk e s = Some (e', Some t) \<and> crypt_string_unpad d t = Some (d', Some s')
    \<and> nul_terminated s' \<and> contents s' = contents s"
proof -
  let ?p = "pad_size e s" and ?bs = "contents s @ replicate (pad_size e s) (of_nat (pad_size e s))"
  note b = pad_size_bounds [OF assms(2), of s]
  have dvd: "unat (c_block_size e) dvd length ?bs" using pad_size_dvd [OF assms(2), of s] assms(1) by simp
  have inv: "length (snd (c_crypt e (c_ctx e) bs)) = length bs" "snd (c_crypt d (c_ctx d) (snd (c_crypt e (c_ctx e) bs))) = bs"
    if "unat (c_block_size e) dvd length bs" for bs
    using inverse that by (auto simp: inverse_ciphers_def)
  obtain e' t where t: "crypt_string_pad junk e s = Some (e', Some t)" "nul_terminated t"
      "contents t = snd (c_crypt e (c_ctx e) ?bs)"
    using crypt_string_pad_ok [OF assms(1-4) inv(1), of junk] by blast
  have len: "unat (str_length t) = unat (str_length s) + ?p"
    using length_contents [OF t(2)] t(3) inv(1) [OF dvd] assms(1) by simp
  have block: "c_block_size d = c_block_size e" using inverse(1) by (simp add: inverse_ciphers_def)
  obtain d' u where u: "crypt_string d t = Some (d', Some u)" "c_block_size d' = c_block_size e" "nul_terminated u"
      "contents u = ?bs" "str_length u = str_length t"
    using crypt_string_ok [OF t(2), of d] t(3) inv [OF dvd] dvd len block assms(1) by auto
  have last: "str_data u ! (unat (str_length u) - 1) = of_nat ?p"
  proof -
    have "str_data u ! (unat (str_length u) - 1) = contents u ! (unat (str_length u) - 1)"
      using u(5) len b by (simp add: contents_def)
    then show ?thesis using u(4,5) len b assms(1) by (auto simp: nth_append)
  qed
  have pad: "unat (ucast (of_nat ?p :: byte) :: u32) = ?p"
    using b assms(3) by (simp add: unat_of_nat)
  then have gt: "ucast (of_nat ?p :: byte) > (0 :: u32)" using b by (simp add: word_gt_0 word_unat_eq_iff del: unat_ucast_byte)
  have diff: "unat (str_length u - ucast (of_nat ?p :: byte)) = unat (str_length s)"
    using u(5) len pad by (simp add: unat_u32_diff)
  obtain s' where "lsh_string_trunc u (str_length u - ucast (of_nat ?p :: byte)) = Some s'" "nul_terminated s'"
      "contents s' = take (unat (str_length s)) (contents u)"
    using trunc_contents [OF u(3), of "str_length u - ucast (of_nat ?p :: byte)"] diff u(5) len by (auto simp: u32_le)
  moreover from this have "contents s' = contents s" using u(4) assms(1) by simp
  moreover have "str_length t \<noteq> 0" using len b by auto
  ultimately have "crypt_string_unpad d t = Some (d', Some s')"
    using u last gt pad b len by (simp add: crypt_string_unpad_def lsh_string_length_def lsh_string_data_def u32_le Let_def)
  then show ?thesis using t(1) \<open>nul_terminated s'\<close> \<open>contents s' = contents s\<close> by blast
qed

text \<open>A cipher that adds one to every byte, and its inverse, for the witnesses.\<close>

definition shift_cipher :: "byte \<Rightarrow> unit crypto_instance" where
  "shift_cipher k = \<lparr>c_block_size = 8, c_crypt = \<lambda>_ bs. ((), map (\<lambda>b. b + k) bs), c_ctx = ()\<rparr>"

lemma shift_cipher_inverse: "inverse_ciphers (shift_cipher k) (shift_cipher (- k)) (\<lambda>_ _. True)" "blockwise (shift_cipher k)"
  by (simp_all add: inverse_ciphers_def blockwise_def shift_cipher_def comp_def)

theorem crypt_pad_roundtrip_witness:
  "\<exists>e' t d' s'. crypt_string_pad (\<lambda>_. 0) (shift_cipher 1) \<lparr>str_length = 2, str_data = [7, 9, 0]\<rparr> = Some (e', Some t)
    \<and> crypt_string_unpad (shift_cipher (- 1)) t = Some (d', Some s') \<and> nul_terminated s' \<and> contents s' = [7, 9]"
  using crypt_pad_roundtrip [OF _ _ _ _ shift_cipher_inverse(1), of "\<lparr>str_length = 2, str_data = [7, 9, 0]\<rparr>" 1 "\<lambda>_. 0"]
  by (simp add: nul_terminated_def shift_cipher_def contents_def)

end
