(* ===== verification/Encrypt.thy ===== *)
theory Encrypt
  imports Crypto
begin

text \<open>
  \<open>src/encrypt.c\<close>: a payload is compressed, padded to whole blocks, authenticated and encrypted. The packet on the
  wire is described by \<open>plain_packet\<close>, \<open>crypt_bytes\<close> and \<open>mac_tag\<close>; the lemma \<open>encrypt_packet_ok\<close> shows that
  the code produces it and passes its assertions for every block size up to 252 bytes.
\<close>

abbreviation (input) block_size_of :: "'c crypto_instance option \<Rightarrow> u32" where
  "block_size_of crypt \<equiv> (case crypt of None \<Rightarrow> 8 | Some c \<Rightarrow> c_block_size c)"

abbreviation (input) mac_size_of :: "'m mac_instance option \<Rightarrow> u32" where
  "mac_size_of mac \<equiv> (case mac of None \<Rightarrow> 0 | Some m \<Rightarrow> m_size m)"

definition deflate_packet ::
  "(nat \<Rightarrow> byte) \<Rightarrow> 'z zlib_instance option \<Rightarrow> lsh_string \<Rightarrow> (u32 \<times> lsh_string \<times> 'z zlib_instance option) option" where
  "deflate_packet junk compress packet =
     (case compress of
        None \<Rightarrow> Some (lsh_string_length packet, packet, None)
      | Some z \<Rightarrow>
          do { let n = lsh_string_alloc junk (SSH_MAX_PACKET + SSH_MAX_PACKET_FUZZ);
               (l, z, n) \<leftarrow> do_zlib z n 0 (lsh_string_length packet) (lsh_string_data packet);
               c_assert (l > 0);
               n \<leftarrow> lsh_string_trunc n l;
               Some (l, n, Some z) })"

definition mac_packet ::
  "'m mac_instance option \<Rightarrow> u32 \<Rightarrow> u32 \<Rightarrow> u32 \<Rightarrow> lsh_string \<Rightarrow> ('m mac_instance option \<times> lsh_string) option" where
  "mac_packet mac seqno new_size mac_start packet =
     (case mac of
        None \<Rightarrow> Some (None, packet)
      | Some m \<Rightarrow>
          do { c_assert (new_size = mac_start);
               let m = do_hmac_update m 4 (WRITE_UINT32 seqno);
               let m = do_hmac_update m new_size (lsh_string_data packet);
               (m, packet) \<leftarrow> do_hmac_digest m packet mac_start;
               Some (Some m, packet) })"

definition encrypt_packet ::
  "(nat \<Rightarrow> byte) \<Rightarrow> (nat \<Rightarrow> byte) \<Rightarrow> lsh_string \<Rightarrow> 'z zlib_instance option \<Rightarrow> 'c crypto_instance option \<Rightarrow> 'm mac_instance option \<Rightarrow> u32 \<Rightarrow>
   (lsh_string \<times> 'z zlib_instance option \<times> 'c crypto_instance option \<times> 'm mac_instance option) option" where
  "encrypt_packet junk rnd packet compress crypt mac seqno =
     do { c_assert (lsh_string_length packet \<noteq> 0);
          (l, packet, compress) \<leftarrow> deflate_packet junk compress packet;
          let block_size = block_size_of crypt;
          let mac_length = mac_size_of mac;
          let new_size = block_size * (1 + (8 + l) div block_size);
          let padding_length = (ucast (new_size - l - 5) :: byte);
          c_assert (padding_length \<ge> 4);
          (packet, ps) \<leftarrow> ssh_format no_bignum junk ''%i%c%lfS%lr%lr''
             [Int_arg (l + ucast padding_length + 1), Int_arg (ucast padding_length), String_arg packet,
              Int_arg (ucast padding_length), Pos_arg True, Int_arg mac_length, Pos_arg True];
          c_assert (new_size + mac_length = lsh_string_length packet);
          packet \<leftarrow> lsh_string_write_random rnd packet (ps ! 0) (ucast padding_length);
          (mac, packet) \<leftarrow> mac_packet mac seqno new_size (ps ! 1) packet;
          (crypt, packet) \<leftarrow>
            (case crypt of
               None \<Rightarrow> Some (None, packet)
             | Some c \<Rightarrow> do { (c, packet) \<leftarrow> CRYPT c new_size True packet 0 packet 0; Some (Some c, packet) });
          Some (packet, compress, crypt, mac) }"

section \<open>The packet on the wire\<close>

definition pad_length :: "nat \<Rightarrow> nat \<Rightarrow> nat" where
  "pad_length bs n = bs * (1 + (8 + n) div bs) - n - 5"

definition plain_packet :: "nat \<Rightarrow> (nat \<Rightarrow> byte) \<Rightarrow> bytes \<Rightarrow> bytes" where
  "plain_packet bs rnd p =
     (let k = pad_length bs (length p) in
      WRITE_UINT32 (of_nat (length p + k + 1)) @ [of_nat k] @ p @ map rnd [0..<k])"

definition crypt_bytes :: "'c crypto_instance option \<Rightarrow> bytes \<Rightarrow> 'c crypto_instance option \<times> bytes" where
  "crypt_bytes crypt bs =
     (case crypt of
        None \<Rightarrow> (None, bs)
      | Some c \<Rightarrow> (Some (c\<lparr>c_ctx := fst (c_crypt c (c_ctx c) bs)\<rparr>), snd (c_crypt c (c_ctx c) bs)))"

definition mac_tag :: "'m mac_instance option \<Rightarrow> u32 \<Rightarrow> bytes \<Rightarrow> 'm mac_instance option \<times> bytes" where
  "mac_tag mac seqno bs =
     (case mac of
        None \<Rightarrow> (None, [])
      | Some m \<Rightarrow> let (x, tag) = m_digest m (m_update m (m_ctx m) (WRITE_UINT32 seqno @ bs)) in (Some (m\<lparr>m_ctx := x\<rparr>), tag))"

text \<open>The sizes.\<close>

lemma pad_length_bounds:
  assumes "0 < bs"
  shows "4 \<le> pad_length bs n" "pad_length bs n \<le> bs + 3" "n + 5 + pad_length bs n = bs * (1 + (8 + n) div bs)"
proof -
  have "bs * ((8 + n) div bs) \<le> 8 + n" "8 + n < bs * ((8 + n) div bs) + bs"
    using dividend_less_times_div [OF assms, of "8 + n"] by (simp_all add: add.commute)
  then have "8 + n < bs * (1 + (8 + n) div bs)" "bs * (1 + (8 + n) div bs) \<le> 8 + n + bs" by auto
  then show "4 \<le> pad_length bs n" "pad_length bs n \<le> bs + 3" "n + 5 + pad_length bs n = bs * (1 + (8 + n) div bs)"
    unfolding pad_length_def by arith+
qed

lemma length_plain_packet:
  "0 < bs \<Longrightarrow> length (plain_packet bs rnd p) = length p + 5 + pad_length bs (length p)"
  by (simp add: plain_packet_def Let_def)

lemma plain_packet_dvd: "0 < bs \<Longrightarrow> bs dvd length (plain_packet bs rnd p)"
  by (simp only: length_plain_packet pad_length_bounds(3)) simp

lemma length_mac_tag: "(\<And>m. mac = Some m \<Longrightarrow> mac_laws m) \<Longrightarrow> length (snd (mac_tag mac seqno bs)) = unat (mac_size_of mac)"
  by (auto simp: mac_tag_def mac_laws_def split: option.splits prod.splits) (metis snd_conv)

lemma unat_new_size:
  assumes "0 < unat b" "unat l + unat b < 4294967288"
  shows "unat (b * (1 + (8 + l) div b) :: u32) = unat b * (1 + (8 + unat l) div unat b)"
proof -
  have s: "unat (8 + l) = 8 + unat l" using assms(2) by (simp add: unat_u32_mod)
  have "unat b * (1 + (8 + unat l) div unat b) < 4294967296"
    using pad_length_bounds [OF assms(1), of "unat l"] assms(2) by linarith
  moreover have "1 + (8 + unat l) div unat b < 4294967296"
    using div_le_dividend [of "8 + unat l" "unat b"] assms by linarith
  ultimately show ?thesis using s by (simp add: unat_word_ariths unat_div)
qed

lemma unat_padding:
  assumes "0 < unat b" "unat b \<le> 252" "unat l + unat b < 4294967288"
  shows "unat (ucast (b * (1 + (8 + l) div b) - l - 5 :: u32) :: byte) = pad_length (unat b) (unat l)"
proof -
  note p = pad_length_bounds [OF assms(1), of "unat l"] and n = unat_new_size [OF assms(1,3)]
  have "unat (b * (1 + (8 + l) div b) - l) = 5 + pad_length (unat b) (unat l)" using n p by (simp add: unat_u32_diff)
  then have "unat (b * (1 + (8 + l) div b) - l - 5) = pad_length (unat b) (unat l)" by (simp add: unat_u32_diff)
  then show ?thesis using p(2) assms(2) by (simp add: unsigned_ucast_eq take_bit_nat_eq_self)
qed

lemma ucast_ucast_byte [simp]: "(ucast (ucast k :: u32) :: byte) = k"
  by (rule bit_word_eqI) (simp add: bit_simps)

text \<open>The formatted packet with its padding; the last bytes are the space for the tag.\<close>

lemma format_padded:
  assumes "nul_terminated packet" "contents packet = p" "unat (str_length packet) + 600 + unat mac_length < 4294967296" "4 \<le> k"
  shows "\<exists>t t' hole. ssh_format no_bignum junk ''%i%c%lfS%lr%lr''
      [Int_arg (str_length packet + ucast (k :: byte) + 1), Int_arg (ucast k), String_arg packet,
       Int_arg (ucast k), Pos_arg True, Int_arg mac_length, Pos_arg True]
      = Some (t, [str_length packet + 5, str_length packet + 5 + ucast k])
    \<and> unat (str_length t) = length p + 5 + unat k + unat mac_length
    \<and> lsh_string_write_random rnd t (str_length packet + 5) (ucast k) = Some t' \<and> nul_terminated t' \<and> str_length t' = str_length t
    \<and> contents t' = WRITE_UINT32 (of_nat (length p + unat k + 1)) @ [k] @ p @ map rnd [0..<unat k] @ hole
    \<and> length hole = unat mac_length"
proof -
  let ?args = "[Int_arg (str_length packet + ucast (k :: byte) + 1), Int_arg (ucast k), String_arg packet,
       Int_arg (ucast k), Pos_arg True, Int_arg mac_length, Pos_arg True]"
  let ?h = "WRITE_UINT32 (of_nat (length p + unat k + 1)) @ [k] @ p"
  have len: "length p = unat (str_length packet)" using assms(1,2) by auto
  have k: "unat k < 256" using unsigned_less [of k] by simp
  have w: "str_length packet + ucast k + 1 = of_nat (length p + unat k + 1)" by (simp add: len)
  obtain g1 g2 where r: "render no_bignum junk ''%i%c%lfS%lr%lr'' ?args = Some (?h @ g1 @ g2)"
      "length g1 = unat k" "length g2 = unat mac_length"
    using assms(1,2) w by (simp add: render_simps)
  have small: "length (?h @ g1 @ g2) < 4294967296" using r(2,3) assms(3) k len by simp
  have pos: "render_positions no_bignum junk (scan_format ''%i%c%lfS%lr%lr'') 0 ?args
      = [str_length packet + 5, str_length packet + 5 + ucast k]"
    using assms(1,2) by (simp add: conv_positions_def render_simps len add.commute add.left_commute)
  obtain t where t: "ssh_format no_bignum junk ''%i%c%lfS%lr%lr'' ?args = Some (t, [str_length packet + 5, str_length packet + 5 + ucast k])"
      "nul_terminated t" "contents t = ?h @ g1 @ g2" "str_length t = of_nat (length (?h @ g1 @ g2))"
    using ssh_format_holes [OF r(1) small] pos by auto
  have l: "unat (str_length t) = length p + 5 + unat k + unat mac_length"
    using t(4) small r(2,3) by (simp add: unat_u32_of_nat del: of_nat_add of_nat_Suc)
  have at: "unat (str_length packet + 5) = length p + 5" using assms(3) len by (simp add: unat_u32_mod)
  let ?t = "t\<lparr>str_data := overwrite (length p + 5) (map rnd [0..<unat k]) (str_data t)\<rparr>"
  have ok: "nul_terminated ?t" "contents ?t = overwrite (length p + 5) (map rnd [0..<unat k]) (contents t)"
    using t(2) l by (intro nul_terminated_overwrite contents_overwrite; simp)+
  have "lsh_string_write_random rnd t (str_length packet + 5) (ucast k) = Some ?t"
    using t(2) l at by (simp add: lsh_string_write_random_eq room_def)
  moreover have "contents ?t = ?h @ map rnd [0..<unat k] @ g2"
    unfolding ok(2) t(3) using r(2) by (simp add: overwrite_def)
  ultimately show ?thesis using t(1) l r(3) ok(1) by auto
qed

lemma take_data:
  "\<lbrakk>nul_terminated t; contents t = xs @ ys; unat n = length xs\<rbrakk> \<Longrightarrow> take (unat n) (str_data t) = xs"
  by (metis append_eq_conv_conj contents_def length_append length_contents min.absorb1 le_add1 take_take)

lemma mac_packet_ok:
  assumes "nul_terminated t" "contents t = plain @ hole" "length hole = unat (mac_size_of mac)" "unat new_size = length plain"
    and laws: "\<And>m. mac = Some m \<Longrightarrow> mac_laws m"
  shows "\<exists>t'. mac_packet mac seqno new_size new_size t = Some (fst (mac_tag mac seqno plain), t') \<and> nul_terminated t'
    \<and> contents t' = plain @ snd (mac_tag mac seqno plain) \<and> str_length t' = str_length t"
proof (cases mac)
  case None
  then show ?thesis using assms by (simp add: mac_packet_def mac_tag_def)
next
  case (Some m)
  obtain x tag where d: "m_digest m (m_update m (m_ctx m) (WRITE_UINT32 seqno @ plain)) = (x, tag)" by fastforce
  have up: "m_update m (m_update m (m_ctx m) (WRITE_UINT32 seqno)) plain = m_update m (m_ctx m) (WRITE_UINT32 seqno @ plain)"
    and len: "length tag = unat (m_size m)"
    using laws [OF Some] d by (auto simp: mac_laws_def) (metis snd_conv)
  have total: "unat (str_length t) = length plain + unat (m_size m)"
    using length_contents [OF assms(1)] assms(2,3) Some by simp
  let ?t = "t\<lparr>str_data := overwrite (length plain) tag (str_data t)\<rparr>"
  have ok: "nul_terminated ?t" "contents ?t = overwrite (length plain) tag (contents t)"
    using assms(1) total len by (intro nul_terminated_overwrite contents_overwrite; simp)+
  have "mac_packet mac seqno new_size new_size t = Some (Some (m\<lparr>m_ctx := x\<rparr>), ?t)"
    using Some up d take_data [OF assms(1,2,4)] total ok(1) assms(4)
    by (simp add: mac_packet_def do_hmac_update_def do_hmac_digest_def lsh_string_write_hmac_def ASSERT_ROOM_eq room_def lsh_string_data_def)
  moreover have "contents ?t = plain @ tag" unfolding ok(2) assms(2) using len assms(3) Some by (simp add: overwrite_def)
  ultimately show ?thesis using ok(1) Some d by (simp add: mac_tag_def)
qed

definition cipher_ok :: "'c crypto_instance option \<Rightarrow> bool" where
  "cipher_ok crypt \<longleftrightarrow> 0 < unat (block_size_of crypt) \<and> unat (block_size_of crypt) \<le> 252 \<and>
     (\<forall>c x bs. crypt = Some c \<longrightarrow> unat (c_block_size c) dvd length bs \<longrightarrow> length (snd (c_crypt c x bs)) = length bs)"

lemma crypt_stage_ok:
  assumes "nul_terminated t" "contents t = plain @ tag" "unat new_size = length plain" "cipher_ok crypt"
    and "unat (block_size_of crypt) dvd length plain"
  shows "\<exists>t'. (case crypt of None \<Rightarrow> Some (None, t)
       | Some c \<Rightarrow> do { (c, t) \<leftarrow> CRYPT c new_size True t 0 t 0; Some (Some c, t) }) = Some (fst (crypt_bytes crypt plain), t')
    \<and> nul_terminated t' \<and> contents t' = snd (crypt_bytes crypt plain) @ tag \<and> str_length t' = str_length t"
proof (cases crypt)
  case None
  then show ?thesis using assms by (simp add: crypt_bytes_def)
next
  case (Some c)
  let ?out = "snd (c_crypt c (c_ctx c) plain)"
  have keep: "length ?out = length plain" using assms(4,5) Some by (simp add: cipher_ok_def)
  have total: "unat (str_length t) = length plain + length tag" using length_contents [OF assms(1)] assms(2) by simp
  have "slice 0 (unat new_size) (str_data t) = plain" using take_data [OF assms(1-3)] by (simp add: slice_def)
  moreover have "new_size mod c_block_size c = 0" using assms(3,5) Some by (simp add: word_unat_eq_iff unat_mod)
  ultimately have "CRYPT c new_size True t 0 t 0 = Some (c\<lparr>c_ctx := fst (c_crypt c (c_ctx c) plain)\<rparr>, t\<lparr>str_data := overwrite 0 ?out (str_data t)\<rparr>)"
    using CRYPT_in_place [OF assms(1), of 0 new_size c] total keep assms(3) by (simp add: room_def)
  moreover have "nul_terminated (t\<lparr>str_data := overwrite 0 ?out (str_data t)\<rparr>)"
      "contents (t\<lparr>str_data := overwrite 0 ?out (str_data t)\<rparr>) = overwrite 0 ?out (contents t)"
    using assms(1) total keep by (intro nul_terminated_overwrite contents_overwrite; simp)+
  moreover have "overwrite 0 ?out (contents t) = ?out @ tag" unfolding assms(2) using keep by (simp add: overwrite_def)
  ultimately show ?thesis using Some by (simp add: crypt_bytes_def)
qed

definition wire_packet :: "'c crypto_instance option \<Rightarrow> 'm mac_instance option \<Rightarrow> u32 \<Rightarrow> (nat \<Rightarrow> byte) \<Rightarrow> bytes \<Rightarrow> bytes" where
  "wire_packet crypt mac seqno rnd p =
     (let plain = plain_packet (unat (block_size_of crypt)) rnd p in
      snd (crypt_bytes crypt plain) @ snd (mac_tag mac seqno plain))"

lemma encrypt_packet_ok:
  fixes rnd :: "nat \<Rightarrow> byte"
  assumes "nul_terminated packet" "contents packet = p" "p \<noteq> []" "length p + 600 + unat (mac_size_of mac) < 4294967296"
    and "cipher_ok crypt" and laws: "\<And>m. mac = Some m \<Longrightarrow> mac_laws m"
  defines "plain \<equiv> plain_packet (unat (block_size_of crypt)) rnd p"
  shows "\<exists>t. encrypt_packet junk rnd packet None crypt mac seqno =
      Some (t, None, fst (crypt_bytes crypt plain), fst (mac_tag mac seqno plain))
    \<and> nul_terminated t \<and> contents t = wire_packet crypt mac seqno rnd p"
proof -
  let ?b = "block_size_of crypt" and ?l = "str_length packet"
  let ?n = "?b * (1 + (8 + ?l) div ?b)" and ?k = "ucast (?b * (1 + (8 + ?l) div ?b) - ?l - 5) :: byte"
  have len: "length p = unat ?l" using assms(1,2) by auto
  have b: "0 < unat ?b" "unat ?b \<le> 252" using assms(5) by (auto simp: cipher_ok_def)
  have k: "unat ?k = pad_length (unat ?b) (length p)" and n: "unat ?n = length plain"
    using unat_padding [OF b, of ?l] unat_new_size [OF b(1), of ?l] assms(4) b len
      pad_length_bounds(3) [OF b(1), of "length p"] length_plain_packet [OF b(1), of rnd p] by (auto simp: plain_def)
  have k4: "4 \<le> ?k" using pad_length_bounds(1) [OF b(1), of "length p"] k by (simp add: word_le_nat_alt)
  obtain t1 t2 hole where t: "ssh_format no_bignum junk ''%i%c%lfS%lr%lr''
      [Int_arg (?l + ucast ?k + 1), Int_arg (ucast ?k), String_arg packet,
       Int_arg (ucast ?k), Pos_arg True, Int_arg (mac_size_of mac), Pos_arg True] = Some (t1, [?l + 5, ?l + 5 + ucast ?k])"
    "unat (str_length t1) = length p + 5 + unat ?k + unat (mac_size_of mac)"
    "lsh_string_write_random rnd t1 (?l + 5) (ucast ?k) = Some t2" "nul_terminated t2" "str_length t2 = str_length t1"
    "contents t2 = WRITE_UINT32 (of_nat (length p + unat ?k + 1)) @ [?k] @ p @ map rnd [0..<unat ?k] @ hole"
    "length hole = unat (mac_size_of mac)"
    using format_padded [OF assms(1,2) _ k4, of "mac_size_of mac" junk rnd] assms(4) len by auto
  have "(of_nat (pad_length (unat ?b) (length p)) :: byte) = ?k" using k by (metis of_nat_unat ucast_id)
  then have c2: "contents t2 = plain @ hole" using t(6) k by (simp add: plain_def plain_packet_def Let_def)
  have start: "?l + 5 + ucast ?k = ?n"
  proof (rule word_unat_eq_iff [THEN iffD2])
    have "unat (?l + 5 + ucast ?k) = unat ?l + 5 + unat ?k"
      using assms(4) len k pad_length_bounds(2) [OF b(1), of "length p"] b(2) by (simp add: unat_u32_mod)
    then show "unat (?l + 5 + ucast ?k) = unat ?n" using n k len length_plain_packet [OF b(1), of rnd p] by (simp add: plain_def)
  qed
  have total: "?n + mac_size_of mac = str_length t1"
  proof (rule word_unat_eq_iff [THEN iffD2])
    show "unat (?n + mac_size_of mac) = unat (str_length t1)"
      using n t(2) k unat_u32_bound [of "str_length t1"] length_plain_packet [OF b(1), of rnd p]
      by (simp add: unat_u32_mod plain_def del: unat_u32_bound)
  qed
  obtain t3 where t3: "mac_packet mac seqno ?n ?n t2 = Some (fst (mac_tag mac seqno plain), t3)" "nul_terminated t3"
      "contents t3 = plain @ snd (mac_tag mac seqno plain)"
    using mac_packet_ok [OF t(4) c2 t(7) n laws, of seqno] by auto
  obtain t4 where t4: "(case crypt of None \<Rightarrow> Some (None, t3)
       | Some c \<Rightarrow> do { (c, t) \<leftarrow> CRYPT c ?n True t3 0 t3 0; Some (Some c, t) }) = Some (fst (crypt_bytes crypt plain), t4)"
      "nul_terminated t4" "contents t4 = snd (crypt_bytes crypt plain) @ snd (mac_tag mac seqno plain)"
    using crypt_stage_ok [OF t3(2,3) n assms(5)] plain_packet_dvd [OF b(1), of rnd p] by (auto simp: plain_def)
  have "str_length packet \<noteq> 0" using assms(3) len by auto
  then have "encrypt_packet junk rnd packet None crypt mac seqno =
      Some (t4, None, fst (crypt_bytes crypt plain), fst (mac_tag mac seqno plain))"
    unfolding encrypt_packet_def deflate_packet_def
    by (simp add: lsh_string_length_def k4 t(1,3) total start t3(1) t4(1) Let_def)
  then show ?thesis using t4 by (auto simp: wire_packet_def plain_def Let_def)
qed

end
