(* ===== verification/Transport_Read.thy ===== *)
theory Transport_Read
  imports Ssh_Read Encrypt
begin

text \<open>
  \<open>src/transport_read.c\<close>: the reader of the encrypted side of a connection. It delivers the lines of the version exchange and then
  packets: the first block is decrypted to learn the size, the rest is read and decrypted in place, the message
  authentication code is verified and the payload copied out. The main lemma is that a packet produced by
  \<open>encrypt_packet\<close> comes out of this reader, whatever the chunks in which the bytes arrive.
\<close>

abbreviation (input) TRANSPORT_READ_AHEAD where "TRANSPORT_READ_AHEAD \<equiv> 1000"

record ('c, 'm, 'z) transport_read_state = ssh_read_state +
  t_mac :: "'m mac_instance option"
  t_crypto :: "'c crypto_instance option"
  t_inflate :: "'z zlib_instance option"
  t_seqno :: u32
  t_padding :: byte
  t_total_length :: u32
  t_mac_buffer :: lsh_string

definition make_transport_read_state :: "(nat \<Rightarrow> byte) \<Rightarrow> ('c, 'm, 'z) transport_read_state" where
  "make_transport_read_state junk =
     ssh_read_state.extend (init_ssh_read_state junk (SSH_MAX_PACKET + SSH_MAX_PACKET_FUZZ))
       \<lparr>t_mac = None, t_crypto = None, t_inflate = None, t_seqno = 0, t_padding = 0, t_total_length = 0,
        t_mac_buffer = lsh_string_alloc junk SSH_MAX_MAC_SIZE\<rparr>"

text \<open>What the out parameters are set to: nothing, \<open>errno\<close>, an error code with its message, a line, or
  the sequence number and length of a packet.\<close>

datatype transport_out =
  TR_none | TR_errno errno | TR_error u32 "string option" | TR_line bytes | TR_packet u32 u32

section \<open>Lines\<close>

definition find_line :: "'a ssh_read_state_scheme \<Rightarrow> (ssh_read_status \<times> transport_out) \<times> 'a ssh_read_state_scheme" where
  "find_line self =
     (let data = take (unat (r_length self)) (drop (unat (r_start self)) (lsh_string_data (r_buffer self)));
          eol = length (takeWhile (\<lambda>b. b \<noteq> 0xa) data);
          too_long = ((SSH_READ_PROTOCOL_ERROR, TR_error 0 (Some ''Line too long'')), self) in
      if eol < length data
      then if of_nat eol \<ge> (SSH_MAX_LINE :: u32) then too_long
           else ((SSH_READ_COMPLETE,
                  TR_line (take (eol - (if eol > 0 \<and> data ! (eol - 1) = 0xd then 1 else 0)) data)),
                 self\<lparr>r_start := r_start self + (of_nat eol + 1), r_length := r_length self - (of_nat eol + 1)\<rparr>)
      else if r_length self \<ge> SSH_MAX_LINE then too_long
      else ((r_status self, TR_none), self))"

definition transport_read_line ::
  "'a ssh_read_state_scheme \<Rightarrow> bool \<Rightarrow> socket \<Rightarrow> ((ssh_read_status \<times> transport_out) \<times> 'a ssh_read_state_scheme \<times> socket) option" where
  "transport_read_line self fd sk =
     (let ((status, out), self) =
        (if r_length self = 0 then ((SSH_READ_PUSH, TR_none), self\<lparr>r_start := 0\<rparr>) else find_line self) in
      if status \<le> SSH_READ_COMPLETE then Some ((status, out), self, sk)
      else if \<not> fd then Some ((r_status self, TR_none), self, sk)
      else do {
        (res, self, sk) \<leftarrow> ssh_read_some self sk TRANSPORT_READ_AHEAD;
        (case res of
           Read_eof \<Rightarrow>
             Some (if r_length self = 0 then (SSH_READ_EOF, TR_none) else (SSH_READ_PROTOCOL_ERROR, TR_error 0 None), self, sk)
         | Read_error e \<Rightarrow>
             Some (if e = EWOULDBLOCK then (SSH_READ_PUSH, TR_none) else (SSH_READ_IO_ERROR, TR_errno e), self, sk)
         | Read_ok \<Rightarrow> let (r, self) = find_line self in Some (r, self, sk)) })"

section \<open>Packets\<close>

text \<open>Decryption of what is left of the packet, and verification.\<close>

definition decrypt_rest ::
  "('c, 'm, 'z) transport_read_state \<Rightarrow> u32 \<Rightarrow> u32 \<Rightarrow> ('c, 'm, 'z) transport_read_state option" where
  "decrypt_rest self crypt_done crypt_left =
     (case t_crypto self of
        None \<Rightarrow> Some self
      | Some c \<Rightarrow>
          if crypt_left > 0
          then do { (c, b) \<leftarrow> CRYPT c crypt_left True (r_buffer self) (r_start self + crypt_done)
                                (r_buffer self) (r_start self + crypt_done);
                    Some (self\<lparr>r_buffer := b, t_crypto := Some c\<rparr>) }
          else Some self)"

definition verify_mac ::
  "('c, 'm, 'z) transport_read_state \<Rightarrow> u32 \<Rightarrow> u32 \<Rightarrow> bytes \<Rightarrow> (bool \<times> ('c, 'm, 'z) transport_read_state) option" where
  "verify_mac self crypt_done crypt_left data =
     (case t_mac self of
        None \<Rightarrow> Some (True, self)
      | Some m \<Rightarrow>
          do { let m = (if crypt_left > 0 then do_hmac_update m crypt_left (drop (unat crypt_done) data) else m);
               (m, b) \<leftarrow> do_hmac_digest m (t_mac_buffer self) 0;
               Some (memeq (lsh_string_data b) (drop (unat (t_total_length self - m_size m)) data) (m_size m),
                     self\<lparr>t_mac := Some m, t_mac_buffer := b\<rparr>) })"

definition decode_packet ::
  "('c, 'm, 'z) transport_read_state \<Rightarrow> lsh_string \<Rightarrow>
   ((ssh_read_status \<times> transport_out) \<times> ('c, 'm, 'z) transport_read_state \<times> lsh_string) option" where
  "decode_packet self output =
     do { let block_size = block_size_of (t_crypto self);
          let mac_size = mac_size_of (t_mac self);
          let crypt_done = block_size - 5;
          let crypt_left = t_total_length self - (crypt_done + mac_size);
          self \<leftarrow> decrypt_rest self crypt_done crypt_left;
          let data = drop (unat (r_start self)) (lsh_string_data (r_buffer self));
          (valid, self) \<leftarrow> verify_mac self crypt_done crypt_left data;
          if \<not> valid
          then Some ((SSH_READ_PROTOCOL_ERROR, TR_error SSH_DISCONNECT_MAC_ERROR (Some ''Invalid MAC'')), self, output)
          else do {
            let l = t_total_length self - mac_size - ucast (t_padding self);
            let seqno = t_seqno self;
            let self = self\<lparr>r_start := r_start self + t_total_length self,
                            r_length := r_length self - t_total_length self,
                            t_total_length := 0, t_seqno := t_seqno self + 1\<rparr>;
            (case t_inflate self of
               Some z \<Rightarrow>
                 do { (l, z, output) \<leftarrow> do_zlib z output 0 l data;
                      Some ((SSH_READ_COMPLETE, TR_packet seqno l), self\<lparr>t_inflate := Some z\<rparr>, output) }
             | None \<Rightarrow>
                 do { output \<leftarrow> lsh_string_write output 0 l data;
                      Some ((SSH_READ_COMPLETE, TR_packet seqno l), self, output) }) } }"

text \<open>The first block: an early return, or the buffer holds a block.\<close>

definition read_first_block ::
  "('c, 'm, 'z) transport_read_state \<Rightarrow> bool \<Rightarrow> socket \<Rightarrow>
   ((ssh_read_status \<times> transport_out) option \<times> ('c, 'm, 'z) transport_read_state \<times> bool \<times> socket) option" where
  "read_first_block self fd sk =
     (let block_size = block_size_of (t_crypto self) in
      if r_length self < block_size
      then if \<not> fd then Some (Some (r_status self, TR_none), self, fd, sk)
      else do {
        (res, self, sk) \<leftarrow> ssh_read_some self sk TRANSPORT_READ_AHEAD;
        (case res of
           Read_eof \<Rightarrow>
             Some (Some (if r_length self = 0 then (SSH_READ_EOF, TR_none)
                         else (SSH_READ_PROTOCOL_ERROR, TR_error 0 (Some ''Unexpected EOF''))), self, False, sk)
         | Read_error e \<Rightarrow>
             Some (Some (if e = EWOULDBLOCK then (SSH_READ_PUSH, TR_none) else (SSH_READ_IO_ERROR, TR_errno e)), self, False, sk)
         | Read_ok \<Rightarrow>
             Some (if r_length self < block_size then Some (r_status self, TR_none) else None, self, False, sk)) }
      else Some (None, self, fd, sk))"

definition protocol_error :: "string \<Rightarrow> (ssh_read_status \<times> transport_out) option" where
  "protocol_error msg = Some (SSH_READ_PROTOCOL_ERROR, TR_error SSH_DISCONNECT_PROTOCOL_ERROR (Some msg))"

definition check_header :: "u32 \<Rightarrow> u32 \<Rightarrow> byte \<Rightarrow> (ssh_read_status \<times> transport_out) option" where
  "check_header block_size packet_length padding =
     (if padding < 4 \<or> ucast padding \<ge> packet_length then protocol_error ''Bogus padding length''
      else if packet_length < 12 \<or> packet_length < block_size - 4 \<or> (packet_length + 4) mod block_size \<noteq> 0
      then protocol_error ''Invalid packet length''
      else if packet_length > SSH_MAX_PACKET + SSH_MAX_PACKET_FUZZ then protocol_error ''Packet too large''
      else None)"

definition decrypt_header :: "('c, 'm, 'z) transport_read_state \<Rightarrow> ('c, 'm, 'z) transport_read_state option" where
  "decrypt_header self =
     (case t_crypto self of
        None \<Rightarrow> Some self
      | Some c \<Rightarrow> do { (c, b) \<leftarrow> CRYPT c (c_block_size c) True (r_buffer self) (r_start self) (r_buffer self) (r_start self);
                     Some (self\<lparr>r_buffer := b, t_crypto := Some c\<rparr>) })"

definition process_header ::
  "('c, 'm, 'z) transport_read_state \<Rightarrow>
   ((ssh_read_status \<times> transport_out) option \<times> ('c, 'm, 'z) transport_read_state) option" where
  "process_header self =
     do { let block_size = block_size_of (t_crypto self);
          self \<leftarrow> decrypt_header self;
          let header = drop (unat (r_start self)) (lsh_string_data (r_buffer self));
          let self = (case t_mac self of
                        None \<Rightarrow> self
                      | Some m \<Rightarrow>
                          self\<lparr>t_mac := Some (do_hmac_update (do_hmac_update m 4 (WRITE_UINT32 (t_seqno self))) block_size header)\<rparr>);
          let packet_length = READ_UINT32 header;
          let self = self\<lparr>t_padding := header ! 4\<rparr>;
          (case check_header block_size packet_length (t_padding self) of
             Some e \<Rightarrow> Some (Some e, self)
           | None \<Rightarrow>
               do { let self = self\<lparr>t_total_length := packet_length - 1 + mac_size_of (t_mac self)\<rparr>;
                    if t_total_length self > lsh_string_length (r_buffer self)
                    then Some (protocol_error ''Packet too large'', self)
                    else Some (None, self\<lparr>r_start := r_start self + 5, r_length := r_length self - 5\<rparr>) }) }"

definition read_rest ::
  "('c, 'm, 'z) transport_read_state \<Rightarrow> bool \<Rightarrow> socket \<Rightarrow> lsh_string \<Rightarrow>
   ((ssh_read_status \<times> transport_out) \<times> ('c, 'm, 'z) transport_read_state \<times> socket \<times> lsh_string) option" where
  "read_rest self fd sk packet =
     (if r_length self < t_total_length self
      then if \<not> fd then Some ((r_status self, TR_none), self, sk, packet)
      else do {
        (res, self, sk) \<leftarrow> ssh_read_some self sk (t_total_length self + TRANSPORT_READ_AHEAD);
        (case res of
           Read_eof \<Rightarrow> Some ((SSH_READ_PROTOCOL_ERROR, TR_error 0 (Some ''Unexpected EOF'')), self, sk, packet)
         | Read_error e \<Rightarrow>
             Some (if e = EWOULDBLOCK then (SSH_READ_PUSH, TR_none) else (SSH_READ_IO_ERROR, TR_errno e), self, sk, packet)
         | Read_ok \<Rightarrow>
             if r_length self < t_total_length self then Some ((r_status self, TR_none), self, sk, packet)
             else do { (r, self, packet) \<leftarrow> decode_packet self packet; Some (r, self, sk, packet) }) }
      else do { (r, self, packet) \<leftarrow> decode_packet self packet; Some (r, self, sk, packet) })"

definition transport_read_packet ::
  "('c, 'm, 'z) transport_read_state \<Rightarrow> bool \<Rightarrow> socket \<Rightarrow> lsh_string \<Rightarrow>
   ((ssh_read_status \<times> transport_out) \<times> ('c, 'm, 'z) transport_read_state \<times> socket \<times> lsh_string) option" where
  "transport_read_packet self fd sk packet =
     do { (r, self, fd, sk) \<leftarrow> read_first_block self fd sk;
          (case r of
             Some out \<Rightarrow> Some (out, self, sk, packet)
           | None \<Rightarrow>
               do { c_assert (r_length self \<ge> block_size_of (t_crypto self));
                    (r, self) \<leftarrow> (if t_total_length self = 0 then process_header self else Some (None, self));
                    (case r of
                       Some out \<Rightarrow> Some (out, self, sk, packet)
                     | None \<Rightarrow> read_rest self fd sk packet) }) }"

definition transport_read_new_keys ::
  "('c, 'm, 'z) transport_read_state \<Rightarrow> 'm mac_instance option \<Rightarrow> 'c crypto_instance option \<Rightarrow> 'z zlib_instance option \<Rightarrow>
   ('c, 'm, 'z) transport_read_state" where
  "transport_read_new_keys self mac crypto inflate = self\<lparr>t_mac := mac, t_crypto := crypto, t_inflate := inflate\<rparr>"

end
