(* ===== verification/Transport_Decode.thy ===== *)
theory Transport_Decode
  imports Transport_Read
begin

text \<open>
  The second half of the reader of \<open>src/transport_read.c\<close>: with a packet under way, its first block decrypted, \<open>decode_packet\<close>
  decrypts the rest inside the buffer, accepts the tag and copies the payload out.
\<close>

section \<open>Decryption inside the buffer\<close>

lemma CRYPT_window:
  assumes "window_ok b st n" "unat i + unat l \<le> unat n" "unat (c_block_size c) dvd unat l"
    and "c_crypt c (c_ctx c) (slice (unat i) (unat l) (window b st n)) = (x, out)" "length out = unat l"
  shows "\<exists>b'. CRYPT c l True b (st + i) b (st + i) = Some (c\<lparr>c_ctx := x\<rparr>, b') \<and> window_ok b' st n
    \<and> window b' st n = overwrite (unat i) out (window b st n) \<and> str_length b' = str_length b"
proof -
  have at: "unat (st + i) = unat st + unat i" using assms(1,2) by (simp add: window_ok_def unat_u32_mod)
  have m: "l mod c_block_size c = 0" using assms(3) by (simp add: word_unat_eq_iff unat_mod)
  have sl: "slice (unat (st + i)) (unat l) (str_data b) = slice (unat i) (unat l) (window b st n)"
    unfolding at by (rule window_slice [OF assms(1,2)])
  have "CRYPT c l True b (st + i) b (st + i) = Some (c\<lparr>c_ctx := x\<rparr>, b\<lparr>str_data := overwrite (unat st + unat i) out (str_data b)\<rparr>)"
    using CRYPT_in_place [OF _ _ m, of b "st + i"] assms sl at by (simp add: window_ok_def room_def)
  then show ?thesis using window_overwrite [OF assms(1), of "unat i" out] assms(2,5) by simp
qed

section \<open>The states of the reader\<close>

definition sizes_ok :: "u32 \<Rightarrow> u32 \<Rightarrow> bool" where
  "sizes_ok block mac \<longleftrightarrow> (block = 8 \<or> block = SSH_MAX_BLOCK_SIZE) \<and> (mac = 0 \<or> 5 \<le> mac \<and> mac \<le> SSH_MAX_MAC_SIZE)"

definition transport_inv :: "('c, 'm, 'z) transport_read_state \<Rightarrow> bool" where
  "transport_inv s \<longleftrightarrow> read_inv s \<and> str_length (r_buffer s) = SSH_MAX_PACKET + SSH_MAX_PACKET_FUZZ
     \<and> nul_terminated (t_mac_buffer s) \<and> str_length (t_mac_buffer s) = SSH_MAX_MAC_SIZE \<and> t_inflate s = None
     \<and> sizes_ok (block_size_of (t_crypto s)) (mac_size_of (t_mac s)) \<and> (\<forall>m. t_mac s = Some m \<longrightarrow> mac_laws m)"

definition transport_stream :: "('c, 'm, 'z) transport_read_state \<Rightarrow> socket \<Rightarrow> bytes" where
  "transport_stream s sk = unread s @ sk_input sk"

text \<open>The packet \<open>plain\<close> is under way: its first block is decrypted and authenticated, and the five bytes of the header are
  consumed. Decrypting the \<open>ct\<close> gives the rest of it and leaves \<open>d'\<close>, and the tag leaves \<open>m'\<close>.\<close>

definition under_way ::
  "('c, 'm, 'z) transport_read_state \<Rightarrow> bytes \<Rightarrow> bytes \<Rightarrow> bytes \<Rightarrow> 'c crypto_instance option \<Rightarrow> 'm mac_instance option \<Rightarrow> bool" where
  "under_way s plain ct tag d' m' \<longleftrightarrow>
     (let bs = unat (block_size_of (t_crypto s)) in
      bs \<le> length plain \<and> bs dvd length plain \<and> length ct = length plain - bs
      \<and> unat (t_total_length s) = length plain - 5 + length tag \<and> length tag = unat (mac_size_of (t_mac s))
      \<and> (case t_crypto s of
           None \<Rightarrow> ct = drop bs plain \<and> d' = None
         | Some c \<Rightarrow> if ct = [] then d' = Some c
             else \<exists>x. c_crypt c (c_ctx c) ct = (x, drop bs plain) \<and> d' = Some (c\<lparr>c_ctx := x\<rparr>))
      \<and> (case t_mac s of
           None \<Rightarrow> m' = None
         | Some m \<Rightarrow> \<exists>y. m_digest m (if ct = [] then m_ctx m else m_update m (m_ctx m) (drop bs plain)) = (y, tag)
             \<and> m' = Some (m\<lparr>m_ctx := y\<rparr>)))"

text \<open>The last step: everything is in the buffer.\<close>

lemma decrypt_rest_ok:
  assumes inv: "transport_inv s" and way: "under_way s plain ct tag d' m'"
    and buf: "unread s = slice 5 (unat (block_size_of (t_crypto s)) - 5) plain @ ct @ sent @ rest" "length sent = length tag"
  defines "bs \<equiv> block_size_of (t_crypto s)"
  shows "\<exists>b. decrypt_rest s (bs - 5) (t_total_length s - (bs - 5 + mac_size_of (t_mac s))) = Some (s\<lparr>r_buffer := b, t_crypto := d'\<rparr>)
    \<and> read_inv (s\<lparr>r_buffer := b, t_crypto := d'\<rparr>) \<and> str_length b = str_length (r_buffer s)
    \<and> unread (s\<lparr>r_buffer := b, t_crypto := d'\<rparr>) = drop 5 plain @ sent @ rest \<and> unat (t_total_length s - (bs - 5 + mac_size_of (t_mac s))) = length ct"
proof -
  let ?left = "t_total_length s - (bs - 5 + mac_size_of (t_mac s))"
  have w: "window_ok (r_buffer s) (r_start s) (r_length s)" using inv by (simp add: transport_inv_def read_inv_def)
  have b: "bs = 8 \<or> bs = 16" "unat (mac_size_of (t_mac s)) \<le> 20"
    using inv by (auto simp: transport_inv_def sizes_ok_def bs_def u32_le split: option.splits)
  then have b5: "unat (bs - 5) = unat bs - 5" "5 \<le> unat bs" by auto
  have l: "unat bs \<le> length plain" "unat bs dvd length plain" "length ct = length plain - unat bs"
      "unat (t_total_length s) = length plain - 5 + length tag" "length tag = unat (mac_size_of (t_mac s))"
    and cr: "case t_crypto s of None \<Rightarrow> ct = drop (unat bs) plain \<and> d' = None
         | Some c \<Rightarrow> if ct = [] then d' = Some c
             else \<exists>x. c_crypt c (c_ctx c) ct = (x, drop (unat bs) plain) \<and> d' = Some (c\<lparr>c_ctx := x\<rparr>)"
    using way unfolding under_way_def Let_def bs_def by blast+
  have "unat (bs - 5 + mac_size_of (t_mac s)) = unat bs - 5 + length tag"
    using b b5 l(5) by (auto simp: unat_u32_mod)
  moreover from this have "unat (bs - 5 + mac_size_of (t_mac s)) \<le> unat (t_total_length s)" using l b5 by simp
  ultimately have left: "unat ?left = length ct" using l b5 unat_u32_diff [of "bs - 5 + mac_size_of (t_mac s)" "t_total_length s"] by simp
  have unread: "unread s = slice 5 (unat bs - 5) plain @ ct @ sent @ rest" using buf(1) by (simp add: bs_def)
  have five: "length (slice 5 (unat bs - 5) plain) = unat bs - 5" using l by simp
  have head: "slice 5 (unat bs - 5) plain @ drop (unat bs) plain = drop 5 plain"
    using b5 by (simp add: slice_def) (metis append_take_drop_id drop_drop le_add_diff_inverse2)
  have len: "unat (r_length s) = unat bs - 5 + length ct + length tag + length rest"
    using length_unread [of s] inv unread five buf(2) by (simp add: transport_inv_def)
  show ?thesis
  proof (cases "t_crypto s = None \<or> ct = []")
    case True
    then have t: "t_crypto s = d'" "ct = drop (unat bs) plain" using cr l by (auto split: option.splits)
    moreover have "decrypt_rest s (bs - 5) ?left = Some s"
      using True left by (auto simp: decrypt_rest_def u32_less split: option.splits)
    moreover have "s\<lparr>r_buffer := r_buffer s, t_crypto := t_crypto s\<rparr> = s" by simp
    ultimately show ?thesis using inv unread head left by (intro exI [of _ "r_buffer s"]) (simp add: transport_inv_def flip: t(1))
  next
    case False
    then obtain c x where c: "t_crypto s = Some c" "c_crypt c (c_ctx c) ct = (x, drop (unat bs) plain)" "d' = Some (c\<lparr>c_ctx := x\<rparr>)" "ct \<noteq> []"
      using cr by (auto split: option.splits)
    have "slice (unat (bs - 5)) (unat ?left) (window (r_buffer s) (r_start s) (r_length s)) = ct"
      using unread left five b5(1) by (simp add: slice_def unread_def)
    then have cc: "c_crypt c (c_ctx c) (slice (unat (bs - 5)) (unat ?left) (window (r_buffer s) (r_start s) (r_length s))) = (x, drop (unat bs) plain)"
      using c(2) by simp
    have pre: "unat (bs - 5) + unat ?left \<le> unat (r_length s)" using left len b5(1) by linarith
    have pre2: "unat (c_block_size c) dvd unat ?left" "length (drop (unat bs) plain) = unat ?left"
      using l left c(1) by (simp_all add: bs_def dvd_diff_nat)
    obtain b' where b': "CRYPT c ?left True (r_buffer s) (r_start s + (bs - 5)) (r_buffer s) (r_start s + (bs - 5)) = Some (c\<lparr>c_ctx := x\<rparr>, b')"
        "window_ok b' (r_start s) (r_length s)" "str_length b' = str_length (r_buffer s)"
        "window b' (r_start s) (r_length s) = overwrite (unat bs - 5) (drop (unat bs) plain) (unread s)"
      using CRYPT_window [OF w pre pre2(1) cc pre2(2)] unfolding b5(1) unread_def by blast
    let ?s = "s\<lparr>r_buffer := b', t_crypto := d'\<rparr>"
    have "decrypt_rest s (bs - 5) ?left = Some ?s"
      using c b'(1) left by (simp add: decrypt_rest_def u32_less)
    moreover have "unread ?s = drop 5 plain @ sent @ rest"
      using b'(4) unread five l head by (simp add: unread_def [of ?s] overwrite_def)
    ultimately show ?thesis
      using b' inv left by (auto simp: transport_inv_def read_inv_def intro!: exI [of _ b'])
  qed
qed

lemma verify_mac_ok:
  assumes inv: "nul_terminated (t_mac_buffer s)" "str_length (t_mac_buffer s) = SSH_MAX_MAC_SIZE" "m_size m \<le> SSH_MAX_MAC_SIZE" "mac_laws m"
    and m: "t_mac s = Some m" "m_digest m (if left = 0 then m_ctx m else m_update m (m_ctx m) (take (unat left) (drop (unat crypt_done) data))) = (y, tag)"
    and data: "drop (unat (t_total_length s - m_size m)) data = sent @ rest" "length sent = length tag"
  shows "\<exists>b. verify_mac s crypt_done left data = Some (sent = tag, s\<lparr>t_mac := Some (m\<lparr>m_ctx := y\<rparr>), t_mac_buffer := b\<rparr>)
    \<and> nul_terminated b \<and> str_length b = SSH_MAX_MAC_SIZE"
proof -
  let ?m = "if left > 0 then do_hmac_update m left (drop (unat crypt_done) data) else m"
  have mm: "m_digest ?m (m_ctx ?m) = (y, tag)" "m_size ?m = m_size m" "?m\<lparr>m_ctx := y\<rparr> = m\<lparr>m_ctx := y\<rparr>"
    using m(2) by (auto simp: do_hmac_update_def word_gt_0)
  have len: "length tag = unat (m_size m)"
    using m(2) inv(4) by (auto simp: mac_laws_def) (metis snd_conv)+
  have room: "0 + length tag \<le> unat (str_length (t_mac_buffer s))" using inv(2,3) len by (simp add: u32_le)
  let ?b = "t_mac_buffer s\<lparr>str_data := overwrite 0 tag (str_data (t_mac_buffer s))\<rparr>"
  have b: "nul_terminated ?b" using nul_terminated_overwrite [OF inv(1) room] by simp
  then have "do_hmac_digest ?m (t_mac_buffer s) 0 = Some (m\<lparr>m_ctx := y\<rparr>, ?b)"
    using mm room len by (simp add: do_hmac_digest_def lsh_string_write_hmac_def ASSERT_ROOM_eq room_def)
  moreover have "memeq (str_data ?b) (sent @ rest) (m_size m) \<longleftrightarrow> sent = tag" using len data(2) by (auto simp: memeq_def overwrite_def)
  ultimately show ?thesis
    using m(1) data(1) b inv(2) by (intro exI [of _ ?b]) (simp add: verify_mac_def lsh_string_data_def)
qed

text \<open>The memory from the start of the window on begins with the unread bytes.\<close>

lemma data_unread:
  assumes "read_inv s" "unread s = xs @ ys"
  obtains zs where "drop (unat (r_start s)) (lsh_string_data (r_buffer s)) = xs @ zs"
proof -
  have "take (unat (r_length s)) (drop (unat (r_start s)) (lsh_string_data (r_buffer s))) = xs @ ys"
    using assms by (simp add: unread_def window_def slice_def lsh_string_data_def)
  then show thesis using that by (metis append_assoc append_take_drop_id)
qed

lemma decode_verifies:
  assumes inv: "transport_inv s" and way: "under_way s plain ct tag d' m'"
    and buf: "unread s = slice 5 (unat (block_size_of (t_crypto s)) - 5) plain @ ct @ sent @ rest" "length sent = length tag"
  defines "bs \<equiv> block_size_of (t_crypto s)" and "ms \<equiv> mac_size_of (t_mac s)"
  obtains s1 b1 b zs where "s1 = s\<lparr>r_buffer := b1, t_crypto := d'\<rparr>" "decrypt_rest s (bs - 5) (t_total_length s - (bs - 5 + ms)) = Some s1"
    "read_inv s1" "str_length b1 = str_length (r_buffer s)" "unread s1 = drop 5 plain @ sent @ rest"
    "drop (unat (r_start s1)) (lsh_string_data (r_buffer s1)) = (drop 5 plain @ sent) @ zs"
    "verify_mac s1 (bs - 5) (t_total_length s - (bs - 5 + ms)) ((drop 5 plain @ sent) @ zs) = Some (sent = tag, s1\<lparr>t_mac := m', t_mac_buffer := b\<rparr>)"
    "nul_terminated b" "str_length b = 20"
proof -
  let ?left = "t_total_length s - (bs - 5 + ms)"
  have l: "unat bs \<le> length plain" "length ct = length plain - unat bs"
      "unat (t_total_length s) = length plain - 5 + length tag" "length tag = unat ms"
    and mc: "case t_mac s of None \<Rightarrow> m' = None
         | Some m \<Rightarrow> \<exists>y. m_digest m (if ct = [] then m_ctx m else m_update m (m_ctx m) (drop (unat bs) plain)) = (y, tag)
             \<and> m' = Some (m\<lparr>m_ctx := y\<rparr>)"
    using way unfolding under_way_def Let_def bs_def ms_def by (auto split: option.splits if_splits)
  have b: "bs = 8 \<or> bs = 16" using inv by (auto simp: transport_inv_def sizes_ok_def bs_def)
  then have b5: "unat (bs - 5) = unat bs - 5" "5 \<le> unat bs" by auto
  obtain b1 where d1: "decrypt_rest s (bs - 5) ?left = Some (s\<lparr>r_buffer := b1, t_crypto := d'\<rparr>)"
      "read_inv (s\<lparr>r_buffer := b1, t_crypto := d'\<rparr>)" "str_length b1 = str_length (r_buffer s)"
      "unread (s\<lparr>r_buffer := b1, t_crypto := d'\<rparr>) = drop 5 plain @ sent @ rest" "unat ?left = length ct"
    using decrypt_rest_ok [OF inv way buf] unfolding bs_def ms_def by blast
  define s1 where "s1 = s\<lparr>r_buffer := b1, t_crypto := d'\<rparr>"
  note s1 = s1_def d1(2-5) [folded s1_def]
  obtain zs where data: "drop (unat (r_start s1)) (lsh_string_data (r_buffer s1)) = (drop 5 plain @ sent) @ zs"
    using data_unread [OF s1(2)] s1(4) by (metis append_assoc)
  have left0: "?left = 0 \<longleftrightarrow> ct = []" using s1(5) by (simp add: word_unat_eq_iff)
  have body: "take (unat ?left) (drop (unat (bs - 5)) ((drop 5 plain @ sent) @ zs)) = drop (unat bs) plain"
    using s1(5) l b5 by simp
  have f: "t_mac s1 = t_mac s" "t_total_length s1 = t_total_length s" "t_mac_buffer s1 = t_mac_buffer s" by (simp_all add: s1_def)
  have "\<exists>b. verify_mac s1 (bs - 5) ?left ((drop 5 plain @ sent) @ zs) = Some (sent = tag, s1\<lparr>t_mac := m', t_mac_buffer := b\<rparr>)
      \<and> nul_terminated b \<and> str_length b = 20"
  proof (cases "t_mac s")
    case None
    then have "s1\<lparr>t_mac := m', t_mac_buffer := t_mac_buffer s1\<rparr> = s1" "sent = tag" using mc f(1) l(4) buf(2) by (simp_all add: ms_def)
    then show ?thesis using None f inv by (auto simp: verify_mac_def transport_inv_def intro!: exI [of _ "t_mac_buffer s"])
  next
    case (Some m)
    then obtain y where y: "m_digest m (if ct = [] then m_ctx m else m_update m (m_ctx m) (drop (unat bs) plain)) = (y, tag)"
        "m' = Some (m\<lparr>m_ctx := y\<rparr>)" using mc by auto
    have "unat (t_total_length s - m_size m) = length plain - 5"
      using l(3,4) Some by (simp add: ms_def unat_u32_diff)
    then have "drop (unat (t_total_length s1 - m_size m)) ((drop 5 plain @ sent) @ zs) = sent @ zs" using f(2) by simp
    then show ?thesis
      using verify_mac_ok [of s1 m ?left "bs - 5" "(drop 5 plain @ sent) @ zs" y tag sent zs] inv Some y left0 body f buf(2)
      by (auto simp: transport_inv_def sizes_ok_def split: if_splits)
  qed
  then show thesis using that [OF s1_def d1(1) [folded s1_def] s1(2) d1(3) s1(4) data] by blast
qed

lemma decode_packet_ok:
  assumes inv: "transport_inv s" and way: "under_way s plain ct tag d' m'"
    and buf: "unread s = slice 5 (unat (block_size_of (t_crypto s)) - 5) plain @ ct @ tag @ rest"
    and plain: "drop 5 plain = p @ padding" "length padding = unat (t_padding s)"
    and dst: "nul_terminated output" "length p \<le> unat (str_length output)"
  shows "\<exists>s' output'. decode_packet s output = Some ((SSH_READ_COMPLETE, TR_packet (t_seqno s) (of_nat (length p))), s', output')
    \<and> transport_inv s' \<and> t_total_length s' = 0 \<and> t_seqno s' = t_seqno s + 1 \<and> t_crypto s' = d' \<and> t_mac s' = m' \<and> unread s' = rest
    \<and> nul_terminated output' \<and> str_length output' = str_length output \<and> take (length p) (str_data output') = p"
proof -
  define bs where "bs = block_size_of (t_crypto s)"
  define ms where "ms = mac_size_of (t_mac s)"
  let ?left = "t_total_length s - (bs - 5 + ms)"
  have l: "unat (t_total_length s) = length plain - 5 + length tag" "length tag = unat ms"
    and mc: "case t_mac s of None \<Rightarrow> m' = None | Some m \<Rightarrow> \<exists>y. m' = Some (m\<lparr>m_ctx := y\<rparr>)"
    and cr: "block_size_of d' = bs"
    using way unfolding under_way_def Let_def bs_def ms_def by (auto split: option.splits if_splits)
  obtain s1 b1 b zs where s1: "s1 = s\<lparr>r_buffer := b1, t_crypto := d'\<rparr>" and dec: "decrypt_rest s (bs - 5) ?left = Some s1"
    and r1: "read_inv s1" "str_length b1 = str_length (r_buffer s)" "unread s1 = drop 5 plain @ tag @ rest"
    and data: "drop (unat (r_start s1)) (lsh_string_data (r_buffer s1)) = (drop 5 plain @ tag) @ zs"
    and v: "verify_mac s1 (bs - 5) ?left ((drop 5 plain @ tag) @ zs) = Some (tag = tag, s1\<lparr>t_mac := m', t_mac_buffer := b\<rparr>)"
      "nul_terminated b" "str_length b = 20"
    by (rule decode_verifies [OF inv way buf refl, folded bs_def ms_def]) (rule that)
  have f: "t_total_length s1 = t_total_length s" "t_padding s1 = t_padding s" "t_seqno s1 = t_seqno s" "t_inflate s1 = None"
      "r_start s1 = r_start s" "r_length s1 = r_length s"
    using inv by (simp_all add: s1 transport_inv_def)
  have "length plain - 5 = length p + unat (t_padding s)" using plain by (metis length_append length_drop)
  then have "unat (t_total_length s - ms) = length p + unat (t_padding s)" using l by (simp add: unat_u32_diff)
  then have len: "unat (t_total_length s - ms - ucast (t_padding s)) = length p" by (simp add: unat_u32_diff)
  then have lw: "t_total_length s - ms - ucast (t_padding s) = of_nat (length p)" by (metis of_nat_unat ucast_id)
  have lp: "unat (of_nat (length p) :: u32) = length p" using len unfolding lw .
  let ?o = "output\<lparr>str_data := overwrite 0 p (str_data output)\<rparr>"
  have ow: "lsh_string_write output 0 (of_nat (length p)) ((drop 5 plain @ tag) @ zs) = Some ?o" "nul_terminated ?o"
    using dst lp plain(1) nul_terminated_overwrite [of "output" 0 p] by (simp_all add: lsh_string_write_eq room_def)
  let ?s = "s1\<lparr>t_mac := m', t_mac_buffer := b, r_start := r_start s + t_total_length s, r_length := r_length s - t_total_length s,
      t_total_length := 0, t_seqno := t_seqno s + 1\<rparr>"
  have "decode_packet s output = Some ((SSH_READ_COMPLETE, TR_packet (t_seqno s) (of_nat (length p))), ?s, ?o)"
    using dec data v(1) f lw ow(1) unfolding decode_packet_def bs_def ms_def by (simp add: Let_def)
  moreover have enough: "unat (t_total_length s1) \<le> unat (r_length s1)"
    using length_unread [OF r1(1)] r1(3) l(1) f by simp
  then have "read_inv ?s" "unread ?s = rest"
    using read_consume [OF r1(1), of "t_total_length s"] r1(3) l(1) f by (simp_all add: read_inv_def unread_def)
  moreover have "sizes_ok (block_size_of d') (mac_size_of m') \<and> (\<forall>m. m' = Some m \<longrightarrow> mac_laws m)"
    using inv cr mc unfolding transport_inv_def bs_def by (auto simp: mac_laws_def split: option.splits)
  then have "transport_inv ?s" using inv r1(2) v \<open>read_inv ?s\<close> by (simp add: transport_inv_def s1)
  ultimately show ?thesis using ow(2) by (auto simp: s1 overwrite_def)
qed

text \<open>A wrong authentication code: nothing is copied out.\<close>

lemma decode_packet_wrong_mac:
  assumes inv: "transport_inv s" and way: "under_way s plain ct tag d' m'"
    and buf: "unread s = slice 5 (unat (block_size_of (t_crypto s)) - 5) plain @ ct @ sent @ rest" "length sent = length tag" "sent \<noteq> tag"
  shows "\<exists>s'. decode_packet s output =
    Some ((SSH_READ_PROTOCOL_ERROR, TR_error SSH_DISCONNECT_MAC_ERROR (Some ''Invalid MAC'')), s', output)"
proof -
  let ?left = "t_total_length s - (block_size_of (t_crypto s) - 5 + mac_size_of (t_mac s))"
  obtain s1 b1 b zs where "decrypt_rest s (block_size_of (t_crypto s) - 5) ?left = Some s1"
      "drop (unat (r_start s1)) (lsh_string_data (r_buffer s1)) = (drop 5 plain @ sent) @ zs"
      "verify_mac s1 (block_size_of (t_crypto s) - 5) ?left ((drop 5 plain @ sent) @ zs) = Some (sent = tag, s1\<lparr>t_mac := m', t_mac_buffer := b\<rparr>)"
    using decode_verifies [OF inv way buf(1,2)] by blast
  then show ?thesis using buf(3) by (simp add: decode_packet_def Let_def)
qed

end
