(* ===== verification/Transport_Packets.thy ===== *)
theory Transport_Packets
  imports Transport_Decode
begin

text \<open>
  The packet layer as a whole: what \<open>encrypt_packet\<close> of \<open>src/encrypt.c\<close> puts on the wire is what
  \<open>transport_read_packet\<close> of \<open>src/transport_read.c\<close> takes off it. The stream of undelivered bytes is followed through the
  states of the reader: before a packet, and with its first block decrypted.
\<close>

section \<open>The first block\<close>

text \<open>The two ends of a connection use ciphers that are inverse to each other, in matching states.\<close>

fun matching :: "('c \<Rightarrow> 'c \<Rightarrow> bool) \<Rightarrow> 'c crypto_instance option \<Rightarrow> 'c crypto_instance option \<Rightarrow> bool" where
  "matching R None None \<longleftrightarrow> True"
| "matching R (Some e) (Some d) \<longleftrightarrow> inverse_ciphers e d R \<and> blockwise d \<and> R (c_ctx e) (c_ctx d)"
| "matching R _ _ \<longleftrightarrow> False"

lemma matching_block_size: "matching R e d \<Longrightarrow> block_size_of d = block_size_of e"
  by (cases e; cases d) (auto simp: inverse_ciphers_def)

lemma matching_decrypts:
  assumes "matching R e (Some d)" "unat (block_size_of e) dvd length plain" "unat (c_block_size d) = bs" "bs \<le> length plain"
  defines "ct \<equiv> snd (crypt_bytes e plain)"
  obtains x1 x where "c_crypt d (c_ctx d) (take bs ct) = (x1, take bs plain)" "c_crypt d x1 (drop bs ct) = (x, drop bs plain)"
    "matching R (fst (crypt_bytes e plain)) (Some (d\<lparr>c_ctx := if drop bs ct = [] then x1 else x\<rparr>))" "length ct = length plain"
proof -
  obtain c where c: "e = Some c" using assms(1) by (cases e) auto
  have m: "inverse_ciphers c d R" "blockwise d" "R (c_ctx c) (c_ctx d)" using assms(1) c by auto
  have i: "length ct = length plain" "snd (c_crypt d (c_ctx d) ct) = plain"
      "R (fst (c_crypt c (c_ctx c) plain)) (fst (c_crypt d (c_ctx d) ct))"
    using m(1,3) assms(2) c by (auto simp: inverse_ciphers_def ct_def crypt_bytes_def)
  obtain x1 a where a: "c_crypt d (c_ctx d) (take bs ct) = (x1, a)" by fastforce
  obtain x b where b: "c_crypt d x1 (drop bs ct) = (x, b)" by fastforce
  have "bs dvd length (take bs ct)" using i(1) assms(4) by simp
  then have ab: "c_crypt d (c_ctx d) ct = (x, a @ b)" "length a = length (take bs ct)"
    using m(2) a b assms(3) unfolding blockwise_def by (metis (no_types, lifting) append_take_drop_id case_prod_conv, metis snd_conv)
  then have "a = take bs plain" "b = drop bs plain"
    using i(1,2) assms(4) by (metis append_eq_conv_conj length_take snd_conv min.absorb2)+
  moreover have "x1 = x" if "drop bs ct = []" using that a ab(1) by simp
  then have "(if drop bs ct = [] then x1 else x) = x" by simp
  then have "matching R (fst (crypt_bytes e plain)) (Some (d\<lparr>c_ctx := if drop bs ct = [] then x1 else x\<rparr>))"
    using c m i(3) ab(1) by (simp add: crypt_bytes_def inverse_ciphers_def blockwise_def)
  ultimately show thesis using that a b i(1) by auto
qed

text \<open>The header of a packet built by \<open>encrypt_packet\<close> passes the checks.\<close>

lemma plain_header:
  assumes "bs = 8 \<or> bs = 16" "p \<noteq> []" "length (plain_packet bs rnd p) < 34005"
  defines "plain \<equiv> plain_packet bs rnd p"
  defines "k \<equiv> pad_length bs (length p)"
  shows "READ_UINT32 (take bs plain @ zs) = of_nat (length plain - 4)" "(take bs plain @ zs) ! 4 = of_nat k" "unat (of_nat k :: byte) = k"
    "check_header (of_nat bs) (of_nat (length plain - 4)) (of_nat k) = None"
    "drop 5 plain = p @ map rnd [0..<k]" "16 \<le> length plain"
proof -
  have bs: "0 < bs" using assms(1) by auto
  note kb = pad_length_bounds [OF bs, of "length p"]
  have len: "length plain = length p + 5 + k" "length plain = bs * (1 + (8 + length p) div bs)"
    using length_plain_packet [OF bs] kb(3) by (simp_all add: plain_def k_def)
  have kk: "4 \<le> k" "k \<le> 19" "k < 256" using kb assms(1) by (auto simp: k_def)
  then show k: "unat (of_nat k :: byte) = k" by (simp add: unat_of_nat)
  have plain: "plain = WRITE_UINT32 (of_nat (length p + k + 1)) @ [of_nat k] @ p @ map rnd [0..<k]"
    by (simp add: plain_def plain_packet_def k_def Let_def)
  show ge: "16 \<le> length plain"
    using assms(1)
  proof
    assume "bs = 8"
    then show ?thesis using len(2) div_le_mono [of 8 "8 + length p" 8] by simp
  qed (simp add: len(2))
  have t: "take bs plain = WRITE_UINT32 (of_nat (length p + k + 1)) @ [of_nat k] @ take (bs - 5) (p @ map rnd [0..<k])"
    unfolding plain using assms(1) by auto
  show "READ_UINT32 (take bs plain @ zs) = of_nat (length plain - 4)" "(take bs plain @ zs) ! 4 = of_nat k"
    unfolding t by (simp_all add: len nth_append)
  show "drop 5 plain = p @ map rnd [0..<k]" unfolding plain by simp
  have small: "length plain < 34005" using assms(3) by (simp add: plain_def)
  define q b where "q = (of_nat (length plain - 4) :: u32)" and "b = (of_nat bs :: u32)"
  have n: "unat q = length plain - 4" "unat b = bs"
    using assms(1) small unfolding q_def b_def by (auto intro!: unat_u32_of_nat)
  have "unat (q + 4) = length plain" using n small ge unat_u32_add [of q 4] by simp
  then have "(q + 4) mod b = 0" using n len(2) by (simp add: word_unat_eq_iff unat_mod)
  moreover have "unat (b - 4) = bs - 4" using n assms(1) by (auto simp: unat_u32_diff)
  moreover have "bs \<le> length plain" using len(2) by simp
  moreover from this have "\<not> Suc (length p + k) < bs - 4" using len(1) by arith
  ultimately show "check_header (of_nat bs) (of_nat (length plain - 4)) (of_nat k) = None"
    unfolding q_def [symmetric] b_def [symmetric]
    using n k kk ge len(1) small by (simp add: check_header_def u32_less u32_le word_less_nat_alt [where 'a = 8])
qed

text \<open>The state in which a packet is expected: the stream starts with the packet.\<close>

definition expecting ::
  "('c \<Rightarrow> 'c \<Rightarrow> bool) \<Rightarrow> ('c, 'm, 'z) transport_read_state \<Rightarrow> 'c crypto_instance option \<Rightarrow> 'm mac_instance option \<Rightarrow> u32 \<Rightarrow> bool" where
  "expecting R s e m seqno \<longleftrightarrow> transport_inv s \<and> t_total_length s = 0 \<and> t_seqno s = seqno \<and> matching R e (t_crypto s) \<and> t_mac s = m"

text \<open>The ciphers and the authentication state after a packet.\<close>

abbreviation (input) crypt_after :: "'c crypto_instance option \<Rightarrow> (nat \<Rightarrow> byte) \<Rightarrow> bytes \<Rightarrow> 'c crypto_instance option" where
  "crypt_after e rnd p \<equiv> fst (crypt_bytes e (plain_packet (unat (block_size_of e)) rnd p))"

text \<open>The buffer is not concerned by the fields of the packet reader.\<close>

lemma read_updates [simp]:
  "read_inv (s\<lparr>t_crypto := d\<rparr>) = read_inv s" "unread (s\<lparr>t_crypto := d\<rparr>) = unread s"
  "read_inv (s\<lparr>t_mac := m\<rparr>) = read_inv s" "unread (s\<lparr>t_mac := m\<rparr>) = unread s"
  "read_inv (s\<lparr>t_padding := k\<rparr>) = read_inv s" "unread (s\<lparr>t_padding := k\<rparr>) = unread s"
  "read_inv (s\<lparr>t_total_length := l\<rparr>) = read_inv s" "unread (s\<lparr>t_total_length := l\<rparr>) = unread s"
  by (simp_all add: read_inv_def unread_def)

lemma take_same_prefix: "xs @ us = ys @ vs \<Longrightarrow> n \<le> length xs \<Longrightarrow> n \<le> length ys \<Longrightarrow> take n xs = take n ys"
  by (drule arg_cong [where f = "take n"]) simp

lemma decrypt_header_ok:
  assumes inv: "transport_inv s" and match: "matching R e (t_crypto s)" and bs: "bs = unat (block_size_of e)"
    and plain: "bs dvd length plain" "bs \<le> length plain"
    and buf: "unread s @ xs = snd (crypt_bytes e plain) @ ys" "bs \<le> length (unread s)"
  shows "\<exists>b d. decrypt_header s = Some (s\<lparr>r_buffer := b, t_crypto := d\<rparr>)
    \<and> read_inv (s\<lparr>r_buffer := b, t_crypto := d\<rparr>) \<and> str_length b = str_length (r_buffer s)
    \<and> unread (s\<lparr>r_buffer := b, t_crypto := d\<rparr>) = take bs plain @ drop bs (unread s) \<and> block_size_of d = block_size_of e
    \<and> (\<exists>d'. matching R (fst (crypt_bytes e plain)) d' \<and>
         (case d of None \<Rightarrow> d' = None \<and> drop bs (snd (crypt_bytes e plain)) = drop bs plain
          | Some c \<Rightarrow> if drop bs (snd (crypt_bytes e plain)) = [] then d' = Some c
              else \<exists>x. c_crypt c (c_ctx c) (drop bs (snd (crypt_bytes e plain))) = (x, drop bs plain) \<and> d' = Some (c\<lparr>c_ctx := x\<rparr>)))"
proof (cases "t_crypto s")
  case None
  then have e: "e = None" using match by (cases e) auto
  then have "take bs (unread s) = take bs plain"
    using take_same_prefix [OF buf] plain(2) by (simp add: crypt_bytes_def)
  then have "take bs plain @ drop bs (unread s) = unread s" by (metis append_take_drop_id)
  moreover have "s\<lparr>t_crypto := None\<rparr> = s" using None by simp
  ultimately show ?thesis
    using None e inv by (intro exI [of _ "r_buffer s"] exI [of _ None]) (simp add: crypt_bytes_def transport_inv_def decrypt_header_def)
next
  case (Some c)
  let ?ct = "snd (crypt_bytes e plain)"
  have w: "window_ok (r_buffer s) (r_start s) (r_length s)" using inv by (simp add: transport_inv_def read_inv_def)
  have cb: "unat (c_block_size c) = bs" "c_block_size c = block_size_of e" using matching_block_size [OF match] Some bs by auto
  obtain x1 x where x: "c_crypt c (c_ctx c) (take bs ?ct) = (x1, take bs plain)" "c_crypt c x1 (drop bs ?ct) = (x, drop bs plain)"
      "matching R (fst (crypt_bytes e plain)) (Some (c\<lparr>c_ctx := if drop bs ?ct = [] then x1 else x\<rparr>))" "length ?ct = length plain"
    using matching_decrypts [OF match [unfolded Some] plain(1) [unfolded bs] cb(1) plain(2)] by blast
  have "take bs (unread s) = take bs ?ct"
    using take_same_prefix [OF buf] plain(2) x(4) by simp
  then have cc: "c_crypt c (c_ctx c) (slice (unat 0) (unat (c_block_size c)) (window (r_buffer s) (r_start s) (r_length s))) = (x1, take bs plain)"
    using x(1) cb by (simp add: slice_def unread_def)
  have "unat (r_length s) = length (unread s)" using length_unread [of s] inv by (simp add: transport_inv_def)
  then have pre: "unat 0 + unat (c_block_size c) \<le> unat (r_length s)" "unat (c_block_size c) dvd unat (c_block_size c)"
      "length (take bs plain) = unat (c_block_size c)"
    using cb buf(2) plain(2) by auto
  obtain b where b: "CRYPT c (c_block_size c) True (r_buffer s) (r_start s) (r_buffer s) (r_start s) = Some (c\<lparr>c_ctx := x1\<rparr>, b)"
      "window_ok b (r_start s) (r_length s)" "str_length b = str_length (r_buffer s)"
      "window b (r_start s) (r_length s) = overwrite 0 (take bs plain) (unread s)"
    using CRYPT_window [OF w pre(1,2) cc pre(3)] by (auto simp: unread_def)
  let ?d' = "Some (c\<lparr>c_ctx := if drop bs ?ct = [] then x1 else x\<rparr>)"
  have "overwrite 0 (take bs plain) (unread s) = take bs plain @ drop bs (unread s)"
    using plain(2) by (simp add: overwrite_def)
  then show ?thesis
    using Some b x(2,3) inv cb
    by (intro exI [of _ b] exI [of _ "Some (c\<lparr>c_ctx := x1\<rparr>)"])
      (auto simp: read_inv_def unread_def transport_inv_def decrypt_header_def intro!: exI [of _ ?d'])
qed

lemma length_crypt_bytes:
  "matching R e d \<Longrightarrow> unat (block_size_of e) dvd length plain \<Longrightarrow> length (snd (crypt_bytes e plain)) = length plain"
  by (cases e; cases d) (auto simp: crypt_bytes_def inverse_ciphers_def)

lemma process_header_ok:
  assumes exp: "expecting R s e m seqno" and p: "p \<noteq> []" and bs: "bs = unat (block_size_of e)" and plain: "plain = plain_packet bs rnd p"
    and ct: "ct = snd (crypt_bytes e plain)" and tag: "mac_tag m seqno plain = (m', tag)"
    and small: "length plain + unat (mac_size_of m) < 34005"
    and buf: "unread s @ xs = ct @ tag @ rest" "bs \<le> length (unread s)"
  obtains s' d' where "process_header s = Some (None, s')" "transport_inv s'" "t_seqno s' = seqno" "under_way s' plain (drop bs ct) tag d' m'"
    "matching R (fst (crypt_bytes e plain)) d'" "unat (t_padding s') = pad_length bs (length p)" "block_size_of (t_crypto s') = block_size_of e"
    "unread s' @ xs = slice 5 (bs - 5) plain @ drop bs ct @ tag @ rest" "length (unread s') = length (unread s) - 5"
proof -
  have inv: "transport_inv s" and z: "t_total_length s = 0" "t_seqno s = seqno" "matching R e (t_crypto s)" "t_mac s = m"
    using exp by (auto simp: expecting_def)
  have b: "bs = 8 \<or> bs = 16" "block_size_of e = of_nat bs"
    using inv matching_block_size [OF z(3)] by (auto simp: bs transport_inv_def sizes_ok_def)
  have laws: "\<And>m0. m = Some m0 \<Longrightarrow> mac_laws m0" using inv z(4) by (auto simp: transport_inv_def)
  have dvd: "bs dvd length plain" "bs \<le> length plain"
    using plain_packet_dvd [of bs rnd p] b(1) length_plain_packet [of bs rnd p] pad_length_bounds(3) [of bs "length p"]
    by (auto simp: plain)
  obtain bf d d' where dec: "decrypt_header s = Some (s\<lparr>r_buffer := bf, t_crypto := d\<rparr>)"
      "read_inv (s\<lparr>r_buffer := bf, t_crypto := d\<rparr>)" "str_length bf = str_length (r_buffer s)"
      "unread (s\<lparr>r_buffer := bf, t_crypto := d\<rparr>) = take bs plain @ drop bs (unread s)" "block_size_of d = block_size_of e"
      "matching R (fst (crypt_bytes e plain)) d'"
      "case d of None \<Rightarrow> d' = None \<and> drop bs ct = drop bs plain
          | Some c \<Rightarrow> if drop bs ct = [] then d' = Some c
              else \<exists>x. c_crypt c (c_ctx c) (drop bs ct) = (x, drop bs plain) \<and> d' = Some (c\<lparr>c_ctx := x\<rparr>)"
    using decrypt_header_ok [OF inv z(3) bs dvd buf(1) [unfolded ct append_assoc] buf(2)] unfolding ct by blast
  have len: "length ct = length plain" using length_crypt_bytes [OF z(3)] dvd(1) by (simp add: ct bs)
  define s1 where "s1 = s\<lparr>r_buffer := bf, t_crypto := d\<rparr>"
  note s1 = dec(2,4) [folded s1_def]
  obtain zs where head: "drop (unat (r_start s1)) (lsh_string_data (r_buffer s1)) = take bs plain @ zs"
    using data_unread [OF s1] by blast
  note ph = plain_header [OF b(1) p, of rnd, folded plain]
  have lp: "length plain < 34005" using small by simp
  define m1 where "m1 = map_option (\<lambda>m0. m0\<lparr>m_ctx := m_update m0 (m_ctx m0) (WRITE_UINT32 seqno @ take bs plain)\<rparr>) m"
  have m1: "(case t_mac s1 of None \<Rightarrow> s1
      | Some m \<Rightarrow> s1\<lparr>t_mac := Some (do_hmac_update (do_hmac_update m 4 (WRITE_UINT32 (t_seqno s1))) (block_size_of e) (take bs plain @ zs))\<rparr>)
      = s1\<lparr>t_mac := m1\<rparr>"
  proof (cases m)
    case (Some m0)
    then show ?thesis
      using laws [OF Some] z dvd(2) bs by (simp add: s1_def m1_def do_hmac_update_def mac_laws_def)
  qed (use z(4) in \<open>simp add: s1_def m1_def\<close>)
  have ms: "mac_size_of m1 = mac_size_of m" by (simp add: m1_def split: option.splits)
  define q where "q = (of_nat (length plain - 4) :: u32)"
  have "unat q = length plain - 4" using lp unfolding q_def by (intro unat_u32_of_nat) simp
  then have "unat (q - 1) = length plain - 5" using ph(6) lp by (simp add: unat_u32_diff)
  then have total: "unat (q - 1 + mac_size_of m) = length plain - 5 + unat (mac_size_of m)" using small by (simp add: unat_u32_add)
  let ?s = "s1\<lparr>t_mac := m1, t_padding := of_nat (pad_length bs (length p)), t_total_length := q - 1 + mac_size_of m,
      r_start := r_start s1 + 5, r_length := r_length s1 - 5\<rparr>"
  have five: "unat (5 :: u32) \<le> unat (r_length s1)"
    using length_unread [OF s1(1)] s1(2) b(1) dvd(2) by auto
  have mb: "block_size_of (t_crypto s) = block_size_of e" by (rule matching_block_size [OF z(3)])
  have fits: "\<not> str_length (r_buffer s1) < q - 1 + mac_size_of m" using total small inv dec(3) by (simp add: s1_def u32_less transport_inv_def)
  have "process_header s = Some (None, ?s)"
    unfolding process_header_def Let_def dec(1) [folded s1_def] Option.bind.simps head mb m1
    using ph(1,2,4) [OF lp, folded q_def] b(2) ms fits by (simp add: lsh_string_length_def)
  moreover have rs: "read_inv ?s" "unread ?s = drop 5 (unread s1)"
    using read_consume [OF s1(1) five] by (simp_all add: read_inv_def unread_def)
  moreover have len5: "length (unread ?s) = length (unread s) - 5" unfolding rs(2) s1(2) using buf(2) dvd(2) by simp
  moreover have "transport_inv ?s"
    using inv rs(1) dec(3,5) mb ms laws z(4) by (auto simp: transport_inv_def s1_def m1_def mac_laws_def)
  moreover have "under_way ?s plain (drop bs ct) tag d' m'"
  proof -
    have "length tag = unat (mac_size_of m)" using length_mac_tag [OF laws, of m seqno plain] tag by simp
    moreover have "\<exists>y. m_digest m0 (if drop bs ct = [] then m_ctx m0 else m_update m0 (m_ctx m0) (drop bs plain)) = (y, tag)
        \<and> m' = Some (m0\<lparr>m_ctx := y\<rparr>)" if m0: "m1 = Some m0" for m0
    proof -
      obtain n where n: "m = Some n" "m0 = n\<lparr>m_ctx := m_update n (m_ctx n) (WRITE_UINT32 seqno @ take bs plain)\<rparr>"
        using m0 by (auto simp: m1_def)
      have "m_update n (m_update n (m_ctx n) (WRITE_UINT32 seqno @ take bs plain)) (drop bs plain) = m_update n (m_ctx n) (WRITE_UINT32 seqno @ plain)"
        using laws [OF n(1)] by (simp add: mac_laws_def)
      moreover have "take bs plain = plain" if "drop bs ct = []" using that len by simp
      ultimately show ?thesis using tag n by (auto simp: mac_tag_def split: prod.splits)
    qed
    moreover have "m' = None" if "m1 = None" using that tag by (cases m) (auto simp: m1_def mac_tag_def)
    moreover have f: "t_crypto ?s = d" "t_mac ?s = m1" "t_total_length ?s = q - 1 + mac_size_of m" by (simp_all add: s1_def)
    moreover have ub: "unat (block_size_of d) = bs" using dec(5) bs by simp
    ultimately show ?thesis
      unfolding under_way_def Let_def f ub ms using dvd len total dec(7) by (auto split: option.split)
  qed
  moreover have "unread ?s @ xs = slice 5 (bs - 5) plain @ drop bs ct @ tag @ rest"
  proof -
    have "drop bs (unread s) @ xs = drop bs ct @ tag @ rest"
      using arg_cong [OF buf(1), of "drop bs"] buf(2) len dvd(2) by simp
    moreover have "drop 5 (take bs plain @ drop bs (unread s)) = slice 5 (bs - 5) plain @ drop bs (unread s)"
      using b(1) dvd(2) by (auto simp: slice_def drop_take)
    ultimately show ?thesis unfolding rs(2) s1(2) by simp
  qed
  ultimately show thesis
    using that [of ?s d'] dec(5,6) ph(3) [OF lp] z(2) len5 by (simp add: s1_def)
qed

section \<open>Reading on\<close>

definition benign :: "socket \<Rightarrow> bool" where
  "benign sk \<longleftrightarrow> set (sk_errors sk) \<subseteq> {EINTR, EWOULDBLOCK}"

definition midway ::
  "('c, 'm, 'z) transport_read_state \<Rightarrow> socket \<Rightarrow> bytes \<Rightarrow> bytes \<Rightarrow> bytes \<Rightarrow> 'c crypto_instance option \<Rightarrow> 'm mac_instance option \<Rightarrow>
   bytes \<Rightarrow> nat \<Rightarrow> u32 \<Rightarrow> bool" where
  "midway s sk plain ct tag d' m' rest k seqno \<longleftrightarrow>
     transport_inv s \<and> benign sk \<and> under_way s plain ct tag d' m'
     \<and> transport_stream s sk = slice 5 (unat (block_size_of (t_crypto s)) - 5) plain @ ct @ tag @ rest
     \<and> unat (t_padding s) = k \<and> t_seqno s = seqno \<and> unat (t_total_length s) < 34000"

text \<open>What holds once the packet is delivered.\<close>

definition delivered ::
  "('c, 'm, 'z) transport_read_state \<Rightarrow> socket \<Rightarrow> lsh_string \<Rightarrow> lsh_string \<Rightarrow> bytes \<Rightarrow> 'c crypto_instance option \<Rightarrow> 'm mac_instance option \<Rightarrow>
   bytes \<Rightarrow> u32 \<Rightarrow> bool" where
  "delivered s sk old new p d' m' rest seqno \<longleftrightarrow>
     transport_inv s \<and> benign sk \<and> t_total_length s = 0 \<and> t_seqno s = seqno + 1 \<and> t_crypto s = d' \<and> t_mac s = m'
     \<and> transport_stream s sk = rest \<and> nul_terminated new \<and> str_length new = str_length old \<and> take (length p) (str_data new) = p"

lemma same_transport_fields:
  "ssh_read_state.more s' = ssh_read_state.more s \<Longrightarrow>
    t_mac s' = t_mac s \<and> t_crypto s' = t_crypto s \<and> t_inflate s' = t_inflate s \<and> t_seqno s' = t_seqno s \<and> t_padding s' = t_padding s
    \<and> t_total_length s' = t_total_length s \<and> t_mac_buffer s' = t_mac_buffer s"
  by (cases s, cases s') (simp add: ssh_read_state.defs)

lemma reads_from_transport:
  assumes "transport_inv s" "benign sk" "reads_from s sk limit o' s' sk'"
  shows "transport_inv s'" "transport_stream s' sk' = transport_stream s sk" "benign sk'"
  using assms same_transport_fields [OF reads_from_facts(7) [OF assms(3)]] reads_from_facts(1-4) [OF assms(3)]
  by (auto simp: transport_inv_def transport_stream_def benign_def)

lemma reads_from_midway:
  assumes "midway s sk plain ct tag d' m' rest k seqno" "reads_from s sk limit o' s' sk'"
  shows "midway s' sk' plain ct tag d' m' rest k seqno" "t_total_length s' = t_total_length s" "t_crypto s' = t_crypto s"
  using assms reads_from_transport [OF _ _ assms(2)] same_transport_fields [OF reads_from_facts(7) [OF assms(2)]]
  by (auto simp: midway_def under_way_def)

text \<open>The stream of a packet under way holds all of it.\<close>

lemma midway_length:
  assumes "midway s sk plain ct tag d' m' rest k seqno"
  shows "unat (t_total_length s) \<le> unat (r_length s) + length (sk_input sk)"
proof -
  have inv: "transport_inv s" and w: "under_way s plain ct tag d' m'"
    and str: "transport_stream s sk = slice 5 (unat (block_size_of (t_crypto s)) - 5) plain @ ct @ tag @ rest"
    using assms by (auto simp: midway_def)
  have "unat (block_size_of (t_crypto s)) = 8 \<or> unat (block_size_of (t_crypto s)) = 16"
    using inv by (auto simp: transport_inv_def sizes_ok_def)
  then have "unat (t_total_length s) \<le> length (transport_stream s sk)"
    using w unfolding str under_way_def Let_def by auto
  then show ?thesis using length_unread [of s] inv by (simp add: transport_stream_def transport_inv_def)
qed

lemma append_split_le: "xs @ ys = us @ vs \<Longrightarrow> length us \<le> length xs \<Longrightarrow> \<exists>w. xs = us @ w \<and> vs = w @ ys"
  by (auto simp: append_eq_append_conv2)

lemma midway_decode:
  assumes mid: "midway s sk plain ct tag d' m' rest k seqno" and all: "unat (t_total_length s) \<le> unat (r_length s)"
    and plain: "drop 5 plain = p @ padding" "length padding = k"
    and dst: "nul_terminated buf" "length p \<le> unat (str_length buf)"
  shows "\<exists>s' buf'. decode_packet s buf = Some ((SSH_READ_COMPLETE, TR_packet seqno (of_nat (length p))), s', buf')
    \<and> delivered s' sk buf buf' p d' m' rest seqno"
proof -
  have inv: "transport_inv s" and w: "under_way s plain ct tag d' m'" and z: "t_seqno s = seqno" "unat (t_padding s) = k" "benign sk"
    and str: "transport_stream s sk = slice 5 (unat (block_size_of (t_crypto s)) - 5) plain @ ct @ tag @ rest"
    using mid by (auto simp: midway_def)
  let ?front = "slice 5 (unat (block_size_of (t_crypto s)) - 5) plain @ ct @ tag"
  have "unat (block_size_of (t_crypto s)) = 8 \<or> unat (block_size_of (t_crypto s)) = 16"
    using inv by (auto simp: transport_inv_def sizes_ok_def)
  then have "length ?front = unat (t_total_length s)" using w unfolding under_way_def Let_def by auto
  moreover have "length (unread s) = unat (r_length s)" using length_unread [of s] inv by (simp add: transport_inv_def)
  moreover have "unread s @ sk_input sk = ?front @ rest" using str by (simp add: transport_stream_def)
  ultimately obtain us where us: "unread s = ?front @ us" "rest = us @ sk_input sk"
    using append_split_le [of "unread s" "sk_input sk" ?front rest] all by metis
  then have "unread s = slice 5 (unat (block_size_of (t_crypto s)) - 5) plain @ ct @ tag @ us" by simp
  from decode_packet_ok [OF inv w this plain(1) _ dst] plain(2) z us(2) show ?thesis
    by (auto simp: delivered_def transport_stream_def)
qed

text \<open>The result of a step: the reader waits for more, or the packet is delivered.\<close>

definition packet_step where
  "packet_step P fd sk buf p d' m' rest seqno r s' sk' buf' \<longleftrightarrow>
     SSH_READ_COMPLETE < fst r \<and> buf' = buf \<and> P s' sk' \<and> sk_measure sk' \<le> sk_measure sk \<and> (fd \<longrightarrow> sk_measure sk' < sk_measure sk)
     \<or> r = (SSH_READ_COMPLETE, TR_packet seqno (of_nat (length p))) \<and> delivered s' sk' buf buf' p d' m' rest seqno"

lemma waiting: "st = SSH_READ_PENDING \<or> st = SSH_READ_PUSH \<Longrightarrow> SSH_READ_COMPLETE < st"
  by (auto simp: less_ssh_read_status_def)

lemma midway_read_rest:
  assumes mid: "midway s sk plain ct tag d' m' rest k seqno"
    and full: "block_size_of (t_crypto s) \<le> t_total_length s \<or> t_total_length s \<le> r_length s"
    and plain: "drop 5 plain = p @ padding" "length padding = k"
    and dst: "nul_terminated buf" "length p \<le> unat (str_length buf)"
  defines "P \<equiv> \<lambda>s' sk. midway s' sk plain ct tag d' m' rest k seqno \<and> block_size_of (t_crypto s') = block_size_of (t_crypto s)
      \<and> block_size_of (t_crypto s) \<le> t_total_length s'"
  shows "\<exists>r s' sk' buf'. read_rest s fd sk buf = Some (r, s', sk', buf') \<and> packet_step P fd sk buf p d' m' rest seqno r s' sk' buf'"
proof (cases "unat (r_length s) < unat (t_total_length s)")
  case False
  then show ?thesis
    using midway_decode [OF mid _ plain dst] by (auto simp: read_rest_def packet_step_def u32_less)
next
  case short: True
  have inv: "transport_inv s" and rinv: "read_inv s" and ben: "benign sk" and lt: "unat (t_total_length s) < 34000"
    using mid by (auto simp: midway_def transport_inv_def)
  have pend: "P s sk" using mid full short by (auto simp: P_def u32_le)
  have st: "SSH_READ_COMPLETE < r_status s" using rinv by (auto simp: read_inv_def intro: waiting)
  show ?thesis
  proof (cases fd)
    case False
    then show ?thesis using short st pend by (auto simp: read_rest_def packet_step_def u32_less)
  next
    case True
    let ?lim = "t_total_length s + TRANSPORT_READ_AHEAD"
    have lim: "unat ?lim = unat (t_total_length s) + 1000" using lt by (simp add: unat_u32_mod)
    then obtain o' s1 sk1 where some: "ssh_read_some s sk ?lim = Some (o', s1, sk1)" and rf: "reads_from s sk ?lim o' s1 sk1"
      using ssh_read_some_ok [OF rinv, of ?lim sk] short lt inv by (auto simp: transport_inv_def)
    note f = reads_from_facts [OF rf] and m = reads_from_midway [OF mid rf]
    have pend1: "P s1 sk1" using m pend by (simp add: P_def)
    have st1: "SSH_READ_COMPLETE < r_status s1" using f(1) by (auto simp: read_inv_def intro: waiting)
    show ?thesis
    proof (cases o')
      case (Read_error e)
      then have "e = EWOULDBLOCK" using f(9) ben by (auto simp: benign_def)
      then show ?thesis
        using True short some Read_error pend1 f(5,6) waiting by (auto simp: read_rest_def packet_step_def u32_less)
    next
      case Read_eof
      then show ?thesis using midway_length [OF mid] f(8) short by auto
    next
      case Read_ok
      show ?thesis
      proof (cases "unat (r_length s1) < unat (t_total_length s1)")
        case True
        then show ?thesis
          using \<open>fd\<close> short some Read_ok pend1 st1 f(5,6) by (auto simp: read_rest_def packet_step_def u32_less)
      next
        case False
        then show ?thesis
          using \<open>fd\<close> short some Read_ok midway_decode [OF m(1) _ plain dst] by (auto simp: read_rest_def packet_step_def u32_less)
      qed
    qed
  qed
qed

lemma read_first_block_ok:
  assumes inv: "transport_inv s" and ben: "benign sk" and long: "unat (block_size_of (t_crypto s)) \<le> length (transport_stream s sk)"
  shows "\<exists>r s1 fd1 sk1. read_first_block s fd sk = Some (r, s1, fd1, sk1)
    \<and> transport_inv s1 \<and> benign sk1 \<and> transport_stream s1 sk1 = transport_stream s sk \<and> ssh_read_state.more s1 = ssh_read_state.more s
    \<and> sk_measure sk1 \<le> sk_measure sk
    \<and> (case r of Some (st, out) \<Rightarrow> SSH_READ_COMPLETE < st \<and> (fd \<longrightarrow> sk_measure sk1 < sk_measure sk)
       | None \<Rightarrow> block_size_of (t_crypto s) \<le> r_length s1 \<and> (fd1 = fd \<or> sk_measure sk1 < sk_measure sk))"
proof (cases "unat (r_length s) < unat (block_size_of (t_crypto s))")
  case False
  then show ?thesis using inv ben by (auto simp: read_first_block_def u32_less u32_le)
next
  case short: True
  let ?bs = "block_size_of (t_crypto s)"
  have rinv: "read_inv s" and b: "?bs = 8 \<or> ?bs = 16" using inv by (auto simp: transport_inv_def sizes_ok_def)
  have st: "SSH_READ_COMPLETE < r_status s" using rinv by (auto simp: read_inv_def intro: waiting)
  show ?thesis
  proof (cases fd)
    case False
    then show ?thesis using short st inv ben by (auto simp: read_first_block_def u32_less)
  next
    case True
    have "unat ?bs \<le> 16" using b by auto
    then obtain o' s1 sk1 where some: "ssh_read_some s sk 1000 = Some (o', s1, sk1)" and rf: "reads_from s sk 1000 o' s1 sk1"
      using ssh_read_some_ok [OF rinv, of 1000 sk] short inv by (auto simp: transport_inv_def)
    note f = reads_from_facts [OF rf] and m = reads_from_transport [OF inv ben rf]
    have st1: "SSH_READ_COMPLETE < r_status s1" using f(1) by (auto simp: read_inv_def intro: waiting)
    show ?thesis
    proof (cases o')
      case (Read_error e)
      then have "e = EWOULDBLOCK" using f(9) ben by (auto simp: benign_def)
      then show ?thesis
        using True short some Read_error m f(5-7) waiting by (auto simp: read_first_block_def u32_less)
    next
      case Read_eof
      then show ?thesis using long length_unread [OF rinv] f(8) short by (simp add: transport_stream_def)
    next
      case Read_ok
      then show ?thesis using True short some m f(5-7) st1 by (auto simp: read_first_block_def u32_less u32_le)
    qed
  qed
qed

section \<open>Delivery of a packet\<close>

text \<open>The stream is the packet \<open>p\<close>, sealed by the sender's \<open>e\<close> and \<open>m\<close>, before \<open>rest\<close>; the reader has not seen it
  or has its first block.\<close>

definition awaiting ::
  "('c \<Rightarrow> 'c \<Rightarrow> bool) \<Rightarrow> 'c crypto_instance option \<Rightarrow> 'm mac_instance option \<Rightarrow> u32 \<Rightarrow> (nat \<Rightarrow> byte) \<Rightarrow> bytes \<Rightarrow> bytes \<Rightarrow>
   ('c, 'm, 'z) transport_read_state \<Rightarrow> socket \<Rightarrow> bool" where
  "awaiting R e m seqno rnd p rest s sk \<longleftrightarrow>
     (let bs = unat (block_size_of e); plain = plain_packet bs rnd p in
      expecting R s e m seqno \<and> benign sk \<and> transport_stream s sk = wire_packet e m seqno rnd p @ rest
      \<or> (\<exists>d'. matching R (fst (crypt_bytes e plain)) d' \<and>
           midway s sk plain (drop bs (snd (crypt_bytes e plain))) (snd (mac_tag m seqno plain)) d' (fst (mac_tag m seqno plain)) rest
             (pad_length bs (length p)) seqno
           \<and> block_size_of (t_crypto s) = block_size_of e \<and> block_size_of e \<le> t_total_length s))"

definition packet_fits :: "'c crypto_instance option \<Rightarrow> 'm mac_instance option \<Rightarrow> (nat \<Rightarrow> byte) \<Rightarrow> bytes \<Rightarrow> bool" where
  "packet_fits e m rnd p \<longleftrightarrow> p \<noteq> [] \<and> length (plain_packet (unat (block_size_of e)) rnd p) + unat (mac_size_of m) < 34005"

lemma packet_step_weaken:
  "\<lbrakk>packet_step P fd1 sk1 buf p d' m' rest seqno r s' sk' buf'; \<And>s sk. P s sk \<Longrightarrow> Q s sk;
    sk_measure sk1 \<le> sk_measure sk; fd1 = fd \<or> sk_measure sk1 < sk_measure sk\<rbrakk>
   \<Longrightarrow> packet_step Q fd sk buf p d' m' rest seqno r s' sk' buf'"
  by (auto simp: packet_step_def)

text \<open>Before the packet: the first block may complete it.\<close>

lemma expecting_step:
  assumes exp: "expecting R s e m seqno" and ben: "benign sk" and str: "unread s @ sk_input sk = wire_packet e m seqno rnd p @ rest"
    and fits: "packet_fits e m rnd p" and dst: "nul_terminated buf" "length p \<le> unat (str_length buf)"
    and block: "block_size_of e \<le> r_length s"
  defines "plain \<equiv> plain_packet (unat (block_size_of e)) rnd p"
  shows "\<exists>s2 r s' sk' buf' d'. process_header s = Some (None, s2) \<and> read_rest s2 fd sk buf = Some (r, s', sk', buf')
    \<and> matching R (fst (crypt_bytes e plain)) d'
    \<and> packet_step (awaiting R e m seqno rnd p rest) fd sk buf p d' (fst (mac_tag m seqno plain)) rest seqno r s' sk' buf'"
proof -
  define bs where "bs = unat (block_size_of e)"
  let ?ct = "snd (crypt_bytes e plain)" and ?k = "pad_length bs (length p)"
  obtain m' tag where tag: "mac_tag m seqno plain = (m', tag)" by fastforce
  have inv: "transport_inv s" using exp by (simp add: expecting_def)
  have b: "bs = 8 \<or> bs = 16" and ms: "mac_size_of m = 0 \<or> 5 \<le> mac_size_of m"
    using inv exp matching_block_size [of R e "t_crypto s"] by (auto simp: bs_def transport_inv_def sizes_ok_def expecting_def)
  have small: "length plain + unat (mac_size_of m) < 34005" "p \<noteq> []" using fits by (auto simp: packet_fits_def plain_def)
  have pl: "plain = plain_packet bs rnd p" by (simp add: plain_def bs_def)
  have str': "unread s @ sk_input sk = ?ct @ tag @ rest" using str tag by (simp add: wire_packet_def plain_def Let_def)
  have enough: "bs \<le> length (unread s)" using block length_unread [of s] inv by (simp add: transport_inv_def bs_def u32_le)
  obtain s2 d' where h: "process_header s = Some (None, s2)" "transport_inv s2" "t_seqno s2 = seqno" "under_way s2 plain (drop bs ?ct) tag d' m'"
      "matching R (fst (crypt_bytes e plain)) d'" "unat (t_padding s2) = ?k" "block_size_of (t_crypto s2) = block_size_of e"
      "unread s2 @ sk_input sk = slice 5 (bs - 5) plain @ drop bs ?ct @ tag @ rest" "length (unread s2) = length (unread s) - 5"
    using process_header_ok [OF exp small(2) bs_def pl refl tag small(1) str' enough] by blast
  have total: "unat (t_total_length s2) = length plain - 5 + length tag" "bs \<le> length plain" "bs dvd length plain" "length tag = unat (mac_size_of m)"
    using h(4,7) length_mac_tag [of m seqno plain] tag inv exp
    by (auto simp: under_way_def Let_def bs_def expecting_def transport_inv_def)
  have "unat (t_total_length s2) < 34000" using total(1,2,4) small(1) b by arith
  then have mid: "midway s2 sk plain (drop bs ?ct) tag d' m' rest ?k seqno"
    using h ben by (simp add: midway_def transport_stream_def bs_def)
  have full: "block_size_of (t_crypto s2) \<le> t_total_length s2 \<or> t_total_length s2 \<le> r_length s2"
  proof (cases "bs \<le> unat (t_total_length s2)")
    case False
    then have "unat (mac_size_of m) < 5" using total(1,2,4) by arith
    then have "length tag = 0" using ms total(4) by (auto simp: u32_le)
    moreover have "length plain < 2 * bs" using False total(1) calculation b by arith
    then have "length plain = bs" using total(2,3) by (auto elim!: dvdE)
    moreover have "unat (r_length s2) = length (unread s2)" using length_unread [of s2] h(2) by (simp add: transport_inv_def)
    ultimately show ?thesis using total(1) h(9) diff_le_mono [OF enough, of 5] by (simp add: u32_le)
  qed (simp add: h(7) u32_le bs_def)
  have ph: "drop 5 plain = p @ map rnd [0..<?k]" using plain_header(5) [OF b small(2), of rnd] small(1) by (simp add: pl)
  let ?P = "\<lambda>s' sk. midway s' sk plain (drop bs ?ct) tag d' m' rest ?k seqno \<and> block_size_of (t_crypto s') = block_size_of (t_crypto s2)
      \<and> block_size_of (t_crypto s2) \<le> t_total_length s'"
  obtain r s' sk' buf' where rr: "read_rest s2 fd sk buf = Some (r, s', sk', buf')" "packet_step ?P fd sk buf p d' m' rest seqno r s' sk' buf'"
    using midway_read_rest [OF mid full ph _ dst, of fd] by auto
  moreover have "awaiting R e m seqno rnd p rest s sk" if "?P s sk" for s sk
    unfolding awaiting_def Let_def bs_def [symmetric] pl [symmetric] tag fst_conv snd_conv
    using that h(5,7) by (intro disjI2 exI [of _ d']) simp
  then have "packet_step (awaiting R e m seqno rnd p rest) fd sk buf p d' m' rest seqno r s' sk' buf'"
    using packet_step_weaken [OF rr(2)] by blast
  ultimately show ?thesis unfolding tag fst_conv using h(1,5) by blast
qed

lemma same_fields_awaiting:
  assumes "ssh_read_state.more s1 = ssh_read_state.more s" "transport_inv s1" "benign sk1" "transport_stream s1 sk1 = transport_stream s sk"
  shows "expecting R s e m seqno \<Longrightarrow> expecting R s1 e m seqno"
    "midway s sk plain ct tag d' m' rest k seqno \<Longrightarrow> midway s1 sk1 plain ct tag d' m' rest k seqno"
  using assms(2-4) same_transport_fields [OF assms(1)] by (auto simp: expecting_def midway_def under_way_def)

lemma transport_read_packet_awaiting:
  assumes aw: "awaiting R e m seqno rnd p rest s sk" and fits: "packet_fits e m rnd p"
    and dst: "nul_terminated buf" "length p \<le> unat (str_length buf)"
  defines "plain \<equiv> plain_packet (unat (block_size_of e)) rnd p"
  shows "\<exists>r s' sk' buf' d'. transport_read_packet s fd sk buf = Some (r, s', sk', buf')
    \<and> (fst r = SSH_READ_COMPLETE \<longrightarrow> matching R (fst (crypt_bytes e plain)) d')
    \<and> packet_step (awaiting R e m seqno rnd p rest) fd sk buf p d' (fst (mac_tag m seqno plain)) rest seqno r s' sk' buf'"
proof -
  define bs where "bs = unat (block_size_of e)"
  let ?ct = "drop bs (snd (crypt_bytes e plain))" and ?tag = "snd (mac_tag m seqno plain)" and ?m' = "fst (mac_tag m seqno plain)"
    and ?k = "pad_length bs (length p)"
  have aw': "expecting R s e m seqno \<and> benign sk \<and> transport_stream s sk = wire_packet e m seqno rnd p @ rest
      \<or> (\<exists>d'. matching R (fst (crypt_bytes e plain)) d' \<and> midway s sk plain ?ct ?tag d' ?m' rest ?k seqno
           \<and> block_size_of (t_crypto s) = block_size_of e \<and> block_size_of e \<le> t_total_length s)"
    using aw by (simp add: awaiting_def Let_def plain_def bs_def)
  have inv: "transport_inv s" "benign sk" "block_size_of (t_crypto s) = block_size_of e"
    using aw' matching_block_size [of R e "t_crypto s"] by (auto simp: expecting_def midway_def)
  have b: "bs = 8 \<or> bs = 16" using inv by (auto simp: bs_def transport_inv_def sizes_ok_def)
  have long: "unat (block_size_of (t_crypto s)) \<le> length (transport_stream s sk)"
    using aw'
  proof
    assume a: "expecting R s e m seqno \<and> benign sk \<and> transport_stream s sk = wire_packet e m seqno rnd p @ rest"
    have "bs dvd length plain" "bs \<le> length plain"
      using plain_packet_dvd [of bs rnd p] b length_plain_packet [of bs rnd p] pad_length_bounds(3) [of bs "length p"]
      by (auto simp: plain_def bs_def)
    then have "bs \<le> length (snd (crypt_bytes e plain))"
      using length_crypt_bytes [of R e "t_crypto s" plain] a by (simp add: expecting_def bs_def)
    then show ?thesis using a inv(3) by (simp add: wire_packet_def Let_def plain_def bs_def)
  next
    assume "\<exists>d'. matching R (fst (crypt_bytes e plain)) d' \<and> midway s sk plain ?ct ?tag d' ?m' rest ?k seqno
           \<and> block_size_of (t_crypto s) = block_size_of e \<and> block_size_of e \<le> t_total_length s"
    then have "unat (block_size_of e) \<le> unat (r_length s) + length (sk_input sk)"
      using midway_length [of s sk plain ?ct ?tag _ ?m' rest ?k seqno] by (auto simp: u32_le intro: order_trans)
    then show ?thesis using inv length_unread [of s] by (simp add: transport_stream_def transport_inv_def)
  qed
  obtain r1 s1 fd1 sk1 where f: "read_first_block s fd sk = Some (r1, s1, fd1, sk1)" "transport_inv s1" "benign sk1"
      "transport_stream s1 sk1 = transport_stream s sk" "ssh_read_state.more s1 = ssh_read_state.more s" "sk_measure sk1 \<le> sk_measure sk"
    and c: "case r1 of Some (st, out) \<Rightarrow> SSH_READ_COMPLETE < st \<and> (fd \<longrightarrow> sk_measure sk1 < sk_measure sk)
       | None \<Rightarrow> block_size_of (t_crypto s) \<le> r_length s1 \<and> (fd1 = fd \<or> sk_measure sk1 < sk_measure sk)"
    using read_first_block_ok [OF inv(1,2) long, of fd] by blast
  note same = same_fields_awaiting [OF f(5,2,3,4)] and fields = same_transport_fields [OF f(5)]
  have aw1: "awaiting R e m seqno rnd p rest s1 sk1"
    using aw' same fields f(3,4) by (auto simp: awaiting_def Let_def plain_def bs_def)
  show ?thesis
  proof (cases r1)
    case (Some x)
    then show ?thesis
      using f c aw1 by (cases x) (auto simp: transport_read_packet_def packet_step_def)
  next
    case None
    then have blk: "block_size_of (t_crypto s1) \<le> r_length s1" "fd1 = fd \<or> sk_measure sk1 < sk_measure sk" using c fields by auto
    show ?thesis
      using aw'
    proof
      assume a: "expecting R s e m seqno \<and> benign sk \<and> transport_stream s sk = wire_packet e m seqno rnd p @ rest"
      then have str: "unread s1 @ sk_input sk1 = wire_packet e m seqno rnd p @ rest" using f(4) by (simp add: transport_stream_def)
      have "expecting R s1 e m seqno" "block_size_of e \<le> r_length s1" using same(1) a blk(1) fields inv(3) by simp_all
      then obtain s2 r s' sk' buf' d' where "process_header s1 = Some (None, s2)" "read_rest s2 fd1 sk1 buf = Some (r, s', sk', buf')"
          "matching R (fst (crypt_bytes e plain)) d'"
          "packet_step (awaiting R e m seqno rnd p rest) fd1 sk1 buf p d' ?m' rest seqno r s' sk' buf'"
        using expecting_step [OF _ f(3) str fits dst, where fd = fd1, folded plain_def] by blast
      moreover from this have "packet_step (awaiting R e m seqno rnd p rest) fd sk buf p d' ?m' rest seqno r s' sk' buf'"
        by (blast intro: packet_step_weaken [OF _ _ f(6) blk(2)])
      moreover have "t_total_length s1 = 0" using a fields by (simp add: expecting_def)
      ultimately show ?thesis
        using f(1) None blk(1)
        by (intro exI [of _ r] exI [of _ s'] exI [of _ sk'] exI [of _ buf'] exI [of _ d']) (simp add: transport_read_packet_def)
    next
      assume "\<exists>d'. matching R (fst (crypt_bytes e plain)) d' \<and> midway s sk plain ?ct ?tag d' ?m' rest ?k seqno
           \<and> block_size_of (t_crypto s) = block_size_of e \<and> block_size_of e \<le> t_total_length s"
      then obtain d' where a: "matching R (fst (crypt_bytes e plain)) d'" "midway s sk plain ?ct ?tag d' ?m' rest ?k seqno"
          "block_size_of e \<le> t_total_length s" by blast
      have mid: "midway s1 sk1 plain ?ct ?tag d' ?m' rest ?k seqno" by (rule same(2) [OF a(2)])
      have small: "length plain + unat (mac_size_of m) < 34005" "p \<noteq> []" using fits by (auto simp: packet_fits_def plain_def)
      have pl: "plain = plain_packet bs rnd p" by (simp add: plain_def bs_def)
      have ph: "drop 5 plain = p @ map rnd [0..<?k]" using plain_header(5) [OF b small(2), of rnd] small(1) by (simp add: pl)
      have full: "block_size_of (t_crypto s1) \<le> t_total_length s1 \<or> t_total_length s1 \<le> r_length s1" using a(3) fields inv(3) by simp
      let ?P = "\<lambda>s' sk. midway s' sk plain ?ct ?tag d' ?m' rest ?k seqno \<and> block_size_of (t_crypto s') = block_size_of (t_crypto s1)
          \<and> block_size_of (t_crypto s1) \<le> t_total_length s'"
      obtain r s' sk' buf' where rr: "read_rest s1 fd1 sk1 buf = Some (r, s', sk', buf')"
          "packet_step ?P fd1 sk1 buf p d' ?m' rest seqno r s' sk' buf'"
        using midway_read_rest [OF mid full ph _ dst, of fd1] by auto
      have "awaiting R e m seqno rnd p rest s sk" if "?P s sk" for s sk
        unfolding awaiting_def Let_def bs_def [symmetric] pl [symmetric]
        using that a(1) inv(3) fields by (intro disjI2 exI [of _ d']) simp
      then have "packet_step (awaiting R e m seqno rnd p rest) fd sk buf p d' ?m' rest seqno r s' sk' buf'"
        using packet_step_weaken [OF rr(2) _ f(6) blk(2)] by blast
      moreover have "t_total_length s1 \<noteq> 0" using a(3) fields b by (auto simp: bs_def u32_le)
      ultimately show ?thesis
        using f(1) None rr(1) a(1) blk(1)
        by (intro exI [of _ r] exI [of _ s'] exI [of _ sk'] exI [of _ buf'] exI [of _ d']) (simp add: transport_read_packet_def)
    qed
  qed
qed

text \<open>A sender that seals packets one after the other, and a client that keeps calling the reader.\<close>

fun seal_packets ::
  "(nat \<Rightarrow> byte) \<Rightarrow> 'c crypto_instance option \<Rightarrow> 'm mac_instance option \<Rightarrow> u32 \<Rightarrow> ((nat \<Rightarrow> byte) \<times> lsh_string) list \<Rightarrow> bytes option" where
  "seal_packets junk e m seqno [] = Some []"
| "seal_packets junk e m seqno ((rnd, packet) # ps) =
     do { (t, _, e, m) \<leftarrow> encrypt_packet junk rnd packet (None :: unit zlib_instance option) e m seqno;
          wire \<leftarrow> seal_packets junk e m (seqno + 1) ps;
          Some (contents t @ wire) }"

fun numbered :: "u32 \<Rightarrow> bytes list \<Rightarrow> (u32 \<times> bytes) list" where
  "numbered n [] = []"
| "numbered n (p # ps) = (n, p) # numbered (n + 1) ps"

inductive transport_delivers ::
  "('c, 'm, 'z) transport_read_state \<times> socket \<times> lsh_string \<Rightarrow> (u32 \<times> bytes) list \<Rightarrow>
   ('c, 'm, 'z) transport_read_state \<times> socket \<times> lsh_string \<Rightarrow> bool" where
  stop: "transport_delivers x [] x"
| wait: "\<lbrakk>transport_read_packet s True sk buf = Some ((st, out), s1, sk1, buf1); SSH_READ_COMPLETE < st;
     transport_delivers (s1, sk1, buf1) ps y\<rbrakk> \<Longrightarrow> transport_delivers (s, sk, buf) ps y"
| packet: "\<lbrakk>transport_read_packet s True sk buf = Some ((SSH_READ_COMPLETE, TR_packet n l), s1, sk1, buf1);
     p = take (unat l) (str_data buf1); transport_delivers (s1, sk1, buf1) ps y\<rbrakk> \<Longrightarrow> transport_delivers (s, sk, buf) ((n, p) # ps) y"

lemma expecting_fits:
  assumes "expecting R s e m seqno" "p \<noteq> []" "length p \<le> 32768"
  shows "packet_fits e m rnd p" "unat (mac_size_of m) \<le> 20"
proof -
  have bs: "unat (block_size_of e) = 8 \<or> unat (block_size_of e) = 16" and ms: "unat (mac_size_of m) \<le> 20"
    using assms(1) matching_block_size [of R e "t_crypto s"] by (auto simp: expecting_def transport_inv_def sizes_ok_def u32_le)
  then have "length (plain_packet (unat (block_size_of e)) rnd p) \<le> length p + 24"
    using length_plain_packet [of "unat (block_size_of e)" rnd p] pad_length_bounds [of "unat (block_size_of e)" "length p"] by auto
  then show "packet_fits e m rnd p" "unat (mac_size_of m) \<le> 20" using assms(2,3) ms by (auto simp: packet_fits_def)
qed

lemma packet_delivered:
  assumes "awaiting R e m seqno rnd p rest s sk" "packet_fits e m rnd p" "nul_terminated buf" "length p \<le> unat (str_length buf)"
  defines "plain \<equiv> plain_packet (unat (block_size_of e)) rnd p"
  assumes onward: "\<And>s' sk' buf'. \<lbrakk>expecting R s' (fst (crypt_bytes e plain)) (fst (mac_tag m seqno plain)) (seqno + 1); benign sk';
      transport_stream s' sk' = rest; nul_terminated buf'; str_length buf' = str_length buf\<rbrakk> \<Longrightarrow> \<exists>y. transport_delivers (s', sk', buf') ps y \<and> Q y"
  shows "\<exists>y. transport_delivers (s, sk, buf) ((seqno, p) # ps) y \<and> Q y"
  using assms(1)
proof (induction "sk_measure sk" arbitrary: s sk rule: less_induct)
  case less
  obtain st out s' sk' buf' d' where r: "transport_read_packet s True sk buf = Some ((st, out), s', sk', buf')"
    and d: "st = SSH_READ_COMPLETE \<longrightarrow> matching R (fst (crypt_bytes e plain)) d'"
    and p: "packet_step (awaiting R e m seqno rnd p rest) True sk buf p d' (fst (mac_tag m seqno plain)) rest seqno (st, out) s' sk' buf'"
    using transport_read_packet_awaiting [OF less.prems assms(2-4), of True, folded plain_def] by fastforce
  show ?case
  proof (cases "SSH_READ_COMPLETE < st")
    case True
    then have "buf' = buf" "awaiting R e m seqno rnd p rest s' sk'" "sk_measure sk' < sk_measure sk" using p by (auto simp: packet_step_def)
    then show ?thesis using less.hyps [of sk' s'] r True transport_delivers.wait by metis
  next
    case False
    then have c: "(st, out) = (SSH_READ_COMPLETE, TR_packet seqno (of_nat (length p)))"
        "delivered s' sk' buf buf' p d' (fst (mac_tag m seqno plain)) rest seqno"
      using p by (auto simp: packet_step_def)
    then obtain y where "transport_delivers (s', sk', buf') ps y" "Q y"
      using onward [of s' sk' buf'] d by (auto simp: delivered_def expecting_def)
    moreover have "unat (of_nat (length p) :: u32) = length p" using assms(4) by (intro unat_u32_of_nat le_less_trans [OF assms(4)]) simp
    moreover have "take (length p) (str_data buf') = p" using c(2) by (simp add: delivered_def)
    ultimately have "transport_delivers (s, sk, buf) ((seqno, p) # ps) y"
      using r c(1) by (intro transport_delivers.packet) auto
    then show ?thesis using \<open>Q y\<close> by blast
  qed
qed

lemma after_packet:
  "cipher_ok e \<Longrightarrow> cipher_ok (fst (crypt_bytes e plain))"
  by (cases e) (auto simp: cipher_ok_def crypt_bytes_def split: prod.splits)

definition packets_ok :: "((nat \<Rightarrow> byte) \<times> lsh_string) list \<Rightarrow> bool" where
  "packets_ok ps \<longleftrightarrow> (\<forall>(rnd, packet) \<in> set ps. nul_terminated packet \<and> contents packet \<noteq> [] \<and> length (contents packet) \<le> 32768)"

lemma seal_packet:
  assumes "cipher_ok e" "\<And>m'. m = Some m' \<Longrightarrow> mac_laws m'" "unat (mac_size_of m) \<le> 20" "packets_ok ((rnd, packet) # ps)"
  defines "plain \<equiv> plain_packet (unat (block_size_of e)) rnd (contents packet)"
  obtains t where "encrypt_packet junk rnd packet (None :: unit zlib_instance option) e m seqno = Some (t, None, fst (crypt_bytes e plain), fst (mac_tag m seqno plain))"
    "contents t = wire_packet e m seqno rnd (contents packet)"
  using encrypt_packet_ok [of packet "contents packet" m e junk rnd seqno] assms by (auto simp: packets_ok_def)

lemma seal_packets_total:
  assumes "cipher_ok e" "\<And>m'. m = Some m' \<Longrightarrow> mac_laws m'" "unat (mac_size_of m) \<le> 20" "packets_ok ps"
  shows "\<exists>wire. seal_packets junk e m seqno ps = Some wire"
  using assms
proof (induction ps arbitrary: e m seqno)
  case (Cons x ps)
  obtain rnd packet where x: "x = (rnd, packet)" by (cases x)
  let ?plain = "plain_packet (unat (block_size_of e)) rnd (contents packet)"
  obtain t where "encrypt_packet junk rnd packet (None :: unit zlib_instance option) e m seqno =
      Some (t, None, fst (crypt_bytes e ?plain), fst (mac_tag m seqno ?plain))"
    using seal_packet [OF Cons.prems(1,2,3), of rnd packet ps junk seqno] Cons.prems(4) x by blast
  moreover have "\<exists>wire. seal_packets junk (fst (crypt_bytes e ?plain)) (fst (mac_tag m seqno ?plain)) (seqno + 1) ps = Some wire"
    using Cons.prems by (intro Cons.IH after_packet) (auto simp: packets_ok_def mac_tag_def mac_laws_def split: option.splits prod.splits)
  ultimately show ?case by (auto simp: x)
qed simp

lemma sealed_delivered:
  fixes s :: "('c, 'm, 'z) transport_read_state"
  assumes "expecting R s e m seqno" "cipher_ok e" "benign sk" "nul_terminated buf" "unat (str_length buf) = 32769" "packets_ok ps"
    and "seal_packets junk e m seqno ps = Some wire" "transport_stream s sk = wire @ rest"
  shows "\<exists>y. transport_delivers (s, sk, buf) (numbered seqno (map (\<lambda>x. contents (snd x)) ps)) y \<and> transport_stream (fst y) (fst (snd y)) = rest"
  using assms
proof (induction ps arbitrary: s e m seqno sk buf wire)
  case Nil
  then show ?case by (auto intro!: exI transport_delivers.stop)
next
  case (Cons x ps)
  obtain rnd packet where x: "x = (rnd, packet)" by (cases x)
  define p where "p = contents packet"
  let ?plain = "plain_packet (unat (block_size_of e)) rnd p"
  let ?e = "fst (crypt_bytes e ?plain)" and ?m = "fst (mac_tag m seqno ?plain)"
  have p: "p \<noteq> []" "length p \<le> 32768" and ok: "packets_ok ps" using Cons.prems(6) by (auto simp: x p_def packets_ok_def)
  note fits = expecting_fits [OF Cons.prems(1) p]
  have "mac_laws m'" if "m = Some m'" for m' using Cons.prems(1) that by (auto simp: expecting_def transport_inv_def)
  then obtain t where "encrypt_packet junk rnd packet (None :: unit zlib_instance option) e m seqno = Some (t, None, ?e, ?m)"
      "contents t = wire_packet e m seqno rnd p"
    using seal_packet [OF Cons.prems(2) _ fits(2), of rnd packet ps junk seqno] Cons.prems(6) x p_def by auto
  then obtain wire' where wire: "seal_packets junk ?e ?m (seqno + 1) ps = Some wire'"
      "transport_stream s sk = wire_packet e m seqno rnd p @ wire' @ rest"
    using Cons.prems(7,8) by (auto simp: x bind_eq_Some_conv)
  have "awaiting R e m seqno rnd p (wire' @ rest) s sk" using Cons.prems(1,3) wire(2) by (simp add: awaiting_def Let_def)
  then show ?case
    unfolding x list.map snd_conv p_def [symmetric] numbered.simps
  proof (rule packet_delivered [OF _ fits(1) Cons.prems(4)])
    show "\<exists>y. transport_delivers (s', sk', buf') (numbered (seqno + 1) (map (\<lambda>x. contents (snd x)) ps)) y \<and> transport_stream (fst y) (fst (snd y)) = rest"
      if "expecting R s' ?e ?m (seqno + 1)" "benign sk'" "transport_stream s' sk' = wire' @ rest" "nul_terminated buf'" "str_length buf' = str_length buf"
      for s' :: "('c, 'm, 'z) transport_read_state" and sk' buf'
      using Cons.IH [where s = s' and sk = sk' and buf = buf' and e = ?e and m = ?m and seqno = "seqno + 1" and wire = wire'] that ok Cons.prems(2,5) wire(1)
      by (simp add: after_packet)
  qed (use p Cons.prems(5) in simp)
qed

lemma make_transport_inv:
  "transport_inv (make_transport_read_state junk :: ('c, 'm, 'z) transport_read_state)"
  "transport_stream (make_transport_read_state junk :: ('c, 'm, 'z) transport_read_state) sk = sk_input sk"
  "t_total_length (make_transport_read_state junk :: ('c, 'm, 'z) transport_read_state) = 0"
  "t_seqno (make_transport_read_state junk :: ('c, 'm, 'z) transport_read_state) = 0"
  using init_read_inv(1) [of "SSH_MAX_PACKET + SSH_MAX_PACKET_FUZZ" junk] init_read_inv(2) [of junk "SSH_MAX_PACKET + SSH_MAX_PACKET_FUZZ"]
  by (simp_all add: transport_inv_def make_transport_read_state_def ssh_read_state.defs init_ssh_read_state_def read_inv_def unread_def
      transport_stream_def sizes_ok_def)

text \<open>New keys between packets: the two ends stay in step when the new ciphers match and the sizes are legal.\<close>

lemma new_keys_expecting:
  assumes "transport_inv s" "t_total_length s = 0" "matching R e d" "sizes_ok (block_size_of d) (mac_size_of m)" "\<And>m'. m = Some m' \<Longrightarrow> mac_laws m'"
  shows "expecting R (transport_read_new_keys s m d None) e m (t_seqno s)"
  using assms by (auto simp: expecting_def transport_inv_def transport_read_new_keys_def read_inv_def)

section \<open>Properties\<close>

text \<open>C11 The packet layer end to end, without compression: \<open>encrypt_packet\<close> seals any sequence of packets of one to \<open>SSH_MAX_PACKET\<close> bytes, and a reader whose
  cipher inverts the sender's, with the same authentication state and sequence number, delivers exactly these packets in order
  with consecutive sequence numbers when it is called often enough, in chunks of whatever sizes the reads return the bytes and whatever
  interruptions occur.\<close>

theorem transport_packets_delivered:
  fixes s :: "('c, 'm, 'z) transport_read_state"
  assumes "expecting R s e m seqno" "cipher_ok e" "packets_ok ps"
    and "benign sk" "transport_stream s sk = []" "nul_terminated buf" "unat (str_length buf) = 32769"
  shows "\<exists>wire. seal_packets junk e m seqno ps = Some wire \<and>
    (\<exists>s' sk' buf'. transport_delivers (s, sk\<lparr>sk_input := wire\<rparr>, buf) (numbered seqno (map (\<lambda>x. contents (snd x)) ps)) (s', sk', buf')
       \<and> transport_stream s' sk' = [])"
proof -
  have m: "\<And>m'. m = Some m' \<Longrightarrow> mac_laws m'" "unat (mac_size_of m) \<le> 20"
    using assms(1) expecting_fits(2) [OF assms(1), of "[0]"] by (auto simp: expecting_def transport_inv_def)
  obtain wire where w: "seal_packets junk e m seqno ps = Some wire"
    using seal_packets_total [OF assms(2) m assms(3)] by blast
  moreover have "transport_stream s (sk\<lparr>sk_input := wire\<rparr>) = wire" "benign (sk\<lparr>sk_input := wire\<rparr>)"
    using assms(4,5) by (auto simp: transport_stream_def benign_def)
  ultimately obtain y where "transport_delivers (s, sk\<lparr>sk_input := wire\<rparr>, buf) (numbered seqno (map (\<lambda>x. contents (snd x)) ps)) y"
      "transport_stream (fst y) (fst (snd y)) = []"
    using sealed_delivered [OF assms(1,2) _ assms(6,7,3), of "sk\<lparr>sk_input := wire\<rparr>" junk wire "[]"] by auto
  then show ?thesis using w by (cases y) auto
qed

definition example_reader :: "(unit, unit, unit) transport_read_state" where
  "example_reader = transport_read_new_keys (make_transport_read_state (\<lambda>_. 0)) None (Some (shift_cipher (- 7))) None"

theorem transport_packets_delivered_witness:
  "\<exists>wire. seal_packets (\<lambda>_. 0) (Some (shift_cipher 7)) (None :: unit mac_instance option) 0
       [(\<lambda>_. 1, \<lparr>str_length = 2, str_data = [20, 21, 0]\<rparr>), (\<lambda>_. 2, \<lparr>str_length = 1, str_data = [22, 0]\<rparr>)] = Some wire \<and>
     (\<exists>s' sk' buf'. transport_delivers (example_reader, \<lparr>sk_events = [Read_fails EINTR, Read_bytes 2, Read_fails EWOULDBLOCK, Read_bytes 6], sk_input = wire, sk_readable = True\<rparr>,
         lsh_string_alloc (\<lambda>_. 0) 32769) [(0, [20, 21]), (1, [22])] (s', sk', buf') \<and> transport_stream s' sk' = [])"
proof -
  have m: "matching (\<lambda>_ _. True) (Some (shift_cipher 7)) (Some (shift_cipher (- 7)))"
    using shift_cipher_inverse(1) [of 7] shift_cipher_inverse(2) [of "- 7"] by simp
  have sz: "sizes_ok (c_block_size (shift_cipher (- 7))) 0" by (simp add: sizes_ok_def shift_cipher_def)
  have "expecting (\<lambda>_ _. True) example_reader (Some (shift_cipher 7)) None 0"
    using new_keys_expecting [OF make_transport_inv(1) _ m, of "\<lambda>_. 0" None] sz by (simp add: example_reader_def make_transport_inv(3,4))
  moreover have "cipher_ok (Some (shift_cipher 7))" by (simp add: cipher_ok_def shift_cipher_def)
  moreover have "transport_stream example_reader \<lparr>sk_events = [Read_fails EINTR, Read_bytes 2, Read_fails EWOULDBLOCK, Read_bytes 6], sk_input = [], sk_readable = True\<rparr> = []"
    using make_transport_inv(2) [of "\<lambda>_. 0" "\<lparr>sk_events = [], sk_input = [], sk_readable = True\<rparr>"]
    by (simp add: example_reader_def transport_stream_def transport_read_new_keys_def unread_def)
  moreover have "nul_terminated (lsh_string_alloc (\<lambda>_. 0) 32769)" by simp
  moreover have "packets_ok [(\<lambda>_. 1, \<lparr>str_length = 2, str_data = [20, 21, 0]\<rparr>), (\<lambda>_. 2, \<lparr>str_length = 1, str_data = [22, 0]\<rparr>)]"
    by (simp add: packets_ok_def nul_terminated_def contents_def)
  ultimately show ?thesis
    using transport_packets_delivered [of "\<lambda>_ _. True" example_reader "Some (shift_cipher 7)" None 0
      "[(\<lambda>_. 1, \<lparr>str_length = 2, str_data = [20, 21, 0]\<rparr>), (\<lambda>_. 2, \<lparr>str_length = 1, str_data = [22, 0]\<rparr>)]"
      "\<lparr>sk_events = [Read_fails EINTR, Read_bytes 2, Read_fails EWOULDBLOCK, Read_bytes 6], sk_input = [], sk_readable = True\<rparr>" "lsh_string_alloc (\<lambda>_. 0) 32769" "\<lambda>_. 0"]
    by (simp add: contents_def benign_def del: seal_packets.simps)
qed

text \<open>C2 Authentication: a packet whose authentication code differs from the one computed over its decrypted bytes and sequence
  number is reported as a MAC error, and nothing is copied to the caller's buffer.\<close>

theorem wrong_mac_rejected:
  assumes "transport_inv s" "under_way s plain ct tag d' m'"
    and "unread s = slice 5 (unat (block_size_of (t_crypto s)) - 5) plain @ ct @ sent @ rest" "length sent = length tag" "sent \<noteq> tag"
  shows "\<exists>s'. decode_packet s output =
    Some ((SSH_READ_PROTOCOL_ERROR, TR_error SSH_DISCONNECT_MAC_ERROR (Some ''Invalid MAC'')), s', output)"
  using assms by (rule decode_packet_wrong_mac)

definition ones_mac :: "unit mac_instance" where
  "ones_mac = \<lparr>m_size = 8, m_update = \<lambda>_ _. (), m_digest = \<lambda>_. ((), replicate 8 1), m_ctx = ()\<rparr>"

definition example_midway :: "(unit, unit, unit) transport_read_state" where
  "example_midway = (make_transport_read_state (\<lambda>_. 0))\<lparr>r_length := 19, t_mac := Some ones_mac, t_total_length := 19, t_padding := 4\<rparr>"

theorem wrong_mac_rejected_witness:
  "\<exists>s'. decode_packet example_midway \<lparr>str_length = 1, str_data = [9, 0]\<rparr> =
    Some ((SSH_READ_PROTOCOL_ERROR, TR_error SSH_DISCONNECT_MAC_ERROR (Some ''Invalid MAC'')), s', \<lparr>str_length = 1, str_data = [9, 0]\<rparr>)"
proof (rule wrong_mac_rejected)
  let ?z = "\<lambda>n. replicate n 0 :: bytes"
  show "transport_inv example_midway"
    using make_transport_inv(1) [of "\<lambda>_. 0"]
    by (simp add: transport_inv_def example_midway_def make_transport_read_state_def ssh_read_state.defs init_ssh_read_state_def read_inv_def
        sizes_ok_def ones_mac_def mac_laws_def window_ok_def room_def)
  show "under_way example_midway (?z 16) (?z 8) (replicate 8 1) None (Some ones_mac)"
    by (simp add: under_way_def example_midway_def make_transport_read_state_def ssh_read_state.defs init_ssh_read_state_def ones_mac_def)
  show "unread example_midway = slice 5 (unat (block_size_of (t_crypto example_midway)) - 5) (?z 16) @ ?z 8 @ ?z 8 @ []"
    by (simp add: example_midway_def make_transport_read_state_def ssh_read_state.defs init_ssh_read_state_def unread_def window_def slice_def
        lsh_string_alloc_def take_map map_replicate_const replicate_add [symmetric])
qed simp_all

text \<open>C28 Packets near the size of the buffer: before keys are exchanged, the header of an incomplete packet whose length field is between 34001 and 35000 and
  otherwise in order is in the buffer. The header passes the check, but the read ahead that is added to the limit then violates the assertion of
  \<open>ssh_read_some\<close>, so that the process is aborted.\<close>

theorem transport_read_large_aborts:
  assumes "transport_inv s" "t_total_length s = 0" "t_crypto s = None" "t_mac s = None"
    and "unread s = WRITE_UINT32 l @ padding # rest" "3 \<le> length rest" "length (unread s) < unat l + 4"
    and "34001 \<le> unat l" "unat l \<le> 35000" "unat l mod 8 = 4" "4 \<le> padding"
  shows "check_header 8 l padding = None \<and> transport_read_packet s True sk buf = None"
proof -
  have inv: "read_inv s" "str_length (r_buffer s) = 35000" using assms(1) by (simp_all add: transport_inv_def)
  have len: "unat (r_length s) = 5 + length rest" using length_unread [OF inv(1)] assms(5) by simp
  have pad: "unat padding < 256" using unsigned_less [of padding] by simp
  have "unat (l + 4) = unat l + 4" using assms(9) by (simp add: unat_u32_mod)
  then have "unat ((l + 4) mod 8) = 0" using assms(10) by (simp add: unat_mod mod_add_left_eq [of "unat l", symmetric])
  then have "(l + 4) mod 8 = 0" by (simp add: word_unat_eq_iff)
  then have check: "check_header 8 l padding = None"
    using assms(8,9,11) pad by (simp add: check_header_def u32_less u32_le word_less_nat_alt word_le_nat_alt)
  let ?h = "drop (unat (r_start s)) (lsh_string_data (r_buffer s))"
  have "take (5 + length rest) ?h = unread s"
    using inv(1) len window_take [of "r_buffer s" "r_start s" "r_length s" "5 + length rest"] length_unread [OF inv(1)]
    by (simp add: read_inv_def unread_def lsh_string_data_def)
  then obtain us where h: "?h = WRITE_UINT32 l @ padding # rest @ us" using assms(5) by (metis append_Cons append_assoc append_take_drop_id)
  define s1 where "s1 = s\<lparr>t_padding := padding, t_total_length := l - 1, r_start := r_start s + 5, r_length := r_length s - 5\<rparr>"
  have hdr: "READ_UINT32 ?h = l" "?h ! 4 = padding" unfolding h by (simp_all add: nth_append)
  have "\<not> 35000 < l - 1" using assms(8,9) by (simp add: unat_u32_diff u32_less)
  then have "process_header s = Some (None, s1)"
    using inv(2) unfolding process_header_def decrypt_header_def assms(3,4) option.case Let_def bind.simps hdr
    by (simp add: check lsh_string_length_def s1_def assms(4) hdr)
  moreover have "read_first_block s True sk = Some (None, s, True, sk)" "8 \<le> r_length s"
    using assms(3,6) len by (simp_all add: read_first_block_def u32_less u32_le Let_def)
  moreover have "read_rest s1 True sk buf = None"
  proof -
    have "unat (l - 1) = unat l - 1" "unat (r_length s - 5) = length rest" "unat (l - 1 + 1000) = unat l + 999"
      using assms(8,9) len by (simp_all add: unat_u32_diff unat_u32_mod)
    moreover have "length rest < unat l - 1" using assms(5,7) by simp
    ultimately show ?thesis using assms(8) inv(2) by (simp add: read_rest_def ssh_read_some_def lsh_string_length_def s1_def u32_less)
  qed
  ultimately have "transport_read_packet s True sk buf = None" using assms(2,3) by (simp add: transport_read_packet_def)
  then show ?thesis using check by simp
qed

definition example_header :: "nat \<Rightarrow> byte" where
  "example_header i = (WRITE_UINT32 34004 @ [4, 0, 0, 0]) ! (i mod 8)"

theorem transport_read_large_aborts_witness:
  "check_header 8 34004 4 = None \<and>
   transport_read_packet ((make_transport_read_state example_header :: (unit, unit, unit) transport_read_state)\<lparr>r_length := 8\<rparr>)
     True \<lparr>sk_events = [], sk_input = [1], sk_readable = True\<rparr> \<lparr>str_length = 1, str_data = [9, 0]\<rparr> = None"
proof (rule transport_read_large_aborts)
  let ?s = "(make_transport_read_state example_header :: (unit, unit, unit) transport_read_state)\<lparr>r_length := 8\<rparr>"
  show "transport_inv ?s"
    by (simp add: transport_inv_def make_transport_read_state_def ssh_read_state.defs init_ssh_read_state_def read_inv_def
        sizes_ok_def window_ok_def room_def)
  have "take 8 (map example_header [0..<35000]) = map example_header [0..<8]" by (simp add: take_map)
  also have "\<dots> = WRITE_UINT32 34004 @ 4 # [0, 0, 0]" by (simp add: upt_rec example_header_def WRITE_UINT32_def)
  finally show "unread ?s = WRITE_UINT32 34004 @ 4 # [0, 0, 0]"
    by (simp add: make_transport_read_state_def ssh_read_state.defs init_ssh_read_state_def unread_def window_def slice_def lsh_string_alloc_def)
  then show "length (unread ?s) < unat (34004 :: u32) + 4" by simp
qed (simp_all add: make_transport_read_state_def ssh_read_state.defs init_ssh_read_state_def)

end
