(* ===== verification/Transport_Write.thy ===== *)
theory Transport_Write
  imports Ssh_Write Encrypt
begin

text \<open>
  \<open>src/transport_write.c\<close>: the writer of the encrypted side of a connection. Packets are sealed and collected in the output
  buffer until a threshold is reached or the caller pushes them; small pushed packets are followed by an
  \<open>SSH_MSG_IGNORE\<close> packet, so that the amount of data written says less about its contents. The lemmas show which sizes
  are selected, that the size selection ends except for a buffer of ignorable data only, and that the bytes
  sent and buffered are the sealed packets in order.
\<close>

abbreviation (input) TRANSPORT_PADDING_SIZE where "TRANSPORT_PADDING_SIZE \<equiv> 10"
abbreviation (input) TRANSPORT_THRESHOLD where "TRANSPORT_THRESHOLD \<equiv> 500"
abbreviation (input) TRANSPORT_BUFFER_SIZE where "TRANSPORT_BUFFER_SIZE \<equiv> 10 * (SSH_MAX_PACKET + SSH_MAX_PACKET_FUZZ)"

record ('c, 'm, 'z) transport_write_state =
  tw_super :: ssh_write_state
  tw_threshold :: u32
  tw_ignore :: u32
  tw_mac :: "'m mac_instance option"
  tw_crypto :: "'c crypto_instance option"
  tw_deflate :: "'z zlib_instance option"
  tw_seqno :: u32

datatype transport_write_status =
  TRANSPORT_WRITE_IO_ERROR | TRANSPORT_WRITE_OVERFLOW | TRANSPORT_WRITE_COMPLETE | TRANSPORT_WRITE_PENDING

text \<open>Error codes are negative.\<close>

primrec write_failed :: "transport_write_status \<Rightarrow> bool" where
  "write_failed TRANSPORT_WRITE_IO_ERROR = True"
| "write_failed TRANSPORT_WRITE_OVERFLOW = True"
| "write_failed TRANSPORT_WRITE_COMPLETE = False"
| "write_failed TRANSPORT_WRITE_PENDING = False"

record transport_write_flag =
  FLAG_PUSH :: bool
  FLAG_IGNORE :: bool

definition make_transport_write_state :: "(nat \<Rightarrow> byte) \<Rightarrow> ('c, 'm, 'z) transport_write_state" where
  "make_transport_write_state junk =
     \<lparr>tw_super = init_ssh_write_state junk TRANSPORT_BUFFER_SIZE, tw_threshold = TRANSPORT_THRESHOLD, tw_ignore = 0,
      tw_mac = None, tw_crypto = None, tw_deflate = None, tw_seqno = 0\<rparr>"

section \<open>The amount to write\<close>

partial_function (option) select_mask :: "u32 \<Rightarrow> u32 \<Rightarrow> u32 \<Rightarrow> u32 option" where
  "select_mask len no_ignore msk =
     (if len AND push_bit 1 msk \<ge> no_ignore then select_mask len no_ignore (push_bit 1 msk) else Some msk)"

definition select_write_size :: "u32 \<Rightarrow> u32 \<Rightarrow> u32 \<Rightarrow> u32 option" where
  "select_write_size len ignore threshold =
     (if len \<ge> 8 * threshold then Some (8 * threshold)
      else if len \<ge> threshold then Some threshold
      else if ignore \<noteq> 0
      then do { let no_ignore = len - ignore;
                msk \<leftarrow> select_mask len no_ignore (NOT 0);
                Some (len AND msk) }
      else Some len)"

section \<open>Writing\<close>

text \<open>An operation returns its status, the new state, the bytes the system accepted and the results of later system
  calls. \<open>update_status\<close> gets the return value and \<open>errno\<close> of the write.\<close>

definition update_status ::
  "('c, 'm, 'z) transport_write_state \<Rightarrow> u32 \<Rightarrow> errno option \<Rightarrow> (transport_write_status \<times> ('c, 'm, 'z) transport_write_state) option" where
  "update_status self done e =
     (if done > 0
      then if w_length (tw_super self) > tw_ignore self then Some (TRANSPORT_WRITE_PENDING, self)
           else Some (TRANSPORT_WRITE_COMPLETE,
                  if w_length (tw_super self) < tw_ignore self then self\<lparr>tw_ignore := w_length (tw_super self)\<rparr> else self)
      else (case e of
              None \<Rightarrow> None
            | Some e \<Rightarrow>
                Some (if e = EWOULDBLOCK then TRANSPORT_WRITE_PENDING
                      else if e = EOVERFLOW then TRANSPORT_WRITE_OVERFLOW else TRANSPORT_WRITE_IO_ERROR, self)))"

definition enqueue_data ::
  "('c, 'm, 'z) transport_write_state \<Rightarrow> u32 \<Rightarrow> bytes \<Rightarrow> (transport_write_status \<times> ('c, 'm, 'z) transport_write_state) option" where
  "enqueue_data self l d =
     do { (ok, super) \<leftarrow> ssh_write_enqueue (tw_super self) l d;
          Some (if ok then TRANSPORT_WRITE_COMPLETE else TRANSPORT_WRITE_OVERFLOW, self\<lparr>tw_super := super\<rparr>) }"

definition write_data ::
  "('c, 'm, 'z) transport_write_state \<Rightarrow> bool \<Rightarrow> transport_write_flag \<Rightarrow> u32 \<Rightarrow> bytes \<Rightarrow> system_calls \<Rightarrow>
   (transport_write_status \<times> ('c, 'm, 'z) transport_write_state \<times> bytes \<times> system_calls) option" where
  "write_data self fd flags l d ios =
     do { c_assert fd;
          let self = self\<lparr>tw_ignore := if FLAG_IGNORE flags then tw_ignore self + l else 0\<rparr>;
          if \<not> FLAG_PUSH flags \<and> l + w_length (tw_super self) < tw_threshold self
          then do { (st, self) \<leftarrow> enqueue_data self l d; Some (st, self, [], ios) }
          else do {
            to_write \<leftarrow> select_write_size (w_length (tw_super self) + l) (tw_ignore self) (tw_threshold self);
            if to_write = 0
            then do { (st, self) \<leftarrow> enqueue_data self l d; Some (st, self, [], ios) }
            else do {
              r \<leftarrow> ssh_write_data (tw_super self) to_write l d ios;
              (st, self) \<leftarrow> update_status (self\<lparr>tw_super := w_state r\<rparr>) (w_ret r) (w_errno r);
              Some (st, self, w_sent r, w_ios r) } } }"

definition write_flush ::
  "('c, 'm, 'z) transport_write_state \<Rightarrow> system_calls \<Rightarrow>
   (transport_write_status \<times> ('c, 'm, 'z) transport_write_state \<times> bytes \<times> system_calls) option" where
  "write_flush self ios =
     (if w_length (tw_super self) \<le> tw_ignore self then Some (TRANSPORT_WRITE_COMPLETE, self, [], ios)
      else do {
        to_write \<leftarrow> select_write_size (w_length (tw_super self)) (tw_ignore self) (tw_threshold self);
        c_assert (to_write > 0);
        r \<leftarrow> ssh_write_flush (tw_super self) to_write ios;
        (st, self) \<leftarrow> update_status (self\<lparr>tw_super := w_state r\<rparr>) (w_ret r) (w_errno r);
        Some (st, self, w_sent r, w_ios r) })"

text \<open>The random bytes of the calls are \<open>rnd 0\<close>, \<open>rnd 1\<close> and so on.\<close>

definition seal_with ::
  "(nat \<Rightarrow> byte) \<Rightarrow> (nat \<Rightarrow> byte) \<Rightarrow> ('c, 'm, 'z) transport_write_state \<Rightarrow> lsh_string \<Rightarrow> (lsh_string \<times> ('c, 'm, 'z) transport_write_state) option" where
  "seal_with junk rnd self packet =
     do { (packet, z, c, m) \<leftarrow> encrypt_packet junk rnd packet (tw_deflate self) (tw_crypto self) (tw_mac self) (tw_seqno self);
          Some (packet, self\<lparr>tw_deflate := z, tw_crypto := c, tw_mac := m, tw_seqno := tw_seqno self + 1\<rparr>) }"

definition make_ignore_packet ::
  "(nat \<Rightarrow> byte) \<Rightarrow> (nat \<Rightarrow> byte) \<Rightarrow> (nat \<Rightarrow> byte) \<Rightarrow> ('c, 'm, 'z) transport_write_state \<Rightarrow> u32 \<Rightarrow>
   (lsh_string \<times> ('c, 'm, 'z) transport_write_state) option" where
  "make_ignore_packet junk rnd1 rnd2 self l =
     do { (packet, ps) \<leftarrow> ssh_format no_bignum junk ''%c%r'' [Int_arg SSH_MSG_IGNORE, Int_arg l, Pos_arg True];
          packet \<leftarrow> lsh_string_write_random rnd1 packet (ps ! 0) l;
          seal_with junk rnd2 self packet }"

definition transport_write_packet ::
  "(nat \<Rightarrow> byte) \<Rightarrow> (nat \<Rightarrow> nat \<Rightarrow> byte) \<Rightarrow> ('c, 'm, 'z) transport_write_state \<Rightarrow> bool \<Rightarrow> transport_write_flag \<Rightarrow> lsh_string \<Rightarrow> system_calls \<Rightarrow>
   (transport_write_status \<times> ('c, 'm, 'z) transport_write_state \<times> bytes \<times> system_calls) option" where
  "transport_write_packet junk rnd self fd flags packet ios =
     do { c_assert (lsh_string_length packet > 0);
          let flags = (if lsh_string_data packet ! 0 = SSH_MSG_IGNORE then flags\<lparr>FLAG_IGNORE := True\<rparr> else flags);
          (packet, self) \<leftarrow> seal_with junk (rnd 0) self packet;
          if FLAG_PUSH flags \<and> \<not> FLAG_IGNORE flags \<and> tw_crypto self \<noteq> None
             \<and> lsh_string_length packet + w_length (tw_super self) < tw_threshold self
          then do {
            (st, self, sent, ios) \<leftarrow>
              write_data self fd \<lparr>FLAG_PUSH = False, FLAG_IGNORE = False\<rparr> (lsh_string_length packet) (lsh_string_data packet) ios;
            if write_failed st then Some (st, self, sent, ios)
            else do {
              (packet, self) \<leftarrow> make_ignore_packet junk (rnd 1) (rnd 2) self TRANSPORT_PADDING_SIZE;
              (st, self, sent', ios) \<leftarrow>
                write_data self fd (flags\<lparr>FLAG_IGNORE := True\<rparr>) (lsh_string_length packet) (lsh_string_data packet) ios;
              Some (st, self, sent @ sent', ios) } }
          else write_data self fd flags (lsh_string_length packet) (lsh_string_data packet) ios }"

definition transport_write_line ::
  "('c, 'm, 'z) transport_write_state \<Rightarrow> bool \<Rightarrow> lsh_string \<Rightarrow> system_calls \<Rightarrow>
   (transport_write_status \<times> ('c, 'm, 'z) transport_write_state \<times> bytes \<times> system_calls) option" where
  "transport_write_line self fd line ios =
     write_data self fd \<lparr>FLAG_PUSH = True, FLAG_IGNORE = False\<rparr> (lsh_string_length line) (lsh_string_data line) ios"

definition transport_write_flush ::
  "(nat \<Rightarrow> byte) \<Rightarrow> (nat \<Rightarrow> nat \<Rightarrow> byte) \<Rightarrow> ('c, 'm, 'z) transport_write_state \<Rightarrow> bool \<Rightarrow> system_calls \<Rightarrow>
   (transport_write_status \<times> ('c, 'm, 'z) transport_write_state \<times> bytes \<times> system_calls) option" where
  "transport_write_flush junk rnd self fd ios =
     (if tw_ignore self = 0 \<and> tw_crypto self \<noteq> None \<and> w_length (tw_super self) < tw_threshold self
      then do {
        (packet, self) \<leftarrow> make_ignore_packet junk (rnd 0) (rnd 1) self TRANSPORT_PADDING_SIZE;
        (st, self, sent, ios) \<leftarrow>
          write_data self fd \<lparr>FLAG_PUSH = False, FLAG_IGNORE = True\<rparr> (lsh_string_length packet) (lsh_string_data packet) ios;
        if write_failed st then Some (st, self, sent, ios)
        else do { (st, self, sent', ios) \<leftarrow> write_flush self ios; Some (st, self, sent @ sent', ios) } }
      else write_flush self ios)"

definition transport_write_new_keys ::
  "('c, 'm, 'z) transport_write_state \<Rightarrow> 'm mac_instance option \<Rightarrow> 'c crypto_instance option \<Rightarrow> 'z zlib_instance option \<Rightarrow>
   ('c, 'm, 'z) transport_write_state" where
  "transport_write_new_keys self mac crypto deflate = self\<lparr>tw_mac := mac, tw_crypto := crypto, tw_deflate := deflate\<rparr>"

section \<open>The selected size\<close>

definition ones_from :: "nat \<Rightarrow> u32" where
  "ones_from k = push_bit k (- 1)"

lemma ones_from_0: "ones_from 0 = - 1"
  by (simp add: ones_from_def)

lemma ones_from_Suc: "push_bit (Suc 0) (ones_from k) = ones_from (Suc k)"
  by (simp only: ones_from_def push_bit_push_bit) simp

lemma select_mask_step:
  "select_mask len n (ones_from k) =
     (if n \<le> len AND ones_from (Suc k) then select_mask len n (ones_from (Suc k)) else Some (ones_from k))"
  by (subst select_mask.simps) (simp only: ones_from_Suc One_nat_def)

lemma bit_ones_from: "bit (ones_from k) i \<longleftrightarrow> k \<le> i \<and> i < 32"
  by (auto simp: ones_from_def bit_push_bit_iff bit_not_iff bit_mask_iff)

lemma unat_and_mask: "unat (len AND ones_from k) = unat len div 2 ^ k * 2 ^ k"
proof -
  have "len AND ones_from k = push_bit k (drop_bit k len)"
    by (rule bit_eqI) (auto simp: bit_and_iff bit_ones_from bit_push_bit_iff bit_drop_bit_eq)
  moreover have "unat len div 2 ^ k * 2 ^ k < 4294967296"
    using le_less_trans [OF div_times_less_eq_dividend unat_u32_bound] .
  moreover have "unat (push_bit k (drop_bit k len)) = take_bit 32 (unat len div 2 ^ k * 2 ^ k)"
    by (simp only: unsigned_push_bit_eq unsigned_drop_bit_eq push_bit_eq_mult [of k "_ :: nat"] drop_bit_eq_div [of k "_ :: nat"])
      (simp add: take_bit_eq_mod)
  ultimately show ?thesis by (simp add: take_bit_eq_mod)
qed

lemma select_mask_returns:
  assumes "0 < n" "n \<le> len AND ones_from k"
  shows "\<exists>j \<ge> k. select_mask len n (ones_from k) = Some (ones_from j) \<and> n \<le> len AND ones_from j
    \<and> \<not> n \<le> len AND ones_from (Suc j)"
  using assms(2)
proof (induction "32 - k" arbitrary: k rule: less_induct)
  case less
  show ?case
  proof (cases "n \<le> len AND ones_from (Suc k)")
    case False
    then show ?thesis using less.prems by (intro exI [of _ k]) (simp add: select_mask_step)
  next
    case True
    have "k < 32"
    proof (rule ccontr)
      assume "\<not> k < 32"
      then have "ones_from k = 0" by (intro bit_eqI) (simp add: bit_ones_from)
      then show False using less.prems assms(1) by (simp add: word_gt_0)
    qed
    then obtain j where "Suc k \<le> j" "select_mask len n (ones_from (Suc k)) = Some (ones_from j)" "n \<le> len AND ones_from j"
        "\<not> n \<le> len AND ones_from (Suc j)"
      using less.hyps [OF diff_less_mono2 True] by auto
    moreover have "select_mask len n (ones_from k) = select_mask len n (ones_from (Suc k))"
      using True by (subst select_mask_step) simp
    ultimately show ?thesis by (intro exI [of _ j]) simp
  qed
qed

lemma multiple_below:
  fixes n a b :: nat
  assumes "a dvd b"
  shows "n div b * b \<le> n div a * a"
proof -
  obtain c where "b = a * c" using assms by (rule dvdE)
  then have "n div b * b = n div a div c * c * a" by (simp add: div_mult2_eq mult.commute mult.left_commute)
  then show ?thesis by simp
qed

lemma select_write_size_small:
  assumes "len < threshold" "len < 8 * threshold" "0 < ignore" "ignore < len"
  shows "\<exists>k. select_write_size len ignore threshold = Some (len AND ones_from k)
    \<and> len - ignore \<le> len AND ones_from k \<and> (\<forall>j > k. unat len div 2 ^ j * 2 ^ j < unat len - unat ignore)"
proof -
  have "0 < len - ignore" "len - ignore \<le> len" and sub: "unat (len - ignore) = unat len - unat ignore"
    using assms(4) by (auto simp: u32_less u32_le unat_u32_diff)
  then obtain k where k: "select_mask len (len - ignore) (- 1) = Some (ones_from k)" "len - ignore \<le> len AND ones_from k"
      "\<not> len - ignore \<le> len AND ones_from (Suc k)"
    using select_mask_returns [of "len - ignore" len 0] by (auto simp: ones_from_0)
  have "unat len div 2 ^ j * 2 ^ j < unat len - unat ignore" if "k < j" for j
  proof -
    have "(2 :: nat) ^ Suc k dvd 2 ^ j" using that by (simp add: le_imp_power_dvd Suc_leI del: power_Suc)
    then have "unat len div 2 ^ j * 2 ^ j \<le> unat len div 2 ^ Suc k * 2 ^ Suc k" by (rule multiple_below)
    then show ?thesis using k(3) sub by (simp add: u32_le unat_and_mask del: power_Suc)
  qed
  then show ?thesis using assms k by (intro exI [of _ k]) (auto simp: select_write_size_def word_gt_0 dest: leD)
qed

text \<open>With nothing but ignorable data and less than the threshold, the loop does not end.\<close>

lemma select_mask_loops: "select_mask len 0 msk = None"
proof -
  have "n \<noteq> 0" if "select_mask len n msk = Some y" for n y
    by (rule select_mask.raw_induct [where P = "\<lambda>_ n _ _. n \<noteq> 0", OF _ that]) (fastforce split: if_splits)
  then show ?thesis by (cases "select_mask len 0 msk") auto
qed

lemma select_write_size_ok:
  assumes "ignore = 0 \<or> ignore < len \<or> 500 \<le> len"
  shows "\<exists>n. select_write_size len ignore 500 = Some n \<and> n \<le> len \<and> (0 < len \<longrightarrow> 0 < n)"
proof (cases "len < 500 \<and> ignore \<noteq> 0")
  case False
  then show ?thesis by (auto simp: select_write_size_def not_less not_le intro: order.strict_trans1 dest: leD)
next
  case True
  then have "len < 500" "len < 8 * 500" "ignore < len" using assms by (auto simp: u32_less dest: leD)
  moreover have "0 < ignore" using True by (simp add: word_gt_0)
  ultimately obtain k where k: "select_write_size len ignore 500 = Some (len AND ones_from k)" "len - ignore \<le> len AND ones_from k"
    using select_write_size_small by blast
  moreover have "len AND ones_from k \<le> len" by (simp add: u32_le unat_and_mask)
  moreover have "0 < len - ignore" using \<open>ignore < len\<close> by (simp add: u32_less unat_u32_diff)
  ultimately show ?thesis by (auto intro: less_le_trans)
qed

section \<open>The stream of sealed packets\<close>

text \<open>At least \<open>k\<close> of the system calls return without an interruption.\<close>

definition answers :: "nat \<Rightarrow> system_calls \<Rightarrow> bool" where
  "answers k ios \<longleftrightarrow> k \<le> length (filter (\<lambda>f. \<forall>n. f n \<noteq> Fail EINTR) ios)"

lemma retry_answers: "answers (Suc k) ios \<Longrightarrow> \<exists>r rest. retry n ios = Some (r, rest) \<and> answers k rest"
  by (induction ios) (auto simp: answers_def split: if_splits)

definition writer_inv :: "('c, 'm, 'z) transport_write_state \<Rightarrow> bool" where
  "writer_inv s \<longleftrightarrow> write_inv (tw_super s) \<and> str_length (w_buffer (tw_super s)) = TRANSPORT_BUFFER_SIZE \<and> tw_threshold s = TRANSPORT_THRESHOLD
     \<and> tw_ignore s \<le> w_length (tw_super s)"

text \<open>The result of writing \<open>d\<close>: everything is sent or buffered, in order, unless the buffer overflows; the keys are
  not touched, and at most \<open>i\<close> bytes count as ignorable.\<close>

definition written ::
  "nat \<Rightarrow> ('c, 'm, 'z) transport_write_state \<Rightarrow> bytes \<Rightarrow> transport_write_status \<Rightarrow> ('c, 'm, 'z) transport_write_state \<Rightarrow> bytes \<Rightarrow> bool" where
  "written i s d st s' sent \<longleftrightarrow> unat (tw_ignore s') \<le> i \<and>
     tw_mac s' = tw_mac s \<and> tw_crypto s' = tw_crypto s \<and> tw_deflate s' = tw_deflate s \<and> tw_seqno s' = tw_seqno s
     \<and> (st \<noteq> TRANSPORT_WRITE_OVERFLOW \<longrightarrow> writer_inv s' \<and> sent @ pending (tw_super s') = pending (tw_super s) @ d)
     \<and> (\<exists>lost. sent @ pending (tw_super s') @ lost = pending (tw_super s) @ d)"

lemma update_status_ok:
  assumes "done = 0 \<longleftrightarrow> e \<noteq> None"
  shows "\<exists>st i. update_status s done e = Some (st, s\<lparr>tw_ignore := i\<rparr>) \<and> i \<le> tw_ignore s \<and> (0 < done \<longrightarrow> i \<le> w_length (tw_super s))
    \<and> (done = 0 \<longrightarrow> i = tw_ignore s) \<and> (st = TRANSPORT_WRITE_OVERFLOW \<longleftrightarrow> e = Some EOVERFLOW)"
  using assms
  by (intro exI [of _ "fst (the (update_status s done e))"] exI [of _ "if done \<noteq> 0 \<and> w_length (tw_super s) < tw_ignore s then w_length (tw_super s) else tw_ignore s"])
    (auto simp: update_status_def word_gt_0 split: if_splits)

text \<open>A write to the descriptor followed by the update of the status.\<close>

lemma write_then_update:
  assumes inv: "write_inv (tw_super s)" "str_length (w_buffer (tw_super s)) = TRANSPORT_BUFFER_SIZE" "tw_threshold s = TRANSPORT_THRESHOLD"
    and acc: "accounts (tw_super s) d r" and ign: "unat (tw_ignore s) \<le> length (pending (tw_super s) @ d)"
  shows "\<exists>st s'. update_status (s\<lparr>tw_super := w_state r\<rparr>) (w_ret r) (w_errno r) = Some (st, s') \<and> written (unat (tw_ignore s)) s d st s' (w_sent r)"
proof -
  obtain lost where l: "w_sent r @ pending (w_state r) @ lost = pending (tw_super s) @ d" "w_errno r \<noteq> Some EOVERFLOW \<longrightarrow> lost = []"
    and w: "write_inv (w_state r)" "str_length (w_buffer (w_state r)) = str_length (w_buffer (tw_super s))" "w_ret r = 0 \<longleftrightarrow> w_errno r \<noteq> None"
    and none: "w_ret r = 0 \<and> w_errno r \<noteq> Some EOVERFLOW \<longrightarrow> w_sent r = []"
    using acc by (auto simp: accounts_def)
  obtain st i where u: "update_status (s\<lparr>tw_super := w_state r\<rparr>) (w_ret r) (w_errno r) = Some (st, s\<lparr>tw_super := w_state r, tw_ignore := i\<rparr>)"
      "0 < w_ret r \<longrightarrow> i \<le> w_length (w_state r)" "w_ret r = 0 \<longrightarrow> i = tw_ignore s" "st = TRANSPORT_WRITE_OVERFLOW \<longleftrightarrow> w_errno r = Some EOVERFLOW" "i \<le> tw_ignore s"
    using update_status_ok [OF w(3), of "s\<lparr>tw_super := w_state r\<rparr>"] by auto
  have "i \<le> w_length (w_state r)" if "st \<noteq> TRANSPORT_WRITE_OVERFLOW"
  proof (cases "w_ret r = 0")
    case True
    then have "length (pending (w_state r)) = length (pending (tw_super s) @ d)"
      using that u(4) l w(3) none by (metis append_Nil append_Nil2)
    then show ?thesis using True u(3) ign length_pending [OF w(1)] by (simp add: u32_le)
  qed (use u(2) in \<open>simp add: word_gt_0\<close>)
  then show ?thesis using u l w inv by (auto simp: written_def writer_inv_def u32_le)
qed

lemma writer_bound:
  assumes "writer_inv s"
  shows "unat (w_length (tw_super s)) \<le> 350000" "length (pending (tw_super s)) = unat (w_length (tw_super s))"
  using assms length_pending [of "tw_super s"] by (auto simp: writer_inv_def write_inv_def window_ok_def)

lemma enqueue_data_ok:
  assumes inv: "write_inv (tw_super s)" "str_length (w_buffer (tw_super s)) = TRANSPORT_BUFFER_SIZE" "tw_threshold s = TRANSPORT_THRESHOLD"
    and d: "unat l \<le> length d" "unat l + unat (w_length (tw_super s)) < 4294967296"
    and ign: "unat (tw_ignore s) \<le> length (pending (tw_super s) @ take (unat l) d)"
  shows "\<exists>st s'. enqueue_data s l d = Some (st, s') \<and> written (unat (tw_ignore s)) s (take (unat l) d) st s' []"
proof -
  obtain ok s' where e: "ssh_write_enqueue (tw_super s) l d = Some (ok, s')" "write_inv s'" "str_length (w_buffer s') = str_length (w_buffer (tw_super s))"
      "pending s' = pending (tw_super s) @ (if ok then take (unat l) d else [])"
    using ssh_write_enqueue_ok [OF inv(1) d] by blast
  have "tw_ignore s \<le> w_length s'" if ok using ign e(4) that length_pending [OF e(2)] by (simp add: u32_le)
  then show ?thesis using e inv by (cases ok) (auto simp: enqueue_data_def written_def writer_inv_def)
qed

lemma write_data_ok:
  assumes inv: "writer_inv s" and ios: "io_legal ios" "answers (Suc k) ios"
    and d: "unat l \<le> length d" "unat l < 1000000"
    and ok: "FLAG_PUSH flags \<and> FLAG_IGNORE flags \<longrightarrow> tw_ignore s < w_length (tw_super s)"
  shows "\<exists>st s' sent ios'. write_data s True flags l d ios = Some (st, s', sent, ios')
    \<and> written (if FLAG_IGNORE flags then unat (tw_ignore s) + unat l else 0) s (take (unat l) d) st s' sent
    \<and> io_legal ios' \<and> answers k ios'"
proof -
  let ?ws = "tw_super s"
  define s1 where "s1 = s\<lparr>tw_ignore := if FLAG_IGNORE flags then tw_ignore s + l else 0\<rparr>"
  note b = writer_bound [OF inv]
  have w: "write_inv ?ws" "str_length (w_buffer ?ws) = TRANSPORT_BUFFER_SIZE" "tw_threshold s = TRANSPORT_THRESHOLD"
    and ign: "unat (tw_ignore s) \<le> unat (w_length ?ws)"
    using inv by (auto simp: writer_inv_def u32_le)
  have sum: "unat (w_length ?ws + l) = unat (w_length ?ws) + unat l" "unat (tw_ignore s + l) = unat (tw_ignore s) + unat l"
    using b(1) d(2) ign by (auto intro!: unat_u32_add)
  have s1: "tw_super s1 = ?ws" "tw_threshold s1 = 500" "unat (tw_ignore s1) \<le> length (pending ?ws @ take (unat l) d)"
    using w(3) ign b(2) d(1) sum(2) by (simp_all add: s1_def)
  let ?i = "if FLAG_IGNORE flags then unat (tw_ignore s) + unat l else 0"
  have same: "written (unat (tw_ignore s1)) s1 = written ?i s" using sum(2) by (simp add: written_def s1_def fun_eq_iff)
  have w1: "write_inv (tw_super s1)" "str_length (w_buffer (tw_super s1)) = TRANSPORT_BUFFER_SIZE" "tw_threshold s1 = TRANSPORT_THRESHOLD"
    "unat l + unat (w_length (tw_super s1)) < 4294967296" using w s1 b(1) d(2) by simp_all
  have more: "answers k ios" using ios(2) by (simp add: answers_def)
  obtain st1 s2 where enq: "enqueue_data s1 l d = Some (st1, s2)" "written ?i s (take (unat l) d) st1 s2 []"
    using enqueue_data_ok [OF w1(1-3) d(1) w1(4)] s1(1,3) unfolding same by auto
  show ?thesis
  proof (cases "\<not> FLAG_PUSH flags \<and> l + w_length ?ws < 500")
    case True
    then show ?thesis using enq s1 ios(1) more by (auto simp: write_data_def Let_def simp flip: s1_def)
  next
    case False
    have "tw_ignore s1 = 0 \<or> tw_ignore s1 < w_length ?ws + l \<or> 500 \<le> w_length ?ws + l"
      using False ok sum by (auto simp: s1_def u32_less u32_le add.commute)
    then obtain n where n: "select_write_size (w_length ?ws + l) (tw_ignore s1) 500 = Some n" "n \<le> w_length ?ws + l"
      using select_write_size_ok by blast
    show ?thesis
    proof (cases "n = 0")
      case True
      then show ?thesis using False enq n s1 ios(1) more by (auto simp: write_data_def Let_def simp flip: s1_def)
    next
      case pos: False
      have eff: "effective ?ws n l = n" using pos by (simp add: effective_def)
      obtain res rest where r: "retry (unat n) ios = Some (res, rest)" "answers k rest" using retry_answers [OF ios(2)] by blast
      have "io_ok (unat n) res" using retry_ok [OF r(1) ios(1)] pos by (simp add: unat_gt_0)
      then obtain x where x: "ssh_write_data ?ws n l d ios = Some x" "accounts ?ws (take (unat l) d) x"
        using ssh_write_data_accounts [OF w(1) d(1) _ _ _ _, of n ios res rest] w1(4) s1(1) r n(2) pos sum eff
        by (auto simp: unat_gt_0 u32_le)
      have "\<exists>res. retry (unat n) ios = Some (res, w_ios x)" using write_request(1) [OF x(1)] eff by simp
      then have "w_ios x = rest" using r by simp
      moreover obtain st s' where "update_status (s1\<lparr>tw_super := w_state x\<rparr>) (w_ret x) (w_errno x) = Some (st, s')"
          "written ?i s (take (unat l) d) st s' (w_sent x)"
        using write_then_update [OF w1(1-3), of "take (unat l) d" x] x(2) s1(1,3) unfolding same by auto
      ultimately show ?thesis
        using False pos n(1) s1 x(1) r(2) retry_ok [OF r(1) ios(1)]
        by (auto simp: write_data_def Let_def unat_gt_0 simp flip: s1_def)
    qed
  qed
qed

section \<open>Sealed packets\<close>

fun keys_ok :: "'c crypto_instance option \<times> 'm mac_instance option \<times> u32 \<Rightarrow> bool" where
  "keys_ok (e, m, n) \<longleftrightarrow> cipher_ok e \<and> unat (mac_size_of m) \<le> 20 \<and> (\<forall>m'. m = Some m' \<longrightarrow> mac_laws m')"

text \<open>The bytes of a sequence of packets, each given with its random padding, and the keys after it.\<close>

fun wire_stream :: "'c crypto_instance option \<Rightarrow> 'm mac_instance option \<Rightarrow> u32 \<Rightarrow> ((nat \<Rightarrow> byte) \<times> bytes) list \<Rightarrow> bytes" where
  "wire_stream e m n [] = []"
| "wire_stream e m n ((rnd, p) # ps) =
     (let plain = plain_packet (unat (block_size_of e)) rnd p in
      wire_packet e m n rnd p @ wire_stream (fst (crypt_bytes e plain)) (fst (mac_tag m n plain)) (n + 1) ps)"

fun keys_after :: "'c crypto_instance option \<times> 'm mac_instance option \<times> u32 \<Rightarrow> ((nat \<Rightarrow> byte) \<times> bytes) list \<Rightarrow>
    'c crypto_instance option \<times> 'm mac_instance option \<times> u32" where
  "keys_after k [] = k"
| "keys_after (e, m, n) ((rnd, p) # ps) =
     (let plain = plain_packet (unat (block_size_of e)) rnd p in
      keys_after (fst (crypt_bytes e plain), fst (mac_tag m n plain), n + 1) ps)"

abbreviation (input) keys_of :: "('c, 'm, 'z) transport_write_state \<Rightarrow> 'c crypto_instance option \<times> 'm mac_instance option \<times> u32" where
  "keys_of s \<equiv> (tw_crypto s, tw_mac s, tw_seqno s)"

abbreviation (input) wire_of :: "'c crypto_instance option \<times> 'm mac_instance option \<times> u32 \<Rightarrow> ((nat \<Rightarrow> byte) \<times> bytes) list \<Rightarrow> bytes" where
  "wire_of k ps \<equiv> (case k of (e, m, n) \<Rightarrow> wire_stream e m n ps)"

lemma wire_stream_append: "wire_of k (ps @ qs) = wire_of k ps @ wire_of (keys_after k ps) qs"
  by (induction k ps rule: keys_after.induct) (auto simp: Let_def)

lemma keys_after_append: "keys_after k (ps @ qs) = keys_after (keys_after k ps) qs"
  by (induction k ps rule: keys_after.induct) (auto simp: Let_def)

lemma keys_ok_step: "keys_ok (e, m, n) \<Longrightarrow> keys_ok (fst (crypt_bytes e plain), fst (mac_tag m k plain), n')"
  by (cases e; cases m) (simp_all add: cipher_ok_def crypt_bytes_def mac_tag_def mac_laws_def split: prod.splits)

lemma keys_ok_after: "keys_ok k \<Longrightarrow> keys_ok (keys_after k ps)"
proof (induction k ps rule: keys_after.induct)
  case (2 e m n rnd p ps)
  then show ?case using keys_ok_step [OF 2(2)] by (simp only: keys_after.simps Let_def)
qed simp

definition sender_ok :: "('c, 'm, 'z) transport_write_state \<Rightarrow> bool" where
  "sender_ok s \<longleftrightarrow> keys_ok (keys_of s) \<and> tw_deflate s = None"

lemma length_wire_packet:
  assumes "keys_ok (e, m, n)" "length p \<le> 32768" "p \<noteq> []"
  shows "0 < length (wire_packet e m n rnd p)" "length (wire_packet e m n rnd p) < 34000"
proof -
  let ?plain = "plain_packet (unat (block_size_of e)) rnd p"
  have c: "cipher_ok e" "0 < unat (block_size_of e)" "unat (block_size_of e) \<le> 252" using assms(1) by (auto simp: cipher_ok_def)
  have "length (snd (crypt_bytes e ?plain)) = length ?plain"
    using c(1) plain_packet_dvd [OF c(2), of rnd p] by (cases e) (auto simp: crypt_bytes_def cipher_ok_def split: prod.splits dest: arg_cong [where f = snd])
  moreover have "length (snd (mac_tag m n ?plain)) = unat (mac_size_of m)" using assms(1) by (intro length_mac_tag) simp
  moreover have "length ?plain \<le> length p + 260" "length p \<le> length ?plain"
    using length_plain_packet [OF c(2), of rnd p] pad_length_bounds(2) [OF c(2), of "length p"] c(3) by simp_all
  ultimately show "0 < length (wire_packet e m n rnd p)" "length (wire_packet e m n rnd p) < 34000"
    using assms by (auto simp: wire_packet_def Let_def)
qed

text \<open>One packet is sealed.\<close>

lemma seal_with_ok:
  assumes "sender_ok s" "nul_terminated packet" "contents packet = p" "p \<noteq> []" "length p \<le> 32768"
  shows "\<exists>t e' m'. seal_with junk rnd s packet = Some (t, s\<lparr>tw_crypto := e', tw_mac := m', tw_seqno := tw_seqno s + 1\<rparr>) \<and> nul_terminated t
    \<and> contents t = wire_of (keys_of s) [(rnd, p)] \<and> (e', m', tw_seqno s + 1) = keys_after (keys_of s) [(rnd, p)] \<and> keys_ok (e', m', tw_seqno s + 1)
    \<and> 0 < unat (str_length t) \<and> unat (str_length t) < 34000"
proof -
  let ?plain = "plain_packet (unat (block_size_of (tw_crypto s))) rnd p"
  have k: "keys_ok (keys_of s)" "tw_deflate s = None" using assms(1) by (auto simp: sender_ok_def)
  note l = length_wire_packet [OF k(1) assms(5,4), of rnd]
  obtain t where t: "encrypt_packet junk rnd packet (tw_deflate s) (tw_crypto s) (tw_mac s) (tw_seqno s) =
      Some (t, tw_deflate s, fst (crypt_bytes (tw_crypto s) ?plain), fst (mac_tag (tw_mac s) (tw_seqno s) ?plain))"
      "nul_terminated t" "contents t = wire_packet (tw_crypto s) (tw_mac s) (tw_seqno s) rnd p"
    using encrypt_packet_ok [OF assms(2-4), of "tw_mac s" "tw_crypto s" junk rnd "tw_seqno s"] k assms(5) by auto
  have "unat (str_length t) = length (contents t)" using t(2) length_contents [OF t(2)] by simp
  moreover have "s\<lparr>tw_deflate := tw_deflate s\<rparr> = s" by simp
  ultimately show ?thesis
    using t l keys_ok_step [OF k(1), of ?plain "tw_seqno s" "tw_seqno s + 1"]
    by (intro exI [of _ t] exI [of _ "fst (crypt_bytes (tw_crypto s) ?plain)"] exI [of _ "fst (mac_tag (tw_mac s) (tw_seqno s) ?plain)"])
      (simp add: seal_with_def Let_def)
qed

text \<open>The payload of the padding packet: the message number and a string of random bytes.\<close>

definition ignore_payload :: "(nat \<Rightarrow> byte) \<Rightarrow> bytes" where
  "ignore_payload rnd = [SSH_MSG_IGNORE, 0, 0, 0, 10] @ map rnd [0..<10]"

lemma make_ignore_packet_ok:
  assumes "sender_ok s"
  shows "\<exists>t e' m'. make_ignore_packet junk rnd1 rnd2 s 10 = Some (t, s\<lparr>tw_crypto := e', tw_mac := m', tw_seqno := tw_seqno s + 1\<rparr>)
    \<and> nul_terminated t \<and> contents t = wire_of (keys_of s) [(rnd2, ignore_payload rnd1)]
    \<and> (e', m', tw_seqno s + 1) = keys_after (keys_of s) [(rnd2, ignore_payload rnd1)] \<and> keys_ok (e', m', tw_seqno s + 1)
    \<and> 0 < unat (str_length t) \<and> unat (str_length t) < 34000"
proof -
  let ?args = "[Int_arg SSH_MSG_IGNORE, Int_arg 10, Pos_arg True]"
  have r: "render no_bignum junk ''%c%r'' ?args = Some ([2, 0, 0, 0, 10] @ map (\<lambda>i. junk (5 + i)) [0..<10])"
    by (simp add: render_simps WRITE_UINT32_def)
  have pos: "render_positions no_bignum junk (scan_format ''%c%r'') 0 ?args = [5]"
    by (simp add: conv_positions_def render_simps)
  let ?hole = "map (\<lambda>i. junk (5 + i)) [0..<10]"
  obtain t where t: "ssh_format no_bignum junk ''%c%r'' ?args = Some (t, [5])" "nul_terminated t" "contents t = [2, 0, 0, 0, 10] @ ?hole"
      "str_length t = of_nat (length ([2, 0, 0, 0, 10] @ ?hole))"
    using ssh_format_holes [OF r] pos by auto
  let ?t = "t\<lparr>str_data := overwrite 5 (map rnd1 [0..<10]) (str_data t)\<rparr>"
  have len: "unat (str_length t) = 15" using t(4) by simp
  have ok: "nul_terminated ?t" "contents ?t = overwrite 5 (map rnd1 [0..<10]) (contents t)"
    using t(2) len by (intro nul_terminated_overwrite contents_overwrite; simp)+
  have "lsh_string_write_random rnd1 t 5 10 = Some ?t" using t(2) len by (simp add: lsh_string_write_random_eq room_def)
  moreover have "contents ?t = ignore_payload rnd1" unfolding ok(2) t(3) by (simp add: overwrite_def ignore_payload_def)
  ultimately show ?thesis
    using seal_with_ok [OF assms ok(1), of "ignore_payload rnd1" junk rnd2] t(1) by (simp add: make_ignore_packet_def ignore_payload_def)
qed

text \<open>How many bytes at the end of the stream may be ignorable: those of the last packets if these are
  \<open>SSH_MSG_IGNORE\<close> messages, and \<open>i\<close> bytes before if all are.\<close>

fun ignorable :: "nat \<Rightarrow> 'c crypto_instance option \<times> 'm mac_instance option \<times> u32 \<Rightarrow> ((nat \<Rightarrow> byte) \<times> bytes) list \<Rightarrow> nat" where
  "ignorable i k [] = i"
| "ignorable i k (x # ps) = ignorable (if hd (snd x) = SSH_MSG_IGNORE then i + length (wire_of k [x]) else 0) (keys_after k [x]) ps"

lemma ignorable_mono: "i \<le> j \<Longrightarrow> ignorable i k ps \<le> ignorable j k ps"
  by (induction ps arbitrary: i j k) auto

lemma keys_after_Cons: "keys_after k (x # ps) = keys_after (keys_after k [x]) ps"
  using keys_after_append [where k = k and ps = "[x]" and qs = ps] by simp

lemma wire_of_Cons: "wire_of k (x # ps) = wire_of k [x] @ wire_of (keys_after k [x]) ps"
  using wire_stream_append [where k = k and ps = "[x]" and qs = ps] by simp

lemma ignorable_append: "ignorable i k (ps @ qs) = ignorable (ignorable i k ps) (keys_after k ps) qs"
proof (induction ps arbitrary: i k)
  case (Cons x ps)
  then show ?case using keys_after_Cons [where k = k and x = x and ps = ps] by simp
qed simp

lemma ignorable_tail:
  "\<exists>ps1 ps2. ps = ps1 @ ps2 \<and> (\<forall>p \<in> snd ` set ps2. hd p = SSH_MSG_IGNORE)
    \<and> ignorable i k ps \<le> (if ps1 = [] then i else 0) + length (wire_of (keys_after k ps1) ps2)"
proof (induction ps arbitrary: i k)
  case (Cons x ps)
  let ?i = "if hd (snd x) = SSH_MSG_IGNORE then i + length (wire_of k [x]) else 0"
  obtain ps1 ps2 where ih: "ps = ps1 @ ps2" "\<forall>p \<in> snd ` set ps2. hd p = SSH_MSG_IGNORE"
      "ignorable ?i (keys_after k [x]) ps \<le> (if ps1 = [] then ?i else 0) + length (wire_of (keys_after (keys_after k [x]) ps1) ps2)"
    using Cons by blast
  show ?case
  proof (cases "ps1 = [] \<and> hd (snd x) = SSH_MSG_IGNORE")
    case True
    then show ?thesis using ih wire_of_Cons [where k = k and x = x and ps = ps2] by (intro exI [of _ "[]"] exI [of _ "x # ps2"]) auto
  next
    case False
    then show ?thesis using ih keys_after_Cons [where k = k and x = x and ps = ps1] by (intro exI [of _ "x # ps1"] exI [of _ ps2]) (auto split: if_splits)
  qed
qed simp

text \<open>The writer with its keys, after the packets \<open>ps\<close>: everything given is sent or buffered.\<close>

definition carried ::
  "('c, 'm, 'z) transport_write_state \<Rightarrow> ((nat \<Rightarrow> byte) \<times> bytes) list \<Rightarrow> ('c, 'm, 'z) transport_write_state \<Rightarrow> bytes \<Rightarrow> bool" where
  "carried s ps s' sent \<longleftrightarrow> writer_inv s' \<and> sender_ok s' \<and> keys_of s' = keys_after (keys_of s) ps
     \<and> sent @ pending (tw_super s') = pending (tw_super s) @ wire_of (keys_of s) ps
     \<and> unat (tw_ignore s') \<le> ignorable (unat (tw_ignore s)) (keys_of s) ps"

lemma carried_trans:
  assumes "carried s ps s1 sent1" "carried s1 qs s2 sent2"
  shows "carried s (ps @ qs) s2 (sent1 @ sent2)"
  using assms wire_stream_append [where k = "keys_of s" and ps = ps and qs = qs] keys_after_append [where k = "keys_of s" and ps = ps and qs = qs]
    ignorable_append [of "unat (tw_ignore s)" "keys_of s" ps qs]
    ignorable_mono [of "unat (tw_ignore s1)" "ignorable (unat (tw_ignore s)) (keys_of s) ps" "keys_of s1" qs]
  by (simp add: carried_def)

text \<open>A sealed packet is written.\<close>

lemma write_sealed:
  assumes inv: "writer_inv s" "keys_ok (e', m', tw_seqno s + 1)" "tw_deflate s = None" and ios: "io_legal ios" "answers (Suc k) ios"
    and t: "nul_terminated t" "contents t = wire_of (keys_of s) [x]" "(e', m', tw_seqno s + 1) = keys_after (keys_of s) [x]" "unat (str_length t) < 34000"
    and ok: "FLAG_PUSH flags \<and> FLAG_IGNORE flags \<longrightarrow> tw_ignore s < w_length (tw_super s)" "FLAG_IGNORE flags \<longleftrightarrow> hd (snd x) = SSH_MSG_IGNORE"
  defines "s1 \<equiv> s\<lparr>tw_crypto := e', tw_mac := m', tw_seqno := tw_seqno s + 1\<rparr>"
  shows "\<exists>st s' sent ios'. write_data s1 True flags (str_length t) (str_data t) ios = Some (st, s', sent, ios')
    \<and> (st \<noteq> TRANSPORT_WRITE_OVERFLOW \<longrightarrow> carried s [x] s' sent) \<and> io_legal ios' \<and> answers k ios'"
proof -
  have s1: "writer_inv s1" "tw_ignore s1 = tw_ignore s" "tw_super s1 = tw_super s" using inv(1) by (simp_all add: s1_def writer_inv_def)
  have len: "unat (str_length t) \<le> length (str_data t)" "take (unat (str_length t)) (str_data t) = contents t"
    using t(1) by (simp_all add: nul_terminated_def contents_def)
  have lt: "unat (str_length t) < 1000000" and ok1: "FLAG_PUSH flags \<and> FLAG_IGNORE flags \<longrightarrow> tw_ignore s1 < w_length (tw_super s1)"
    using t(4) ok(1) s1 by simp_all
  obtain st s' sent ios' where w: "write_data s1 True flags (str_length t) (str_data t) ios = Some (st, s', sent, ios')"
      "written (if FLAG_IGNORE flags then unat (tw_ignore s) + unat (str_length t) else 0) s1 (contents t) st s' sent" "io_legal ios'" "answers k ios'"
    using write_data_ok [OF s1(1) ios len(1) lt ok1, unfolded s1(2) len(2)] by blast
  moreover have "carried s [x] s' sent" if "st \<noteq> TRANSPORT_WRITE_OVERFLOW"
  proof -
    have "keys_of s' = keys_after (keys_of s) [x]" "keys_ok (keys_of s')" "tw_deflate s' = None"
      using w(2) t(3) inv(2,3) by (simp_all add: written_def s1_def)
    moreover have "writer_inv s'" "sent @ pending (tw_super s') = pending (tw_super s) @ contents t"
      using w(2) that s1(3) by (auto simp: written_def)
    moreover have "unat (tw_ignore s') \<le> ignorable (unat (tw_ignore s)) (keys_of s) [x]"
      using w(2) ok(2) t(2) length_contents [OF t(1)] by (auto simp: written_def split: if_splits)
    ultimately show ?thesis using t(2) by (simp add: carried_def sender_ok_def)
  qed
  ultimately show ?thesis by blast
qed

lemma collected_not_ignored:
  assumes "write_data s True \<lparr>FLAG_PUSH = False, FLAG_IGNORE = False\<rparr> l d ios = Some (st, s', sent, ios')" "l + w_length (tw_super s) < tw_threshold s"
  shows "tw_ignore s' = 0" "sent = []"
  using assms by (auto simp: write_data_def enqueue_data_def Let_def bind_eq_Some_conv)

lemma padding_packet_written:
  assumes "writer_inv s" "sender_ok s" "io_legal ios" "answers (Suc k) ios"
    and "FLAG_PUSH flags \<longrightarrow> tw_ignore s < w_length (tw_super s)" "FLAG_IGNORE flags"
  shows "\<exists>t s1 st s' sent ios'. make_ignore_packet junk rnd1 rnd2 s 10 = Some (t, s1)
    \<and> write_data s1 True flags (str_length t) (str_data t) ios = Some (st, s', sent, ios')
    \<and> (st \<noteq> TRANSPORT_WRITE_OVERFLOW \<longrightarrow> carried s [(rnd2, ignore_payload rnd1)] s' sent) \<and> io_legal ios' \<and> answers k ios'"
proof -
  obtain t e' m' where t: "make_ignore_packet junk rnd1 rnd2 s 10 = Some (t, s\<lparr>tw_crypto := e', tw_mac := m', tw_seqno := tw_seqno s + 1\<rparr>)"
      "nul_terminated t" "contents t = wire_of (keys_of s) [(rnd2, ignore_payload rnd1)]"
      "(e', m', tw_seqno s + 1) = keys_after (keys_of s) [(rnd2, ignore_payload rnd1)]" "keys_ok (e', m', tw_seqno s + 1)"
      "unat (str_length t) < 34000"
    using make_ignore_packet_ok [OF assms(2), of junk rnd1 rnd2] by blast
  have "tw_deflate s = None" using assms(2) by (simp add: sender_ok_def)
  moreover have "hd (snd (rnd2, ignore_payload rnd1)) = SSH_MSG_IGNORE" by (simp add: ignore_payload_def)
  ultimately show ?thesis using write_sealed [OF assms(1) t(5) _ assms(3,4) t(2-4) t(6), of flags] assms(5,6) t(1) by blast
qed

lemma transport_write_packet_ok:
  assumes inv: "writer_inv s" "sender_ok s" and ios: "io_legal ios" "answers (Suc (Suc k)) ios"
    and p: "nul_terminated packet" "contents packet = p" "p \<noteq> []" "length p \<le> 32768"
    and ok: "FLAG_PUSH flags \<and> hd p = SSH_MSG_IGNORE \<longrightarrow> tw_ignore s < w_length (tw_super s)" "\<not> FLAG_IGNORE flags"
  shows "\<exists>st s' sent ios' ps. transport_write_packet junk rnd s True flags packet ios = Some (st, s', sent, ios')
    \<and> (ps = [(rnd 0, p)] \<or> ps = [(rnd 0, p), (rnd 2, ignore_payload (rnd 1))])
    \<and> (st \<noteq> TRANSPORT_WRITE_OVERFLOW \<longrightarrow> carried s ps s' sent) \<and> io_legal ios' \<and> answers k ios'"
proof -
  have len: "0 < str_length packet" and hd: "str_data packet ! 0 = hd p"
    using p by (auto simp: nul_terminated_def contents_def u32_less hd_conv_nth)
  define fl where "fl = (if hd p = SSH_MSG_IGNORE then flags\<lparr>FLAG_IGNORE := True\<rparr> else flags)"
  have fl: "FLAG_IGNORE fl \<longleftrightarrow> hd p = SSH_MSG_IGNORE" "FLAG_PUSH fl \<and> FLAG_IGNORE fl \<longrightarrow> tw_ignore s < w_length (tw_super s)"
    using ok by (auto simp: fl_def)
  have defl: "tw_deflate s = None" using inv(2) by (simp add: sender_ok_def)
  obtain t e' m' where t: "seal_with junk (rnd 0) s packet = Some (t, s\<lparr>tw_crypto := e', tw_mac := m', tw_seqno := tw_seqno s + 1\<rparr>)"
      "nul_terminated t" "contents t = wire_of (keys_of s) [(rnd 0, p)]" "(e', m', tw_seqno s + 1) = keys_after (keys_of s) [(rnd 0, p)]"
      "keys_ok (e', m', tw_seqno s + 1)" "0 < unat (str_length t)" "unat (str_length t) < 34000"
    using seal_with_ok [OF inv(2) p, of junk "rnd 0"] by blast
  define s1 where "s1 = s\<lparr>tw_crypto := e', tw_mac := m', tw_seqno := tw_seqno s + 1\<rparr>"
  note w = write_sealed [OF inv(1) t(5) defl ios t(2-4) t(7), folded s1_def]
  let ?small = "FLAG_PUSH fl \<and> \<not> FLAG_IGNORE fl \<and> tw_crypto s1 \<noteq> None \<and> str_length t + w_length (tw_super s1) < tw_threshold s1"
  show ?thesis
  proof (cases ?small)
    case False
    obtain st s' sent ios' where "write_data s1 True fl (str_length t) (str_data t) ios = Some (st, s', sent, ios')"
        "st \<noteq> TRANSPORT_WRITE_OVERFLOW \<longrightarrow> carried s [(rnd 0, p)] s' sent" "io_legal ios'" "answers (Suc k) ios'"
      using w [of fl] fl by auto
    moreover have "answers k ios'" using \<open>answers (Suc k) ios'\<close> by (simp add: answers_def)
    ultimately show ?thesis
      using False t(1) len hd
      by (intro exI [of _ st] exI [of _ s'] exI [of _ sent] exI [of _ ios'] exI [of _ "[(rnd 0, p)]"])
        (auto simp: transport_write_packet_def lsh_string_length_def lsh_string_data_def simp flip: s1_def fl_def)
  next
    case True
    let ?no = "\<lparr>FLAG_PUSH = False, FLAG_IGNORE = False\<rparr>"
    obtain st s2 sent ios' where w1: "write_data s1 True ?no (str_length t) (str_data t) ios = Some (st, s2, sent, ios')"
        "st \<noteq> TRANSPORT_WRITE_OVERFLOW \<longrightarrow> carried s [(rnd 0, p)] s2 sent" "io_legal ios'" "answers (Suc k) ios'"
      using w [of ?no] True fl(1) by auto
    have z: "tw_ignore s2 = 0" "sent = []" using collected_not_ignored [OF w1(1)] True by auto
    show ?thesis
    proof (cases "write_failed st")
      case failed: True
      then show ?thesis
        using True t(1) len hd w1 by (intro exI [of _ st] exI [of _ s2] exI [of _ sent] exI [of _ ios'] exI [of _ "[(rnd 0, p)]"])
          (simp add: transport_write_packet_def lsh_string_length_def lsh_string_data_def answers_def flip: s1_def fl_def)
    next
      case False
      then have c: "carried s [(rnd 0, p)] s2 sent" using w1(2) by auto
      then have i2: "writer_inv s2" "sender_ok s2" by (auto simp: carried_def)
      have "length (pending (tw_super s2)) \<ge> length (contents t)" using c t(3) z(2) by (simp add: carried_def)
      then have "tw_ignore s2 < w_length (tw_super s2)"
        using z(1) t(2,6) writer_bound(2) [OF i2(1)] length_contents [OF t(2)] by (simp add: u32_less)
      moreover have "FLAG_IGNORE (fl\<lparr>FLAG_IGNORE := True\<rparr>)" by simp
      ultimately obtain t' s3 st' s' sent' ios'' where q: "make_ignore_packet junk (rnd 1) (rnd 2) s2 10 = Some (t', s3)"
          "write_data s3 True (fl\<lparr>FLAG_IGNORE := True\<rparr>) (str_length t') (str_data t') ios' = Some (st', s', sent', ios'')"
          "st' \<noteq> TRANSPORT_WRITE_OVERFLOW \<longrightarrow> carried s2 [(rnd 2, ignore_payload (rnd 1))] s' sent'" "io_legal ios''" "answers k ios''"
        using padding_packet_written [OF i2 w1(3,4), of "fl\<lparr>FLAG_IGNORE := True\<rparr>" junk "rnd 1" "rnd 2"] by blast
      have "st' \<noteq> TRANSPORT_WRITE_OVERFLOW \<longrightarrow> carried s [(rnd 0, p), (rnd 2, ignore_payload (rnd 1))] s' (sent @ sent')"
        using q(3) carried_trans [OF c] by fastforce
      then show ?thesis
        using True False t(1) len hd w1(1) q
        by (intro exI [of _ st'] exI [of _ s'] exI [of _ "sent @ sent'"] exI [of _ ios''] exI [of _ "[(rnd 0, p), (rnd 2, ignore_payload (rnd 1))]"])
          (simp add: transport_write_packet_def lsh_string_length_def lsh_string_data_def flip: s1_def fl_def)
    qed
  qed
qed

lemma write_flush_ok:
  assumes inv: "writer_inv s" "sender_ok s" and ios: "io_legal ios" "answers (Suc k) ios"
  shows "\<exists>st s' sent ios'. write_flush s ios = Some (st, s', sent, ios') \<and> (st \<noteq> TRANSPORT_WRITE_OVERFLOW \<longrightarrow> carried s [] s' sent)
    \<and> (st = TRANSPORT_WRITE_COMPLETE \<longrightarrow> w_length (tw_super s') \<le> tw_ignore s') \<and> io_legal ios' \<and> answers k ios'"
proof (cases "w_length (tw_super s) \<le> tw_ignore s")
  case True
  then show ?thesis using inv ios by (auto simp: write_flush_def carried_def answers_def)
next
  case False
  let ?ws = "tw_super s"
  have w: "write_inv ?ws" "str_length (w_buffer ?ws) = TRANSPORT_BUFFER_SIZE" "tw_threshold s = TRANSPORT_THRESHOLD"
    and ign: "unat (tw_ignore s) \<le> length (pending ?ws @ [])" and pos: "0 < w_length ?ws"
    using inv(1) False writer_bound(2) [OF inv(1)] by (auto simp: writer_inv_def u32_le u32_less)
  obtain n where n: "select_write_size (w_length ?ws) (tw_ignore s) 500 = Some n" "n \<le> w_length ?ws" "0 < n"
    using select_write_size_ok [of "tw_ignore s" "w_length ?ws"] False [unfolded not_le] pos by auto
  have eff: "effective ?ws n 0 = n" using n(3) by (auto simp: effective_def)
  obtain res rest where r: "retry (unat n) ios = Some (res, rest)" "answers k rest" using retry_answers [OF ios(2)] by blast
  have io: "io_ok (unat n) res" "io_legal rest" using retry_ok [OF r(1) ios(1)] n(3) by (simp_all add: u32_less)
  then obtain x where x: "ssh_write_flush ?ws n ios = Some x" "accounts ?ws [] x"
    using ssh_write_flush_accounts [OF w(1), of n ios res rest] r(1) n eff by (auto simp: u32_less u32_le)
  have "\<exists>res. retry (unat n) ios = Some (res, w_ios x)" using write_request(2) [OF x(1)] eff by simp
  then have rest: "w_ios x = rest" using r by simp
  obtain st s' where u: "update_status (s\<lparr>tw_super := w_state x\<rparr>) (w_ret x) (w_errno x) = Some (st, s')" "written (unat (tw_ignore s)) s [] st s' (w_sent x)"
    using write_then_update [OF w x(2) ign] by blast
  have "st = TRANSPORT_WRITE_COMPLETE \<longrightarrow> w_length (tw_super s') \<le> tw_ignore s'"
    using u(1) by (auto simp: update_status_def split: if_splits option.splits)
  moreover have "st \<noteq> TRANSPORT_WRITE_OVERFLOW \<longrightarrow> carried s [] s' (w_sent x)"
    using u(2) inv(2) by (auto simp: written_def carried_def sender_ok_def)
  ultimately show ?thesis
    using False n(1,3) w(3) x(1) u(1) rest r(2) io(2)
    by (intro exI [of _ st] exI [of _ s'] exI [of _ "w_sent x"] exI [of _ rest]) (simp add: write_flush_def)
qed

lemma transport_write_flush_ok:
  assumes inv: "writer_inv s" "sender_ok s" and ios: "io_legal ios" "answers (Suc (Suc k)) ios"
  shows "\<exists>st s' sent ios' ps. transport_write_flush junk rnd s True ios = Some (st, s', sent, ios')
    \<and> (ps = [] \<or> ps = [(rnd 1, ignore_payload (rnd 0))]) \<and> (st \<noteq> TRANSPORT_WRITE_OVERFLOW \<longrightarrow> carried s ps s' sent)
    \<and> (st = TRANSPORT_WRITE_COMPLETE \<longrightarrow> w_length (tw_super s') \<le> tw_ignore s') \<and> io_legal ios'"
proof (cases "tw_ignore s = 0 \<and> tw_crypto s \<noteq> None \<and> w_length (tw_super s) < tw_threshold s")
  case False
  then have "transport_write_flush junk rnd s True ios = write_flush s ios" by (auto simp: transport_write_flush_def)
  then show ?thesis using write_flush_ok [OF inv ios] by fastforce
next
  case True
  let ?fl = "\<lparr>FLAG_PUSH = False, FLAG_IGNORE = True\<rparr>" and ?ps = "[(rnd 1, ignore_payload (rnd 0))]"
  have "FLAG_PUSH ?fl \<longrightarrow> tw_ignore s < w_length (tw_super s)" "FLAG_IGNORE ?fl" by simp_all
  then obtain t s1 st s2 sent ios1 where q: "make_ignore_packet junk (rnd 0) (rnd 1) s 10 = Some (t, s1)"
      "write_data s1 True ?fl (str_length t) (str_data t) ios = Some (st, s2, sent, ios1)"
      "st \<noteq> TRANSPORT_WRITE_OVERFLOW \<longrightarrow> carried s ?ps s2 sent" "io_legal ios1" "answers (Suc k) ios1"
    using padding_packet_written [OF inv ios, of ?fl junk "rnd 0" "rnd 1"] by blast
  show ?thesis
  proof (cases "write_failed st")
    case failed: True
    then have "transport_write_flush junk rnd s True ios = Some (st, s2, sent, ios1)"
      using True q(1,2) by (simp add: transport_write_flush_def lsh_string_length_def lsh_string_data_def)
    then show ?thesis using q(3,4) failed by (intro exI [of _ st] exI [of _ s2] exI [of _ sent] exI [of _ ios1] exI [of _ ?ps]) auto
  next
    case ok: False
    then have c: "carried s ?ps s2 sent" using q(3) by auto
    then have i2: "writer_inv s2" "sender_ok s2" by (auto simp: carried_def)
    obtain st' s' sent' ios' where f: "write_flush s2 ios1 = Some (st', s', sent', ios')" "st' \<noteq> TRANSPORT_WRITE_OVERFLOW \<longrightarrow> carried s2 [] s' sent'"
        "st' = TRANSPORT_WRITE_COMPLETE \<longrightarrow> w_length (tw_super s') \<le> tw_ignore s'" "io_legal ios'"
      using write_flush_ok [OF i2 q(4,5)] by blast
    have "transport_write_flush junk rnd s True ios = Some (st', s', sent @ sent', ios')"
      using True ok q(1,2) f(1) by (simp add: transport_write_flush_def lsh_string_length_def lsh_string_data_def)
    moreover have "st' \<noteq> TRANSPORT_WRITE_OVERFLOW \<longrightarrow> carried s ?ps s' (sent @ sent')" using f(2) carried_trans [OF c] by fastforce
    ultimately show ?thesis
      using f(3,4) by (intro exI [of _ st'] exI [of _ s'] exI [of _ "sent @ sent'"] exI [of _ ios'] exI [of _ ?ps]) auto
  qed
qed

text \<open>A run of the writer with unchanged keys. The state is the writer, the payloads given to it and the bytes the system
  accepted. A run ends with an overflow. An \<open>SSH_MSG_IGNORE\<close> message is not pushed while there is nothing
  else to send.\<close>

inductive writer_step ::
  "('c, 'm, 'z) transport_write_state \<times> bytes list \<times> bytes \<Rightarrow> ('c, 'm, 'z) transport_write_state \<times> bytes list \<times> bytes \<Rightarrow> bool" where
  packet: "\<lbrakk>transport_write_packet junk rnd s True flags packet ios = Some (st, s', out, ios'); st \<noteq> TRANSPORT_WRITE_OVERFLOW;
      io_legal ios; answers 2 ios; nul_terminated packet; contents packet \<noteq> []; length (contents packet) \<le> 32768;
      FLAG_PUSH flags \<and> hd (contents packet) = SSH_MSG_IGNORE \<longrightarrow> tw_ignore s < w_length (tw_super s); \<not> FLAG_IGNORE flags\<rbrakk>
    \<Longrightarrow> writer_step (s, given, sent) (s', given @ [contents packet], sent @ out)"
| flush: "\<lbrakk>transport_write_flush junk rnd s True ios = Some (st, s', out, ios'); st \<noteq> TRANSPORT_WRITE_OVERFLOW; io_legal ios; answers 2 ios\<rbrakk>
    \<Longrightarrow> writer_step (s, given, sent) (s', given, sent @ out)"

definition messages :: "bytes list \<Rightarrow> bytes list" where
  "messages ps = filter (\<lambda>p. hd p \<noteq> SSH_MSG_IGNORE) ps"

definition run_inv ::
  "'c crypto_instance option \<times> 'm mac_instance option \<times> u32 \<Rightarrow> ('c, 'm, 'z) transport_write_state \<times> bytes list \<times> bytes \<Rightarrow> bool" where
  "run_inv k = (\<lambda>(s, given, sent). writer_inv s \<and> sender_ok s \<and>
     (\<exists>ps. keys_of s = keys_after k ps \<and> sent @ pending (tw_super s) = wire_of k ps \<and> messages (map snd ps) = messages given
        \<and> (\<forall>p \<in> snd ` set ps. p \<noteq> [] \<and> length p \<le> 32768) \<and> unat (tw_ignore s) \<le> ignorable 0 k ps))"

lemma run_inv_carried:
  assumes "run_inv k (s, given, sent)" "carried s qs s' out" "messages (map snd qs) = messages new" "\<forall>p \<in> snd ` set qs. p \<noteq> [] \<and> length p \<le> 32768"
  shows "run_inv k (s', given @ new, sent @ out)"
proof -
  obtain ps where ps: "keys_of s = keys_after k ps" "sent @ pending (tw_super s) = wire_of k ps" "messages (map snd ps) = messages given"
      "\<forall>p \<in> snd ` set ps. p \<noteq> [] \<and> length p \<le> 32768" "unat (tw_ignore s) \<le> ignorable 0 k ps"
    using assms(1) by (auto simp: run_inv_def)
  have c: "writer_inv s'" "sender_ok s'" "keys_of s' = keys_after (keys_of s) qs" "out @ pending (tw_super s') = pending (tw_super s) @ wire_of (keys_of s) qs"
      "unat (tw_ignore s') \<le> ignorable (unat (tw_ignore s)) (keys_of s) qs"
    using assms(2) by (auto simp: carried_def)
  have "keys_of s' = keys_after k (ps @ qs)" using c(3) ps(1) by (simp add: keys_after_append)
  moreover have "(sent @ out) @ pending (tw_super s') = wire_of k (ps @ qs)"
    using c(4) ps(1,2) by (simp add: wire_stream_append)
  moreover have "messages (map snd (ps @ qs)) = messages (given @ new)" using ps(3) assms(3) by (simp add: messages_def)
  moreover have "\<forall>p \<in> snd ` set (ps @ qs). p \<noteq> [] \<and> length p \<le> 32768" using ps(4) assms(4) by auto
  moreover have "unat (tw_ignore s') \<le> ignorable 0 k (ps @ qs)"
    using c(5) ps(1) ignorable_mono [OF ps(5), of "keys_of s" qs] by (simp add: ignorable_append)
  ultimately show ?thesis using c(1,2) unfolding run_inv_def prod.case by blast
qed

lemma ignore_payload_facts: "hd (ignore_payload rnd) = SSH_MSG_IGNORE" "ignore_payload rnd \<noteq> []" "length (ignore_payload rnd) = 15"
  by (simp_all add: ignore_payload_def)

lemma writer_step_inv: "writer_step x y \<Longrightarrow> run_inv k x \<Longrightarrow> run_inv k y"
proof (induction rule: writer_step.induct)
  case (packet junk rnd s flags packet ios st s' out ios' given sent)
  have inv: "writer_inv s" "sender_ok s" using packet.prems by (auto simp: run_inv_def)
  have "answers (Suc (Suc 0)) ios" using packet.hyps(4) by (simp add: numeral_2_eq_2)
  from transport_write_packet_ok [OF inv packet.hyps(3) this packet.hyps(5) refl packet.hyps(6-9), of junk rnd] packet.hyps(1,2)
  obtain ps where ps: "ps = [(rnd 0, contents packet)] \<or> ps = [(rnd 0, contents packet), (rnd 2, ignore_payload (rnd 1))]" "carried s ps s' out"
    by auto
  then show ?case
    using packet.hyps(6,7) ignore_payload_facts [of "rnd 1"] by (intro run_inv_carried [OF packet.prems ps(2)]) (auto simp: messages_def)
next
  case (flush junk rnd s ios st s' out ios' given sent)
  have inv: "writer_inv s" "sender_ok s" using flush.prems by (auto simp: run_inv_def)
  have "answers (Suc (Suc 0)) ios" using flush.hyps(4) by (simp add: numeral_2_eq_2)
  from transport_write_flush_ok [OF inv flush.hyps(3) this, of junk rnd] flush.hyps(1,2)
  obtain ps where ps: "ps = [] \<or> ps = [(rnd 1, ignore_payload (rnd 0))]" "carried s ps s' out"
    by auto
  then show ?case
    using ignore_payload_facts [of "rnd 0"] run_inv_carried [OF flush.prems ps(2), of "[]"] by (auto simp: messages_def)
qed

lemma writer_run_inv: "writer_step\<^sup>*\<^sup>* x y \<Longrightarrow> run_inv k x \<Longrightarrow> run_inv k y"
  by (induction rule: rtranclp_induct) (auto intro: writer_step_inv)

lemma make_writer_inv:
  "writer_inv (make_transport_write_state junk :: ('c, 'm, 'z) transport_write_state)"
  "pending (tw_super (make_transport_write_state junk :: ('c, 'm, 'z) transport_write_state)) = []"
  using init_write_inv(1) [of TRANSPORT_BUFFER_SIZE junk] init_write_inv(2) [of junk TRANSPORT_BUFFER_SIZE]
  by (simp_all add: make_transport_write_state_def writer_inv_def init_ssh_write_state_def)

section \<open>Properties\<close>

text \<open>C27 Termination: the selection of the amount to write ends exactly when there is enough data, no ignorable data, or some data
  that is not ignorable. For a small amount of ignorable data only, the loop runs for ever.\<close>

theorem select_write_size_terminates:
  assumes "ignore \<le> len" "threshold \<le> 8 * threshold"
  shows "(\<exists>n. select_write_size len ignore threshold = Some n) \<longleftrightarrow> threshold \<le> len \<or> ignore = 0 \<or> ignore < len"
proof (cases "threshold \<le> len \<or> ignore = 0 \<or> ignore < len")
  case True
  show ?thesis
  proof (cases "len < threshold \<and> ignore \<noteq> 0")
    case small: True
    then have "len < 8 * threshold" "0 < ignore" "ignore < len" using True assms(2) by (auto simp: word_gt_0 dest: leD)
    then show ?thesis using select_write_size_small [of len threshold ignore] small True by blast
  qed (use True in \<open>auto simp: select_write_size_def not_less\<close>)
next
  case False
  then have "len = ignore" "\<not> threshold \<le> len" "\<not> 8 * threshold \<le> len" "ignore \<noteq> 0" using assms by auto
  then show ?thesis using False select_mask_loops [of len] by (simp add: select_write_size_def)
qed

theorem select_write_size_terminates_witness:
  "(\<exists>n. select_write_size 40 40 500 = Some n) \<longleftrightarrow> (500 :: u32) \<le> 40 \<or> (40 :: u32) = 0 \<or> (40 :: u32) < 40"
  by (rule select_write_size_terminates) simp_all

text \<open>C39 The amount selected from a buffer that is below the threshold, with ignorable data at its end and other data before it, contains all the data that is not ignorable and is
  the multiple of a power of two; no higher power of two has such a multiple.\<close>

theorem select_write_size_bounds:
  assumes "len < threshold" "threshold \<le> 8 * threshold" "0 < ignore" "ignore < len"
  shows "\<exists>n k. select_write_size len ignore threshold = Some n \<and> n \<le> len \<and> len - ignore \<le> n \<and> 2 ^ k dvd unat n
    \<and> (\<forall>j > k. \<not> (\<exists>m \<le> unat len. 2 ^ j dvd m \<and> unat len - unat ignore \<le> m))"
proof -
  obtain k where k: "select_write_size len ignore threshold = Some (len AND ones_from k)" "len - ignore \<le> len AND ones_from k"
      "\<forall>j > k. unat len div 2 ^ j * 2 ^ j < unat len - unat ignore"
    using select_write_size_small [of len threshold ignore] assms by (auto intro: less_le_trans)
  have "m \<le> unat len div 2 ^ j * 2 ^ j" if "2 ^ j dvd m" "m \<le> unat len" for m j
    using that by (auto simp: div_le_mono less_eq_div_iff_mult_less_eq mult.commute elim!: dvdE)
  then show ?thesis
    using k by (intro exI [of _ "len AND ones_from k"] exI [of _ k]) (fastforce simp: u32_le unat_and_mask)
qed

theorem select_write_size_bounds_witness:
  "\<exists>n k. select_write_size 100 50 500 = Some n \<and> n \<le> 100 \<and> 100 - 50 \<le> n \<and> 2 ^ k dvd unat n
    \<and> (\<forall>j > k. \<not> (\<exists>m \<le> unat (100 :: u32). 2 ^ j dvd m \<and> unat (100 :: u32) - unat (50 :: u32) \<le> m))"
  by (rule select_write_size_bounds) simp_all

text \<open>C12 Writing a packet of one to \<open>SSH_MAX_PACKET\<close> bytes without compression, which is not flagged as ignorable and, when it is an \<open>SSH_MSG_IGNORE\<close> to be
  pushed, finds other data in the buffer: the call returns, whatever partial writes, interruptions and errors the system reports. Unless the buffer
  overflows, the bytes accepted by the system followed by the buffered bytes are those buffered before followed by the sealed
  packet, and perhaps a sealed padding packet; keys and sequence number have advanced by the same packets.\<close>

theorem transport_write_packet_correct:
  assumes "writer_inv s" "sender_ok s" "io_legal ios" "answers 2 ios"
    and "nul_terminated packet" "contents packet \<noteq> []" "length (contents packet) \<le> 32768"
    and "FLAG_PUSH flags \<and> hd (contents packet) = SSH_MSG_IGNORE \<longrightarrow> tw_ignore s < w_length (tw_super s)" "\<not> FLAG_IGNORE flags"
  shows "\<exists>st s' sent ios' ps. transport_write_packet junk rnd s True flags packet ios = Some (st, s', sent, ios')
    \<and> (ps = [(rnd 0, contents packet)] \<or> ps = [(rnd 0, contents packet), (rnd 2, ignore_payload (rnd 1))])
    \<and> (st \<noteq> TRANSPORT_WRITE_OVERFLOW \<longrightarrow> carried s ps s' sent)"
proof -
  have "answers (Suc (Suc 0)) ios" using assms(4) by (simp add: numeral_2_eq_2)
  from transport_write_packet_ok [OF assms(1-3) this assms(5) refl assms(6-9), of junk rnd] show ?thesis by blast
qed

definition example_writer :: "(unit, unit, unit) transport_write_state" where
  "example_writer = transport_write_new_keys (make_transport_write_state (\<lambda>_. 0)) None (Some (shift_cipher 7)) None"

lemma example_writer_ok: "writer_inv example_writer" "sender_ok example_writer" "pending (tw_super example_writer) = []"
  using make_writer_inv [of "\<lambda>_. 0"]
  by (simp_all add: example_writer_def transport_write_new_keys_def writer_inv_def sender_ok_def cipher_ok_def shift_cipher_def
      make_transport_write_state_def)

theorem transport_write_packet_correct_witness:
  "\<exists>st s' sent ios' ps. transport_write_packet (\<lambda>_. 0) (\<lambda>_ _. 1) example_writer True \<lparr>FLAG_PUSH = True, FLAG_IGNORE = False\<rparr>
       \<lparr>str_length = 2, str_data = [94, 1, 0]\<rparr> [\<lambda>_. Fail EWOULDBLOCK, \<lambda>_. Fail EINTR, \<lambda>n. Done n] = Some (st, s', sent, ios')
    \<and> (ps = [(\<lambda>_. 1, [94, 1])] \<or> ps = [(\<lambda>_. 1, [94, 1]), (\<lambda>_. 1, ignore_payload (\<lambda>_. 1))])
    \<and> (st \<noteq> TRANSPORT_WRITE_OVERFLOW \<longrightarrow> carried example_writer ps s' sent)"
  using transport_write_packet_correct [OF example_writer_ok(1,2), of "[\<lambda>_. Fail EWOULDBLOCK, \<lambda>_. Fail EINTR, \<lambda>n. Done n]"
      "\<lparr>str_length = 2, str_data = [94, 1, 0]\<rparr>" "\<lparr>FLAG_PUSH = True, FLAG_IGNORE = False\<rparr>" "\<lambda>_. 0" "\<lambda>_ _. 1"]
  by (simp add: io_legal_def answers_def nul_terminated_def contents_def)

end
