(* ===== verification/Transport_Stream.thy ===== *)
theory Transport_Stream
  imports Transport_Packets Transport_Write
begin

text \<open>
  The two directions of the packet layer put together: what a run of the writer of \<open>src/transport_write.c\<close> has sent is a stream
  that the reader of \<open>src/transport_read.c\<close> delivers. The bytes the writer produces are the sealed packets of
  \<open>encrypt_packet\<close>, as the reader expects them.
\<close>

definition string_of_bytes :: "bytes \<Rightarrow> lsh_string" where
  "string_of_bytes p = \<lparr>str_length = of_nat (length p), str_data = p @ [0]\<rparr>"

lemma string_of_bytes:
  assumes "length p < 4294967296"
  shows "nul_terminated (string_of_bytes p)" "contents (string_of_bytes p) = p"
  using assms by (simp_all add: string_of_bytes_def nul_terminated_def contents_def unat_u32_of_nat)

abbreviation (input) as_strings :: "((nat \<Rightarrow> byte) \<times> bytes) list \<Rightarrow> ((nat \<Rightarrow> byte) \<times> lsh_string) list" where
  "as_strings ps \<equiv> map (\<lambda>(rnd, p). (rnd, string_of_bytes p)) ps"

lemma as_strings_ok:
  assumes "\<forall>p \<in> snd ` set ps. p \<noteq> [] \<and> length p \<le> 32768"
  shows "packets_ok (as_strings ps)" "map (\<lambda>x. contents (snd x)) (as_strings ps) = map snd ps"
proof -
  have "nul_terminated (string_of_bytes p)" "contents (string_of_bytes p) = p" if "(rnd, p) \<in> set ps" for rnd p
    using string_of_bytes [of p] assms that by force+
  then show "packets_ok (as_strings ps)" "map (\<lambda>x. contents (snd x)) (as_strings ps) = map snd ps"
    using assms by (force simp: packets_ok_def)+
qed

lemma wire_stream_sealed:
  assumes "keys_ok (e, m, n)" "packets_ok ps"
  shows "seal_packets junk e m n ps = Some (wire_stream e m n (map (\<lambda>(rnd, s). (rnd, contents s)) ps))"
  using assms
proof (induction ps arbitrary: e m n)
  case (Cons x ps)
  obtain rnd packet where x: "x = (rnd, packet)" by (cases x)
  let ?plain = "plain_packet (unat (block_size_of e)) rnd (contents packet)"
  have k: "cipher_ok e" "\<And>m'. m = Some m' \<Longrightarrow> mac_laws m'" "unat (mac_size_of m) \<le> 20" using Cons.prems(1) by auto
  obtain t where "encrypt_packet junk rnd packet (None :: unit zlib_instance option) e m n =
      Some (t, None, fst (crypt_bytes e ?plain), fst (mac_tag m n ?plain))" "contents t = wire_packet e m n rnd (contents packet)"
    using seal_packet [OF k, of rnd packet ps junk n] Cons.prems(2) x by blast
  moreover have "packets_ok ps" using Cons.prems(2) by (simp add: packets_ok_def)
  ultimately show ?case using Cons.IH [OF keys_ok_step [OF Cons.prems(1)]] by (simp add: x Let_def)
qed simp

lemma numbered_payloads: "map snd (numbered n ps) = ps"
  by (induction n ps rule: numbered.induct) simp_all

lemma stream_delivered:
  fixes s :: "('c, 'm, 'z) transport_read_state"
  assumes exp: "expecting R s e m n" and keys: "keys_ok (e, m, n)" and ps: "\<forall>p \<in> snd ` set ps. p \<noteq> [] \<and> length p \<le> 32768"
    and sk: "benign sk" "transport_stream s sk = wire_stream e m n ps @ rest" and buf: "nul_terminated buf" "unat (str_length buf) = 32769"
  shows "\<exists>s' sk' buf'. transport_delivers (s, sk, buf) (numbered n (map snd ps)) (s', sk', buf') \<and> transport_stream s' sk' = rest"
proof -
  note ok = as_strings_ok [OF ps]
  have "map (\<lambda>(rnd, s). (rnd, contents s)) (as_strings ps) = ps"
    using ok(2) by (intro nth_equalityI) (auto simp: list_eq_iff_nth_eq split: prod.splits)
  then have "seal_packets (\<lambda>_. 0) e m n (as_strings ps) = Some (wire_stream e m n ps)"
    using wire_stream_sealed [OF keys ok(1), of "\<lambda>_. 0"] by simp
  from sealed_delivered [OF exp _ sk(1) buf ok(1) this sk(2), unfolded ok(2)] keys show ?thesis by auto
qed

text \<open>The packets that have been sent as a whole are all but the ignorable ones, once the buffer holds ignorable bytes only.\<close>

lemma sent_packets:
  assumes "run_inv k (w, given, sent)" "w_length (tw_super w) \<le> tw_ignore w"
  obtains ps rest where "sent = wire_of k ps @ rest" "messages (map snd ps) = messages given" "\<forall>p \<in> snd ` set ps. p \<noteq> [] \<and> length p \<le> 32768"
proof -
  obtain ps where ps: "sent @ pending (tw_super w) = wire_of k ps" "messages (map snd ps) = messages given"
      "\<forall>p \<in> snd ` set ps. p \<noteq> [] \<and> length p \<le> 32768" "unat (tw_ignore w) \<le> ignorable 0 k ps" and inv: "writer_inv w"
    using assms(1) by (auto simp: run_inv_def)
  obtain ps1 ps2 where s: "ps = ps1 @ ps2" "\<forall>p \<in> snd ` set ps2. hd p = SSH_MSG_IGNORE"
      "ignorable 0 k ps \<le> length (wire_of (keys_after k ps1) ps2)"
    using ignorable_tail [of ps 0 k] by auto
  have "length (pending (tw_super w)) \<le> length (wire_of (keys_after k ps1) ps2)"
    using ps(4) s(3) assms(2) writer_bound(2) [OF inv] by (simp add: u32_le)
  moreover have e: "sent @ pending (tw_super w) = wire_of k ps1 @ wire_of (keys_after k ps1) ps2"
    using ps(1) unfolding s(1) wire_stream_append .
  ultimately have "length (wire_of k ps1) \<le> length sent"
    using arg_cong [where f = length, OF e] unfolding length_append by linarith
  then obtain rest where "sent = wire_of k ps1 @ rest" using append_split_le [OF e] by auto
  moreover have "messages (map snd ps1) = messages given"
    using ps(2) s(1,2) by (simp add: messages_def)
  ultimately show thesis using that ps(3) s(1) by auto
qed

text \<open>A run of the writer that has sent everything of importance, followed by the reader.\<close>

lemma run_delivered:
  fixes s :: "('c, 'm, 'z) transport_read_state" and w0 :: "('c, 'm, 'y) transport_write_state"
  assumes run: "writer_step\<^sup>*\<^sup>* (w0, [], []) (w, given, sent)" and w0: "writer_inv w0" "sender_ok w0" "w_length (tw_super w0) = 0"
    and empty: "w_length (tw_super w) \<le> tw_ignore w"
    and exp: "expecting R s (tw_crypto w0) (tw_mac w0) (tw_seqno w0)" and sk: "benign sk" "transport_stream s sk = sent"
    and buf: "nul_terminated buf" "unat (str_length buf) = 32769"
  shows "\<exists>ps s' sk' buf'. transport_delivers (s, sk, buf) ps (s', sk', buf') \<and> messages (map snd ps) = messages given"
proof -
  have "pending (tw_super w0) = []" "tw_ignore w0 = 0" using w0(1,3) writer_bound(2) [OF w0(1)] by (auto simp: writer_inv_def)
  then have "run_inv (keys_of w0) (w0, [], [])"
    using w0 unfolding run_inv_def prod.case by (intro conjI exI [of _ "[]"]) (auto simp: messages_def)
  then have "run_inv (keys_of w0) (w, given, sent)" by (rule writer_run_inv [OF run])
  then obtain ps rest where ps: "sent = wire_stream (tw_crypto w0) (tw_mac w0) (tw_seqno w0) ps @ rest" "messages (map snd ps) = messages given"
      "\<forall>p \<in> snd ` set ps. p \<noteq> [] \<and> length p \<le> 32768"
    by (rule sent_packets [OF _ empty]) auto
  have "keys_ok (keys_of w0)" using w0(2) by (simp add: sender_ok_def)
  from stream_delivered [OF exp this ps(3) sk(1) _ buf] sk(2) ps(1)
  obtain s' sk' buf' where "transport_delivers (s, sk, buf) (numbered (tw_seqno w0) (map snd ps)) (s', sk', buf')" by auto
  then show ?thesis using ps(2) by (intro exI [of _ "numbered (tw_seqno w0) (map snd ps)"]) (auto simp: numbered_payloads)
qed

section \<open>Example\<close>

text \<open>A small pushed packet on an idle connection without encryption goes out at once.\<close>

lemma write_data_all:
  assumes "writer_inv s" "w_length (tw_super s) = 0" "0 < l" "l < 500" "unat l \<le> length d"
  shows "write_data s True \<lparr>FLAG_PUSH = True, FLAG_IGNORE = False\<rparr> l d ((\<lambda>n. Done n) # ios) =
    Some (TRANSPORT_WRITE_COMPLETE, s\<lparr>tw_ignore := 0\<rparr>, take (unat l) d, ios)"
proof -
  have th: "tw_threshold s = 500" and n: "\<not> 500 \<le> l" "\<not> 4000 \<le> l" "l \<noteq> 0"
    using assms(1,3,4) by (auto simp: writer_inv_def u32_less u32_le word_gt_0)
  have "ssh_write_data (tw_super s) l l d ((\<lambda>n. Done n) # ios) =
      Some \<lparr>w_ret = l, w_errno = None, w_sent = take (unat l) d, w_state = tw_super s, w_ios = ios\<rparr>"
    using assms(2,3) n(3) by (simp add: ssh_write_data_def write_done_def enqueue_rest_def unat_gt_0 word_gt_0)
  then show ?thesis
    using assms(2) th n by (simp add: write_data_def select_write_size_def update_status_def word_gt_0)
qed

lemma example_run:
  "\<exists>w sent. writer_step (make_transport_write_state (\<lambda>_. 0) :: (unit, unit, unit) transport_write_state, [], []) (w, [[94, 1]], sent)
    \<and> w_length (tw_super w) = 0"
proof -
  let ?s = "make_transport_write_state (\<lambda>_. 0) :: (unit, unit, unit) transport_write_state"
  let ?p = "\<lparr>str_length = 2, str_data = [94, 1, 0]\<rparr> :: lsh_string" and ?fl = "\<lparr>FLAG_PUSH = True, FLAG_IGNORE = False\<rparr>"
  have i: "writer_inv ?s" by (rule make_writer_inv)
  have fresh: "w_length (tw_super ?s) = 0" "keys_of ?s = (None, None, 0)" "tw_deflate ?s = None"
    by (simp_all add: make_transport_write_state_def init_ssh_write_state_def)
  have ok: "sender_ok ?s" using fresh by (simp add: sender_ok_def cipher_ok_def)
  have p: "nul_terminated ?p" "contents ?p = [94, 1]" by (simp_all add: nul_terminated_def contents_def)
  obtain t e' m' where t: "seal_with (\<lambda>_. 0) (\<lambda>_. 0) ?s ?p = Some (t, ?s\<lparr>tw_crypto := e', tw_mac := m', tw_seqno := tw_seqno ?s + 1\<rparr>)"
      "nul_terminated t" "contents t = wire_of (keys_of ?s) [(\<lambda>_. 0, [94, 1])]" "(e', m', tw_seqno ?s + 1) = keys_after (keys_of ?s) [(\<lambda>_. 0, [94, 1])]"
      "0 < unat (str_length t)"
    using seal_with_ok [OF ok p, of "\<lambda>_. 0" "\<lambda>_. 0"] by auto
  have e: "e' = None" using t(4) fresh(2) by (simp add: Let_def crypt_bytes_def)
  have "length (contents t) = 16"
    using t(3) fresh(2) length_plain_packet [of 8 "\<lambda>_. 0" "[94, 1]"] by (simp add: wire_packet_def crypt_bytes_def mac_tag_def pad_length_def Let_def)
  then have l: "unat (str_length t) = 16" using length_contents [OF t(2)] by simp
  define s1 where "s1 = ?s\<lparr>tw_crypto := e', tw_mac := m', tw_seqno := tw_seqno ?s + 1\<rparr>"
  have "write_data s1 True ?fl (str_length t) (str_data t) [\<lambda>n. Done n, \<lambda>n. Done n] =
      Some (TRANSPORT_WRITE_COMPLETE, s1\<lparr>tw_ignore := 0\<rparr>, take (unat (str_length t)) (str_data t), [\<lambda>n. Done n])"
    using i l t(2,5) fresh(1) by (intro write_data_all) (auto simp: s1_def writer_inv_def u32_less nul_terminated_def)
  then have "transport_write_packet (\<lambda>_. 0) (\<lambda>_ _. 0) ?s True ?fl ?p [\<lambda>n. Done n, \<lambda>n. Done n] =
      Some (TRANSPORT_WRITE_COMPLETE, s1\<lparr>tw_ignore := 0\<rparr>, take (unat (str_length t)) (str_data t), [\<lambda>n. Done n])"
    using t(1) e by (simp add: transport_write_packet_def lsh_string_length_def lsh_string_data_def s1_def)
  from writer_step.packet [OF this, of "[]" "[]"] p fresh(1) show ?thesis
    by (intro exI [of _ "s1\<lparr>tw_ignore := 0\<rparr>"] exI [of _ "take (unat (str_length t)) (str_data t)"])
      (simp add: io_legal_def answers_def s1_def)
qed

end
