(* ===== verification/Kex_Keys.thy ===== *)
theory Kex_Keys
  imports Crypto
begin

text \<open>
  The hash functions of \<open>src/crypto.c\<close> and the derivation of session keys in \<open>src/keyexchange.c\<close>. A hash algorithm of nettle is
  a parameter with its methods; \<open>hash_spec\<close> states that updates are concatenated and that the digest is a function
  of the concatenated data. The key derivation is compared with the construction of the protocol: blocks that are digests of the
  secret followed by all blocks before.
\<close>

section \<open>Hashes\<close>

record 'h nettle_hash =
  n_digest_size :: u32
  n_init :: 'h
  n_update :: "'h \<Rightarrow> bytes \<Rightarrow> 'h"
  n_digest :: "'h \<Rightarrow> 'h \<times> bytes"

record 'h hash_instance =
  h_type :: "'h nettle_hash"
  h_ctx :: 'h

abbreviation (input) HASH_SIZE :: "'h hash_instance \<Rightarrow> u32" where
  "HASH_SIZE h \<equiv> n_digest_size (h_type h)"

definition make_hash :: "'h nettle_hash \<Rightarrow> 'h hash_instance" where
  "make_hash algorithm = \<lparr>h_type = algorithm, h_ctx = n_init algorithm\<rparr>"

definition hash_update :: "'h hash_instance \<Rightarrow> u32 \<Rightarrow> bytes \<Rightarrow> 'h hash_instance" where
  "hash_update self l data = self\<lparr>h_ctx := n_update (h_type self) (h_ctx self) (take (unat l) data)\<rparr>"

definition hash_copy :: "'h hash_instance \<Rightarrow> 'h hash_instance" where
  "hash_copy self = self"

definition lsh_string_write_hash :: "lsh_string \<Rightarrow> u32 \<Rightarrow> 'h nettle_hash \<Rightarrow> 'h \<Rightarrow> (lsh_string \<times> 'h) option" where
  "lsh_string_write_hash s start type ctx =
     do { ASSERT_ROOM s start (n_digest_size type);
          let (ctx, digest) = n_digest type ctx;
          let s' = s\<lparr>str_data := overwrite (unat start) digest (str_data s)\<rparr>;
          ASSERT_NUL s';
          Some (s', ctx) }"

definition hash_digest_string :: "(nat \<Rightarrow> byte) \<Rightarrow> 'h hash_instance \<Rightarrow> (lsh_string \<times> 'h hash_instance) option" where
  "hash_digest_string junk self =
     do { (s, ctx) \<leftarrow> lsh_string_write_hash (lsh_string_alloc junk (HASH_SIZE self)) 0 (h_type self) (h_ctx self);
          Some (s, self\<lparr>h_ctx := ctx\<rparr>) }"

definition hash_string_l :: "(nat \<Rightarrow> byte) \<Rightarrow> 'h nettle_hash \<Rightarrow> u32 \<Rightarrow> bytes \<Rightarrow> lsh_string option" where
  "hash_string_l junk a l data =
     do { (out, _) \<leftarrow> hash_digest_string junk (hash_update (make_hash a) l data); Some out }"

definition hash_string :: "(nat \<Rightarrow> byte) \<Rightarrow> 'h nettle_hash \<Rightarrow> lsh_string \<Rightarrow> lsh_string option" where
  "hash_string junk a s = hash_string_l junk a (lsh_string_length s) (lsh_string_data s)"

section \<open>Session keys\<close>

definition kex_build_secret ::
  "(nat \<Rightarrow> byte) \<Rightarrow> 'h nettle_hash \<Rightarrow> lsh_string \<Rightarrow> lsh_string \<Rightarrow> 'h hash_instance option" where
  "kex_build_secret junk H exchange_hash K =
     do { (s, _) \<leftarrow> ssh_format no_bignum junk ''%fS%lS'' [String_arg K, String_arg exchange_hash];
          Some (hash_update (make_hash H) (lsh_string_length s) (lsh_string_data s)) }"

definition IV_TYPE :: "nat \<Rightarrow> nat" where
  "IV_TYPE t = t + 4"

definition tags :: bytes where
  "tags = cstring ''CDEFAB''"

partial_function (option) expand_key ::
  "(nat \<Rightarrow> byte) \<Rightarrow> u32 \<Rightarrow> 'h hash_instance \<Rightarrow> lsh_string \<Rightarrow> u32 \<Rightarrow> u32 \<Rightarrow> lsh_string \<Rightarrow>
   ('h hash_instance \<times> lsh_string \<times> u32 \<times> u32) option" where
  "expand_key junk key_length hash key pos left digest =
     do { c_assert (pos + left = key_length);
          key \<leftarrow> lsh_string_write_string key pos digest;
          let pos = pos + HASH_SIZE hash;
          let left = left - HASH_SIZE hash;
          let hash = hash_update hash (HASH_SIZE hash) (lsh_string_data digest);
          if left \<le> HASH_SIZE hash then Some (hash, key, pos, left)
          else do { (digest, _) \<leftarrow> hash_digest_string junk (hash_copy hash);
                    expand_key junk key_length hash key pos left digest } }"

definition kex_make_key :: "(nat \<Rightarrow> byte) \<Rightarrow> 'h hash_instance \<Rightarrow> u32 \<Rightarrow> nat \<Rightarrow> lsh_string \<Rightarrow> lsh_string option" where
  "kex_make_key junk secret key_length type session_id =
     (let key = lsh_string_alloc junk key_length in
      if key_length = 0 then Some key
      else do {
        let hash = hash_copy secret;
        let hash = hash_update hash 1 (drop type tags);
        let hash = hash_update hash (lsh_string_length session_id) (lsh_string_data session_id);
        (digest, hash) \<leftarrow> hash_digest_string junk hash;
        if key_length \<le> HASH_SIZE hash then lsh_string_write key 0 key_length (lsh_string_data digest)
        else do {
          (hash, key, pos, left) \<leftarrow> expand_key junk key_length (hash_copy secret) key 0 key_length digest;
          (digest, _) \<leftarrow> hash_digest_string junk hash;
          lsh_string_write key pos left (lsh_string_data digest) } })"

section \<open>The contract of a hash function\<close>

definition hash_spec :: "'h nettle_hash \<Rightarrow> (bytes \<Rightarrow> bytes) \<Rightarrow> bool" where
  "hash_spec a H \<longleftrightarrow> (\<forall>x u v. n_update a (n_update a x u) v = n_update a x (u @ v))
     \<and> (\<forall>u. snd (n_digest a (n_update a (n_init a) u)) = H u) \<and> (\<forall>u. length (H u) = unat (n_digest_size a))"

text \<open>The instance \<open>h\<close> of the algorithm \<open>a\<close> has absorbed \<open>bs\<close>.\<close>

definition absorbed :: "'h nettle_hash \<Rightarrow> bytes \<Rightarrow> 'h hash_instance \<Rightarrow> bool" where
  "absorbed a bs h \<longleftrightarrow> h_type h = a \<and> h_ctx h = n_update a (n_init a) bs"

lemma absorbed_update:
  assumes "hash_spec a H" "absorbed a bs h"
  shows "absorbed a (bs @ take (unat l) data) (hash_update h l data)"
  using assms by (simp add: absorbed_def hash_update_def hash_spec_def)

lemma absorbed_first:
  "absorbed a (take (unat l) data) (hash_update (make_hash a) l data)"
  by (simp add: absorbed_def hash_update_def make_hash_def)

lemma hash_digest_string_ok:
  assumes "hash_spec a H" "absorbed a bs h"
  shows "\<exists>s h'. hash_digest_string junk h = Some (s, h') \<and> h_type h' = a \<and> nul_terminated s \<and> contents s = H bs \<and> str_length s = n_digest_size a"
proof -
  let ?s = "lsh_string_alloc junk (n_digest_size a)"
  have "snd (n_digest a (h_ctx h)) = H bs" using assms by (simp add: absorbed_def hash_spec_def)
  then obtain c where c: "n_digest a (h_ctx h) = (c, H bs)" by (cases "n_digest a (h_ctx h)") simp
  have len: "length (H bs) = unat (n_digest_size a)" using assms(1) by (simp add: hash_spec_def)
  let ?t = "?s\<lparr>str_data := overwrite 0 (H bs) (str_data ?s)\<rparr>"
  have ok: "nul_terminated ?t" "contents ?t = overwrite 0 (H bs) (contents ?s)"
    using len by (intro nul_terminated_overwrite contents_overwrite; simp)+
  moreover have "contents ?t = H bs" using ok(2) len by (simp add: overwrite_whole)
  moreover have "lsh_string_write_hash ?s 0 a (h_ctx h) = Some (?t, c)"
    using c ok(1) by (simp add: lsh_string_write_hash_def ASSERT_ROOM_eq room_def)
  ultimately show ?thesis using assms(2) by (simp add: hash_digest_string_def absorbed_def)
qed

section \<open>The construction of the protocol\<close>

text \<open>\<open>kex_blocks H secret ks n\<close> appends \<open>n\<close> further blocks to the blocks \<open>ks\<close>.\<close>

fun kex_blocks :: "(bytes \<Rightarrow> bytes) \<Rightarrow> bytes \<Rightarrow> bytes \<Rightarrow> nat \<Rightarrow> bytes" where
  "kex_blocks H secret ks 0 = ks"
| "kex_blocks H secret ks (Suc n) = kex_blocks H secret (ks @ H (secret @ ks)) n"

definition session_key :: "(bytes \<Rightarrow> bytes) \<Rightarrow> bytes \<Rightarrow> byte \<Rightarrow> bytes \<Rightarrow> nat \<Rightarrow> bytes" where
  "session_key H secret tag session_id n = take n (kex_blocks H secret (H (secret @ [tag] @ session_id)) n)"

text \<open>The letters of the protocol, for the numbers that the code has for the uses of keys: encryption from client to server and back (0 and 1), authentication (2 and
  3), and, with \<open>IV_TYPE\<close>, initial vectors.\<close>

definition key_letter :: "nat \<Rightarrow> byte" where
  "key_letter type =
     (if type = IV_TYPE 0 then of_char (CHR ''A'') else if type = IV_TYPE 1 then of_char (CHR ''B'')
      else if type = 0 then of_char (CHR ''C'') else if type = 1 then of_char (CHR ''D'')
      else if type = 2 then of_char (CHR ''E'') else of_char (CHR ''F''))"

lemma tags_letter: "type < 6 \<Longrightarrow> tags ! type = key_letter type"
  by (auto simp: less_Suc_eq numeral_eq_Suc key_letter_def IV_TYPE_def tags_def cstring_def)

lemma kex_blocks_prefix: "\<exists>xs. kex_blocks H secret ks n = ks @ xs"
proof (induction n arbitrary: ks)
  case (Suc n)
  then show ?case by (metis append.assoc kex_blocks.simps(2))
qed simp

lemma length_kex_blocks: "(\<And>u. length (H u) = k) \<Longrightarrow> length (kex_blocks H secret ks n) = length ks + n * k"
  by (induction n arbitrary: ks) simp_all

lemma kex_blocks_add: "kex_blocks H secret ks (m + n) = kex_blocks H secret (kex_blocks H secret ks m) n"
  by (induction m arbitrary: ks) simp_all

lemma take_kex_blocks:
  assumes "i \<le> length (kex_blocks H secret ks m)" "m \<le> n"
  shows "take i (kex_blocks H secret ks n) = take i (kex_blocks H secret ks m)"
proof -
  obtain k where k: "n = m + k" using assms(2) le_Suc_ex by blast
  obtain xs where "kex_blocks H secret ks n = kex_blocks H secret ks m @ xs"
    using kex_blocks_prefix [of H secret "kex_blocks H secret ks m" k] k by (auto simp: kex_blocks_add)
  then show ?thesis using assms(1) by simp
qed

section \<open>Correctness of the expansion\<close>

text \<open>The key holds the bytes \<open>ks\<close> in front, and \<open>left\<close> bytes are missing.\<close>

definition key_filled :: "u32 \<Rightarrow> lsh_string \<Rightarrow> u32 \<Rightarrow> u32 \<Rightarrow> bytes \<Rightarrow> bool" where
  "key_filled key_length key pos left ks \<longleftrightarrow> nul_terminated key \<and> str_length key = key_length \<and> unat pos = length ks
     \<and> unat pos + unat left = unat key_length \<and> take (length ks) (contents key) = ks"

lemma key_filled_write:
  assumes "key_filled key_length key pos left ks" "n \<le> left" "unat n \<le> length d"
  shows "\<exists>key'. lsh_string_write key pos n d = Some key' \<and> key_filled key_length key' (pos + n) (left - n) (ks @ take (unat n) d)"
proof -
  have k: "nul_terminated key" "str_length key = key_length" "unat pos = length ks" "unat pos + unat left = unat key_length"
      "take (length ks) (contents key) = ks"
    using assms(1) by (auto simp: key_filled_def)
  let ?d = "take (unat n) d"
  let ?key = "key\<lparr>str_data := overwrite (unat pos) ?d (str_data key)\<rparr>"
  have n: "unat n \<le> unat left" "length ?d = unat n" using assms(2,3) by (auto simp: u32_le)
  have ok: "nul_terminated ?key" "contents ?key = overwrite (unat pos) ?d (contents key)"
    using k n by (intro nul_terminated_overwrite contents_overwrite; simp)+
  have "unat (pos + n) = unat pos + unat n" using k(4) n(1) unat_u32_bound [of key_length] by (intro unat_u32_add) (simp del: unat_u32_bound)
  moreover have "unat (left - n) = unat left - unat n" using n(1) by (simp add: unat_u32_diff)
  moreover have "take (length (ks @ ?d)) (contents ?key) = ks @ ?d"
    using take_overwrite_end [of "unat pos" ?d "contents key"] k n length_contents [OF k(1)] unfolding ok(2) by simp
  moreover have "lsh_string_write key pos n d = Some ?key"
    using k(1,2,4) n ok(1) assms(3) by (simp add: lsh_string_write_eq room_def)
  ultimately show ?thesis using k n ok(1) by (auto simp: key_filled_def)
qed

lemma contents_data: "nul_terminated s \<Longrightarrow> take (unat (str_length s)) (lsh_string_data s) = contents s"
  by (simp add: contents_def lsh_string_data_def)

lemma expand_key_ok:
  assumes spec: "hash_spec a H" "0 < n_digest_size a"
    and "absorbed a (secret @ ks) hash" "key_filled key_length key pos left ks" "n_digest_size a < left"
    and "nul_terminated digest" "contents digest = d" "str_length digest = n_digest_size a"
  shows "\<exists>hash' key' pos' left' m. expand_key junk key_length hash key pos left digest = Some (hash', key', pos', left')
    \<and> absorbed a (secret @ kex_blocks H secret (ks @ d) m) hash'
    \<and> key_filled key_length key' pos' left' (kex_blocks H secret (ks @ d) m) \<and> left' \<le> n_digest_size a"
  using assms(3-8)
proof (induction "unat left" arbitrary: hash key pos left digest ks d rule: less_induct)
  case less
  let ?n = "n_digest_size a"
  have data: "take (unat ?n) (lsh_string_data digest) = d" "unat ?n \<le> length (lsh_string_data digest)"
    using contents_data [OF less.prems(4)] less.prems(4-6) nul_terminated_length [OF less.prems(4)] by (simp_all add: lsh_string_data_def)
  obtain key' where w: "lsh_string_write_string key pos digest = Some key'" "key_filled key_length key' (pos + ?n) (left - ?n) (ks @ d)"
    using key_filled_write [OF less.prems(2) order_less_imp_le [OF less.prems(3)] data(2)] less.prems(6) data(1)
    by (auto simp: lsh_string_write_string_def lsh_string_length_def)
  let ?hash = "hash_update hash ?n (lsh_string_data digest)"
  have h: "absorbed a (secret @ ks @ d) ?hash" "h_type hash = a" "h_type ?hash = a"
    using absorbed_update [OF spec(1) less.prems(1), of ?n "lsh_string_data digest"] data(1) less.prems(1) by (auto simp: absorbed_def)
  have sum: "pos + left = key_length" using less.prems(2) by (auto simp: key_filled_def word_unat_eq_iff unat_u32_mod)
  show ?case
  proof (cases "left - ?n \<le> ?n")
    case True
    then show ?thesis
      using w h sum by (intro exI [of _ ?hash] exI [of _ key'] exI [of _ "pos + ?n"] exI [of _ "left - ?n"] exI [of _ 0])
        (simp add: expand_key.simps)
  next
    case False
    obtain s h' where s: "hash_digest_string junk ?hash = Some (s, h')" "nul_terminated s" "contents s = H (secret @ ks @ d)" "str_length s = ?n"
      using hash_digest_string_ok [OF spec(1) h(1)] by blast
    have "unat (left - ?n) < unat left" using less.prems(3) spec(2) by (simp add: unat_u32_diff u32_less)
    moreover have "?n < left - ?n" using False by simp
    ultimately obtain hash' key'' pos' left' m where
        ih: "expand_key junk key_length ?hash key' (pos + ?n) (left - ?n) s = Some (hash', key'', pos', left')"
        "absorbed a (secret @ kex_blocks H secret ((ks @ d) @ H (secret @ ks @ d)) m) hash'"
        "key_filled key_length key'' pos' left' (kex_blocks H secret ((ks @ d) @ H (secret @ ks @ d)) m)" "left' \<le> ?n"
      using less.hyps [OF _ h(1) w(2) _ s(2,3,4)] by blast
    have "expand_key junk key_length hash key pos left digest = Some (hash', key'', pos', left')"
      using False w h sum s(1) ih(1) by (subst expand_key.simps) (simp add: hash_copy_def)
    then show ?thesis
      using ih(2-4) by (intro exI [of _ hash'] exI [of _ key''] exI [of _ pos'] exI [of _ left'] exI [of _ "Suc m"]) simp
  qed
qed

lemma key_filled_done:
  assumes "key_filled key_length key pos 0 ks"
  shows "contents key = ks"
proof -
  have k: "nul_terminated key" "unat (str_length key) = length ks" "take (length ks) (contents key) = ks"
    using assms unfolding key_filled_def by simp_all
  have "length (contents key) = length ks" using length_contents [OF k(1)] k(2) by simp
  then show ?thesis using k(3) by simp
qed

lemma key_filled_start: "key_filled n (lsh_string_alloc junk n) 0 n []"
  by (simp add: key_filled_def)

text \<open>The last write fills the key with the front of a digest.\<close>

lemma key_filled_last:
  assumes "key_filled key_length key pos left ks" "nul_terminated s" "left \<le> str_length s"
  shows "\<exists>key'. lsh_string_write key pos left (lsh_string_data s) = Some key' \<and> nul_terminated key'
           \<and> contents key' = ks @ take (unat left) (contents s)"
proof -
  have "unat left \<le> length (lsh_string_data s)"
    using nul_terminated_length [OF assms(2)] assms(3) by (simp add: lsh_string_data_def u32_le)
  then obtain key' where k: "lsh_string_write key pos left (lsh_string_data s) = Some key'"
      "key_filled key_length key' (pos + left) (left - left) (ks @ take (unat left) (lsh_string_data s))"
    using key_filled_write [OF assms(1) order_refl] by blast
  have "take (unat left) (lsh_string_data s) = take (unat left) (contents s)"
    using assms(3) by (simp add: lsh_string_data_def contents_def u32_le min_absorb1)
  then have "contents key' = ks @ take (unat left) (contents s)"
    using k(2) by (intro key_filled_done [of key_length key' "pos + left"]) simp
  moreover have "nul_terminated key'" using k(2) unfolding key_filled_def by blast
  ultimately show ?thesis using k(1) by blast
qed

lemma session_key_blocks:
  assumes H: "\<And>u. length (H u) = k" "0 < k" and n: "length (kex_blocks H secret (H (secret @ [tag] @ sid)) m) + l = n" "l \<le> k"
  shows "session_key H secret tag sid n
    = kex_blocks H secret (H (secret @ [tag] @ sid)) m @ take l (H (secret @ kex_blocks H secret (H (secret @ [tag] @ sid)) m))"
proof -
  let ?b = "kex_blocks H secret (H (secret @ [tag] @ sid))"
  have len: "length (?b m) = k + m * k" using length_kex_blocks [of H k] H(1) by simp
  have suc: "?b (Suc m) = ?b m @ H (secret @ ?b m)" using kex_blocks_add [of H secret _ m 1] by simp
  have "Suc m * 1 \<le> Suc m * k" using H(2) by (intro mult_le_mono2) simp
  then have "Suc m \<le> n" using n(1) len by simp
  then have "session_key H secret tag sid n = take n (?b (Suc m))"
    unfolding session_key_def using n len suc H(1) by (intro take_kex_blocks) simp_all
  then show ?thesis using suc n(1) by auto
qed

lemma session_key_short:
  assumes "\<And>u. length (H u) = k" "n \<le> k"
  shows "session_key H secret tag sid n = take n (H (secret @ [tag] @ sid))"
  using take_kex_blocks [of n H secret "H (secret @ [tag] @ sid)" 0 n] assms
  unfolding session_key_def by (simp only: kex_blocks.simps le0 simp_thms)

lemma kex_make_key_expands:
  assumes spec: "hash_spec a H" "0 < n_digest_size a"
    and h: "absorbed a secret h" and id: "nul_terminated session_id" and type: "type < 6"
  shows "\<exists>key. kex_make_key junk h n type session_id = Some key \<and> nul_terminated key
           \<and> contents key = session_key H secret (tags ! type) (contents session_id) (unat n)"
proof -
  let ?a = "n_digest_size a" and ?d = "H (secret @ [tags ! type] @ contents session_id)"
  let ?h = "hash_update (hash_update (hash_copy h) 1 (drop type tags)) (lsh_string_length session_id) (lsh_string_data session_id)"
  have "take 1 (drop type tags) = [tags ! type]" using type by (simp add: tags_def take_Suc_conv_app_nth)
  then have "absorbed a (secret @ [tags ! type] @ contents session_id) ?h"
    using absorbed_update [OF spec(1) absorbed_update [OF spec(1) h, of 1 "drop type tags"], of "lsh_string_length session_id" "lsh_string_data session_id"]
      contents_data [OF id] by (simp add: hash_copy_def lsh_string_length_def)
  then obtain s h' where s: "hash_digest_string junk ?h = Some (s, h')" "h_type h' = a" "nul_terminated s" "contents s = ?d" "str_length s = ?a"
    using hash_digest_string_ok [OF spec(1)] by blast
  have H: "\<And>u. length (H u) = unat ?a" using spec(1) by (simp add: hash_spec_def)
  consider "n = 0" | "n \<noteq> 0" "n \<le> ?a" | "n \<noteq> 0" "?a < n" by fastforce
  then show ?thesis
  proof cases
    case 1
    then show ?thesis by (simp add: kex_make_key_def session_key_def key_filled_done [OF key_filled_start])
  next
    case 2
    then have "session_key H secret (tags ! type) (contents session_id) (unat n) = take (unat n) ?d"
      using H by (intro session_key_short) (simp_all add: u32_le)
    then show ?thesis
      using 2 s key_filled_last [OF key_filled_start s(3), of n junk] by (simp add: kex_make_key_def)
  next
    case 3
    obtain hash key pos left m where e: "expand_key junk n h (lsh_string_alloc junk n) 0 n s = Some (hash, key, pos, left)"
        "absorbed a (secret @ kex_blocks H secret ?d m) hash" "key_filled n key pos left (kex_blocks H secret ?d m)" "left \<le> ?a"
      using expand_key_ok [OF spec _ key_filled_start 3(2) s(3,4,5), of secret h junk junk] h by auto
    obtain t h'' where t: "hash_digest_string junk hash = Some (t, h'')" "nul_terminated t" "str_length t = ?a"
        "contents t = H (secret @ kex_blocks H secret ?d m)"
      using hash_digest_string_ok [OF spec(1) e(2)] by blast
    have "session_key H secret (tags ! type) (contents session_id) (unat n)
        = kex_blocks H secret ?d m @ take (unat left) (contents t)"
      unfolding t(4) using H spec(2) e(3,4) by (intro session_key_blocks) (simp_all add: key_filled_def u32_le u32_less)
    then show ?thesis
      using 3 s(1,2) e(1) t(1,3) key_filled_last [OF e(3) t(2)] e(4) by (auto simp: kex_make_key_def hash_copy_def Let_def)
  qed
qed

lemma kex_make_key_session:
  assumes "hash_spec a H" "0 < n_digest_size a" "absorbed a secret h" "nul_terminated session_id" "type < 6"
  shows "\<exists>key. kex_make_key junk h n type session_id = Some key \<and> nul_terminated key
           \<and> contents key = session_key H secret (key_letter type) (contents session_id) (unat n)"
  using kex_make_key_expands [OF assms] unfolding tags_letter [OF assms(5)] .

lemma kex_build_secret_ok:
  assumes "hash_spec a H" "nul_terminated K" "nul_terminated exchange_hash"
    and "length (contents K) + length (contents exchange_hash) < 4294967292"
  shows "\<exists>secret. kex_build_secret junk a exchange_hash K = Some secret
    \<and> absorbed a (WRITE_UINT32 (of_nat (length (contents K))) @ contents K @ contents exchange_hash) secret"
proof -
  let ?bs = "WRITE_UINT32 (of_nat (length (contents K))) @ contents K @ contents exchange_hash"
  have "render no_bignum junk ''%fS%lS'' [String_arg K, String_arg exchange_hash] = Some ?bs"
    using assms(2,3) by (simp add: render_simps)
  then obtain s ps where s: "ssh_format no_bignum junk ''%fS%lS'' [String_arg K, String_arg exchange_hash] = Some (s, ps)"
      "nul_terminated s" "contents s = ?bs"
    using ssh_format_total assms(4) by fastforce
  then show ?thesis
    using absorbed_first [of a "lsh_string_length s" "lsh_string_data s"] contents_data [OF s(2)]
    by (simp add: kex_build_secret_def lsh_string_length_def)
qed

text \<open>C9 (session keys). For every hash function that meets its contract, both steps of the key derivation return and the key they
  make, of any length and of any of the six types, is the key of the protocol: the secret is the length-prefixed shared secret
  followed by the exchange hash, the first block is the digest of the secret, the letter of the key and the session identifier, every
  further block is the digest of the secret and all blocks before, and the key is the prefix of the blocks that has the length
  asked for. In particular the loop ends.\<close>

theorem session_keys_correct:
  assumes "hash_spec a H" "0 < n_digest_size a"
    and "nul_terminated K" "nul_terminated exchange_hash" "nul_terminated session_id"
    and "length (contents K) + length (contents exchange_hash) < 4294967292" "type < 6"
  shows "\<exists>secret key. kex_build_secret junk a exchange_hash K = Some secret \<and> kex_make_key junk secret n type session_id = Some key
    \<and> nul_terminated key \<and> contents key = session_key H
        (WRITE_UINT32 (of_nat (length (contents K))) @ contents K @ contents exchange_hash) (key_letter type) (contents session_id) (unat n)"
  using kex_build_secret_ok [OF assms(1,3,4,6)] kex_make_key_session [OF assms(1,2) _ assms(5,7)] by blast

text \<open>A small hash for the witness: the sum of the bytes and their number.\<close>

definition sum_digest :: "bytes \<Rightarrow> bytes" where
  "sum_digest bs = [sum_list bs, of_nat (length bs)]"

definition sum_hash :: "bytes nettle_hash" where
  "sum_hash = \<lparr>n_digest_size = 2, n_init = [], n_update = (@), n_digest = (\<lambda>bs. ([], sum_digest bs))\<rparr>"

lemma sum_hash_spec: "hash_spec sum_hash sum_digest"
  by (simp add: hash_spec_def sum_hash_def sum_digest_def)

lemma sum_session_key: "session_key sum_digest [0, 0, 0, 2, 1, 2, 7] 67 [9] 5 = [88, 9, 109, 9, 227]"
  by code_simp

theorem session_keys_correct_witness:
  "\<exists>secret key. kex_build_secret (\<lambda>_. 0) sum_hash \<lparr>str_length = 1, str_data = [7, 0]\<rparr> \<lparr>str_length = 2, str_data = [1, 2, 0]\<rparr> = Some secret
     \<and> kex_make_key (\<lambda>_. 0) secret 5 0 \<lparr>str_length = 1, str_data = [9, 0]\<rparr> = Some key \<and> contents key = [88, 9, 109, 9, 227]"
  using session_keys_correct [OF sum_hash_spec, of "\<lparr>str_length = 2, str_data = [1, 2, 0]\<rparr>" "\<lparr>str_length = 1, str_data = [7, 0]\<rparr>"
      "\<lparr>str_length = 1, str_data = [9, 0]\<rparr>" 0 "\<lambda>_. 0" 5]
  by (auto simp: sum_hash_def nul_terminated_def contents_def sum_session_key key_letter_def IV_TYPE_def WRITE_UINT32_def)

end
