(* ===== verification/Keyexchange.thy ===== *)
theory Keyexchange
  imports Kex_Keys Parse Alist
begin

text \<open>
  The negotiation of algorithms in \<open>src/keyexchange.c\<close>: the \<open>KEXINIT\<close> message is parsed and formatted, and the algorithms are selected
  from the lists of both sides. The theorems
  show that a message that is formatted is parsed to the same lists, and that client and server agree on the
  result of the negotiation.
\<close>

section \<open>State\<close>

datatype kex_state = KEX_STATE_INIT | KEX_STATE_IGNORE | KEX_STATE_IN_PROGRESS | KEX_STATE_NEWKEYS

abbreviation (input) KEX_ENCRYPTION_CLIENT_TO_SERVER :: nat where "KEX_ENCRYPTION_CLIENT_TO_SERVER \<equiv> 0"
abbreviation (input) KEX_ENCRYPTION_SERVER_TO_CLIENT :: nat where "KEX_ENCRYPTION_SERVER_TO_CLIENT \<equiv> 1"
abbreviation (input) KEX_MAC_CLIENT_TO_SERVER :: nat where "KEX_MAC_CLIENT_TO_SERVER \<equiv> 2"
abbreviation (input) KEX_MAC_SERVER_TO_CLIENT :: nat where "KEX_MAC_SERVER_TO_CLIENT \<equiv> 3"
abbreviation (input) KEX_COMPRESSION_CLIENT_TO_SERVER :: nat where "KEX_COMPRESSION_CLIENT_TO_SERVER \<equiv> 4"
abbreviation (input) KEX_COMPRESSION_SERVER_TO_CLIENT :: nat where "KEX_COMPRESSION_SERVER_TO_CLIENT \<equiv> 5"
abbreviation (input) KEX_PARAMETERS :: nat where "KEX_PARAMETERS \<equiv> 6"
abbreviation (input) KEX_KEY_EXCHANGE :: nat where "KEX_KEY_EXCHANGE \<equiv> 6"
abbreviation (input) KEX_LIST_LENGTH :: nat where "KEX_LIST_LENGTH \<equiv> 7"

record kexinit =
  kx_cookie :: bytes
  kx_kex_algorithms :: "nat list"
  kx_server_hostkey_algorithms :: "nat list"
  kx_parameters :: "nat list list"
  kx_languages_client_to_server :: "nat list"
  kx_languages_server_to_client :: "nat list"
  kx_first_kex_packet_follows :: u32
  kx_first_kex_packet :: "lsh_string option"

text \<open>Of the arrays, index 0 is the client and index 1 the server.\<close>

record 'o kexinit_state =
  ks_read_state :: kex_state
  ks_write_state :: bool
  ks_version :: "lsh_string option list"
  ks_kexinit :: "kexinit option list"
  ks_literal_kexinit :: "lsh_string option list"
  ks_hostkey_algorithm :: nat
  ks_algorithm_list :: "'o option list option"

definition init_kexinit_state :: "'o kexinit_state" where
  "init_kexinit_state = \<lparr>ks_read_state = KEX_STATE_INIT, ks_write_state = False, ks_version = [None, None],
     ks_kexinit = [None, None], ks_literal_kexinit = [None, None], ks_hostkey_algorithm = 0, ks_algorithm_list = None\<rparr>"

definition reset_kexinit_state :: "'o kexinit_state \<Rightarrow> 'o kexinit_state" where
  "reset_kexinit_state self = self\<lparr>ks_read_state := KEX_STATE_INIT, ks_kexinit := [None, None],
     ks_literal_kexinit := [None, None], ks_hostkey_algorithm := 0, ks_algorithm_list := None\<rparr>"

definition format_newkeys :: "(nat \<Rightarrow> byte) \<Rightarrow> lsh_string option" where
  "format_newkeys junk = map_option fst (ssh_format no_bignum junk ''%c'' [Int_arg SSH_MSG_NEWKEYS])"

section \<open>The message\<close>

definition NLISTS :: nat where "NLISTS = 10"

definition KEXINIT_MAX_ALGORITMS :: nat where "KEXINIT_MAX_ALGORITMS = 500"

definition parse_kexinit :: "gperf_atom \<Rightarrow> u32 \<Rightarrow> bytes \<Rightarrow> kexinit option option" where
  "parse_kexinit gperf l packet =
     (case pand parse_uint8 (\<lambda>msg_number. if msg_number \<noteq> SSH_MSG_KEXINIT then pfail else parse_octets 16)
             (simple_buffer_init l packet) of
        (None, _) \<Rightarrow> Some None
      | (Some cookie, b) \<Rightarrow>
          do { (r, b) \<leftarrow> repeat_parser (parse_atom_list gperf KEXINIT_MAX_ALGORITMS) NLISTS b;
               (case r of
                  None \<Rightarrow> Some None
                | Some ls \<Rightarrow>
                    (case pand parse_boolean (\<lambda>follows. pand parse_uint32 (\<lambda>reserved. if reserved \<noteq> 0 then pfail else preturn follows)) b of
                       (None, _) \<Rightarrow> Some None
                     | (Some follows, b) \<Rightarrow>
                         if \<not> parse_eod b then Some None
                         else Some (Some \<lparr>kx_cookie = cookie, kx_kex_algorithms = ls ! 0, kx_server_hostkey_algorithms = ls ! 1,
                                kx_parameters = map (\<lambda>i. ls ! (2 + i)) [0..<KEX_PARAMETERS],
                                kx_languages_client_to_server = ls ! 8, kx_languages_server_to_client = ls ! 9,
                                kx_first_kex_packet_follows = follows, kx_first_kex_packet = None\<rparr>))) })"

definition format_kexinit :: "(nat \<Rightarrow> byte) \<Rightarrow> kexinit \<Rightarrow> lsh_string option" where
  "format_kexinit junk kex = map_option fst (ssh_format no_bignum junk ''%c%ls%A%A%A%A%A%A%A%A%A%A%c%i''
     [Int_arg SSH_MSG_KEXINIT, Int_arg 16, Data_arg (kx_cookie kex),
      List_arg (kx_kex_algorithms kex), List_arg (kx_server_hostkey_algorithms kex),
      List_arg (kx_parameters kex ! KEX_ENCRYPTION_CLIENT_TO_SERVER), List_arg (kx_parameters kex ! KEX_ENCRYPTION_SERVER_TO_CLIENT),
      List_arg (kx_parameters kex ! KEX_MAC_CLIENT_TO_SERVER), List_arg (kx_parameters kex ! KEX_MAC_SERVER_TO_CLIENT),
      List_arg (kx_parameters kex ! KEX_COMPRESSION_CLIENT_TO_SERVER), List_arg (kx_parameters kex ! KEX_COMPRESSION_SERVER_TO_CLIENT),
      List_arg (kx_languages_client_to_server kex), List_arg (kx_languages_server_to_client kex),
      Int_arg (kx_first_kex_packet_follows kex), Int_arg 0])"

section \<open>Selection\<close>

primrec int_list_member :: "nat list \<Rightarrow> nat \<Rightarrow> bool" where
  "int_list_member [] atom = False"
| "int_list_member (x # xs) atom = (if x = atom then True else int_list_member xs atom)"

primrec select_algorithm :: "nat list \<Rightarrow> nat list \<Rightarrow> nat" where
  "select_algorithm [] server_list = 0"
| "select_algorithm (a # client_list) server_list =
     (if a = 0 then select_algorithm client_list server_list
      else if int_list_member server_list a then a
      else select_algorithm client_list server_list)"

text \<open>The first element of a list, whose absence is an access outside the list.\<close>

definition list_first :: "nat list \<Rightarrow> nat option" where
  "list_first xs = (case xs of [] \<Rightarrow> None | x # _ \<Rightarrow> Some x)"

text \<open>The selection of \<open>handle_kexinit\<close>, once the messages of both sides are known; \<open>get\<close> is the table of algorithms.\<close>

definition select_algorithms ::
  "(int \<Rightarrow> 'o option option) \<Rightarrow> kexinit \<Rightarrow> kexinit \<Rightarrow> kexinit \<Rightarrow> 'o kexinit_state \<Rightarrow> (string option \<times> 'o kexinit_state) option" where
  "select_algorithms get client server msg self =
     do { c0 \<leftarrow> list_first (kx_kex_algorithms client);
          s0 \<leftarrow> list_first (kx_kex_algorithms server);
          let self = (if c0 \<noteq> s0 \<and> kx_first_kex_packet_follows msg \<noteq> 0
                      then self\<lparr>ks_read_state := KEX_STATE_IGNORE\<rparr> else self);
          let kex_algorithm_atom =
            (if c0 = s0 then c0 else select_algorithm (kx_kex_algorithms client) (kx_kex_algorithms server));
          if c0 \<noteq> s0 \<and> kex_algorithm_atom = 0 then Some (Some ''No common key exchange method'', self)
          else do {
            let hostkey = select_algorithm (kx_server_hostkey_algorithms client) (kx_server_hostkey_algorithms server);
            let self = self\<lparr>ks_hostkey_algorithm := hostkey\<rparr>;
            if hostkey = 0 then Some (Some ''No common hostkey algorithm'', self)
            else do {
              let parameter =
                map (\<lambda>i. select_algorithm (kx_parameters client ! i) (kx_parameters server ! i)) [0..<KEX_PARAMETERS];
              if 0 \<in> set parameter then Some (Some ''Algorithm negotiation failed'', self)
              else do {
                objects \<leftarrow> those (map (\<lambda>a. get (int a)) (parameter @ [kex_algorithm_atom]));
                Some (None, self\<lparr>ks_algorithm_list := Some objects\<rparr>) } } } }"

definition handle_kexinit ::
  "gperf_atom \<Rightarrow> (nat \<Rightarrow> byte) \<Rightarrow> 'o kexinit_state \<Rightarrow> u32 \<Rightarrow> bytes \<Rightarrow> (int \<Rightarrow> 'o option option) \<Rightarrow> bool \<Rightarrow>
   (string option \<times> 'o kexinit_state) option" where
  "handle_kexinit gperf junk self l packet get is_server =
     do { c_assert (ks_read_state self = KEX_STATE_INIT);
          let self = self\<lparr>ks_read_state := KEX_STATE_IN_PROGRESS\<rparr>;
          let peer = (if is_server then 0 else 1);
          msg \<leftarrow> parse_kexinit gperf l packet;
          (case msg of
             None \<Rightarrow> Some (Some ''Invalid KEXINIT message'', self)
           | Some msg \<Rightarrow>
               if kx_kex_algorithms msg = [] then Some (Some ''No keyexchange method'', self)
               else do {
                 (s, _) \<leftarrow> ssh_format no_bignum junk ''%ls'' [Int_arg l, Data_arg packet];
                 let self = self\<lparr>ks_literal_kexinit := (ks_literal_kexinit self)[peer := Some s],
                                 ks_kexinit := (ks_kexinit self)[peer := Some msg]\<rparr>;
                 client \<leftarrow> ks_kexinit self ! 0;
                 server \<leftarrow> ks_kexinit self ! 1;
                 select_algorithms get client server msg self }) }"

section \<open>Making a message\<close>

record kexinit_info =
  ki_kex_algorithms :: "nat list"
  ki_hostkey_algorithms :: "nat list"
  ki_crypto_algorithms :: "nat list"
  ki_mac_algorithms :: "nat list"
  ki_compression_algorithms :: "nat list"
  ki_languages :: "nat list"

definition make_kexinit :: "(nat \<Rightarrow> byte) \<Rightarrow> kexinit_info \<Rightarrow> kexinit" where
  "make_kexinit rnd self = \<lparr>kx_cookie = map rnd [0..<16], kx_kex_algorithms = ki_kex_algorithms self,
     kx_server_hostkey_algorithms = ki_hostkey_algorithms self,
     kx_parameters = [ki_crypto_algorithms self, ki_crypto_algorithms self, ki_mac_algorithms self, ki_mac_algorithms self,
       ki_compression_algorithms self, ki_compression_algorithms self],
     kx_languages_client_to_server = ki_languages self, kx_languages_server_to_client = ki_languages self,
     kx_first_kex_packet_follows = 0, kx_first_kex_packet = None\<rparr>"

section \<open>A message is read back\<close>

definition put_atoms :: "nat list \<Rightarrow> bytes" where
  "put_atoms as = put_string (join_comma (atom_names as))"

definition atoms_ok :: "nat list \<Rightarrow> bool" where
  "atoms_ok as \<longleftrightarrow> list_all known_atom as \<and> length as \<le> KEXINIT_MAX_ALGORITMS"

lemma length_join_comma_le: "(\<And>p. p \<in> set ps \<Longrightarrow> length p \<le> k) \<Longrightarrow> length (join_comma ps) \<le> length ps * Suc k"
proof (induction ps rule: join_comma.induct)
  case (3 p q ps)
  have "length p \<le> k" "length (join_comma (q # ps)) \<le> length (q # ps) * Suc k" using 3 by auto
  then show ?case by simp
qed (auto intro: le_SucI)

lemma atoms_ok_length:
  assumes "atoms_ok as"
  shows "length (join_comma (atom_names as)) \<le> 32500"
proof -
  have as: "list_all known_atom as" "length as \<le> 500" using assms by (simp_all add: atoms_ok_def KEXINIT_MAX_ALGORITMS_def)
  have "length (join_comma (atom_names as)) \<le> length (atom_names as) * Suc 64"
    using atom_names_shape(2) [OF as(1)] by (intro length_join_comma_le) auto
  moreover have "length (atom_names as) \<le> length as" by (simp add: atom_names_def)
  ultimately show ?thesis using as(2) by simp
qed

interpretation atom_list_field: wire_field put_atoms "parse_atom_list gperf KEXINIT_MAX_ALGORITMS" "\<lambda>as. gperf_spec gperf \<and> atoms_ok as"
  for gperf
proof
  fix as b rest assume as: "gperf_spec gperf \<and> atoms_ok as" and b: "buffer_ok b" "remaining b = put_atoms as @ rest"
  have "length (join_comma (atom_names as)) < 4294967296" using atoms_ok_length [of as] as by simp
  then show "\<exists>b'. parse_atom_list gperf KEXINIT_MAX_ALGORITMS b = Some (Some as, b') \<and> buffer_ok b' \<and> remaining b' = rest"
    using as b parse_atom_list_put [of gperf as KEXINIT_MAX_ALGORITMS b rest]
    by (simp add: atoms_ok_def put_atoms_def KEXINIT_MAX_ALGORITMS_def)
qed

definition kexinit_lists :: "kexinit \<Rightarrow> nat list list" where
  "kexinit_lists kex = [kx_kex_algorithms kex, kx_server_hostkey_algorithms kex] @ kx_parameters kex
     @ [kx_languages_client_to_server kex, kx_languages_server_to_client kex]"

definition kexinit_ok :: "kexinit \<Rightarrow> bool" where
  "kexinit_ok kex \<longleftrightarrow> length (kx_cookie kex) = 16 \<and> length (kx_parameters kex) = 6 \<and> list_all atoms_ok (kexinit_lists kex)
     \<and> kx_first_kex_packet_follows kex < 256 \<and> kx_first_kex_packet kex = None"

definition kexinit_wire :: "kexinit \<Rightarrow> bytes" where
  "kexinit_wire kex = [SSH_MSG_KEXINIT] @ kx_cookie kex @ concat (map put_atoms (kexinit_lists kex))
     @ [ucast (kx_first_kex_packet_follows kex)] @ WRITE_UINT32 0"

lemma list_of_six: "length xs = 6 \<Longrightarrow> xs = [xs ! 0, xs ! 1, xs ! 2, xs ! 3, xs ! 4, xs ! 5]"
  by (rule nth_equalityI) (auto simp: nth_Cons' less_Suc_eq numeral_eq_Suc)

lemma length_kexinit_wire:
  assumes "kexinit_ok kex"
  shows "length (kexinit_wire kex) < 4294967296"
proof -
  have "length (concat (map put_atoms xs)) \<le> length xs * 32504" if "list_all atoms_ok xs" for xs
    using that by (induction xs) (auto simp: put_atoms_def put_string_def dest!: atoms_ok_length)
  from this [of "kexinit_lists kex"] show ?thesis using assms by (auto simp: kexinit_ok_def kexinit_wire_def kexinit_lists_def)
qed

lemma scan_kexinit: "scan_format ''%c%ls%A%A%A%A%A%A%A%A%A%A%c%i'' = [Convert no_flags CHR ''c'', Convert (no_flags\<lparr>literal := True\<rparr>) CHR ''s'']
    @ replicate 10 (Convert no_flags CHR ''A'') @ [Convert no_flags CHR ''c'', Convert no_flags CHR ''i'']"
  by (simp add: numeral_eq_Suc no_flags_def)

lemma render_atoms:
  assumes "atoms_ok as"
  shows "render_directives nm hole (Convert no_flags CHR ''A'' # ds) pos (List_arg as # args)
    = map_option ((@) (put_atoms as)) (render_directives nm hole ds (pos + length (put_atoms as)) args)"
  using assms by (simp add: render_simps put_atoms_def put_string_def atoms_ok_def list_all_iff)

lemma render_atom_lists:
  "list_all atoms_ok ls \<Longrightarrow> render_directives nm hole (replicate (length ls) (Convert no_flags CHR ''A'') @ ds) pos (map List_arg ls @ args)
    = map_option ((@) (concat (map put_atoms ls))) (render_directives nm hole ds (pos + length (concat (map put_atoms ls))) args)"
proof (induction ls arbitrary: pos)
  case (Cons as ls)
  then show ?case by (simp add: render_atoms option.map_comp comp_def add.assoc del: render_directives.simps)
qed (simp add: append_Nil [abs_def] option.map_ident)

lemma format_kexinit_wire:
  assumes "kexinit_ok kex"
  shows "\<exists>s. format_kexinit junk kex = Some s \<and> nul_terminated s \<and> contents s = kexinit_wire kex"
proof -
  let ?p = "kx_parameters kex" and ?ls = "kexinit_lists kex" and ?A = "Convert no_flags CHR ''A''"
  let ?args = "[Int_arg 20, Int_arg 16, Data_arg (kx_cookie kex)] @ map List_arg ?ls @ [Int_arg (kx_first_kex_packet_follows kex), Int_arg 0]"
  let ?format = "''%c%ls%A%A%A%A%A%A%A%A%A%A%c%i''"
  have ok: "length (kx_cookie kex) = 16" "length ?p = 6" "list_all atoms_ok ?ls" using assms by (simp_all add: kexinit_ok_def)
  have ten: "length ?ls = 10" using ok(2) by (simp add: kexinit_lists_def)
  have p: "?p = [?p ! 0, ?p ! 1, ?p ! 2, ?p ! 3, ?p ! 4, ?p ! 5]" using ok(2) by (rule list_of_six)
  have "format_kexinit junk kex = map_option fst (ssh_format no_bignum junk ?format ?args)"
    using arg_cong [OF p, of "map List_arg"] by (simp add: format_kexinit_def kexinit_lists_def)
  moreover have "render_directives no_bignum junk (replicate 10 ?A @ [Convert no_flags CHR ''c'', Convert no_flags CHR ''i''])
      pos (map List_arg ?ls @ [Int_arg (kx_first_kex_packet_follows kex), Int_arg 0])
    = Some (concat (map put_atoms ?ls) @ [ucast (kx_first_kex_packet_follows kex)] @ WRITE_UINT32 0)" for pos
    unfolding ten [symmetric] render_atom_lists [OF ok(3)] by (simp add: render_simps)
  then have "render no_bignum junk ?format ?args = Some (kexinit_wire kex)"
    unfolding render_def scan_kexinit using ok(1) by (simp add: render_simps kexinit_wire_def)
  from ssh_format_total [OF this length_kexinit_wire [OF assms]]
  obtain s ps where "ssh_format no_bignum junk ?format ?args = Some (s, ps)" "nul_terminated s" "contents s = kexinit_wire kex" by blast
  ultimately show ?thesis by (intro exI [of _ s]) simp
qed

lemma ucast_byte_u32: "x < 256 \<Longrightarrow> ucast (ucast x :: byte) = (x :: u32)"
  by (simp add: u32_less word_unat_eq_iff unsigned_ucast_eq unsigned_take_bit_eq take_bit_nat_eq_self)

lemma buffer_of_data:
  assumes "unat l \<le> length data"
  shows "buffer_ok (simple_buffer_init l data)" "remaining (simple_buffer_init l data) = take (unat l) data"
  using assms by (simp_all add: buffer_ok_def simple_buffer_init_def remaining_def LEFT_def HERE_def)

lemma kexinit_of_lists:
  assumes "kexinit_ok kex" "ls = kexinit_lists kex"
  shows "\<lparr>kx_cookie = kx_cookie kex, kx_kex_algorithms = ls ! 0, kx_server_hostkey_algorithms = ls ! 1,
      kx_parameters = map (\<lambda>i. ls ! (2 + i)) [0..<KEX_PARAMETERS],
      kx_languages_client_to_server = ls ! 8, kx_languages_server_to_client = ls ! 9,
      kx_first_kex_packet_follows = kx_first_kex_packet_follows kex, kx_first_kex_packet = None\<rparr> = kex"
proof -
  have "length (kx_parameters kex) = 6" "kx_first_kex_packet kex = None" using assms(1) by (simp_all add: kexinit_ok_def)
  moreover have "map (\<lambda>i. ls ! (2 + i)) [0..<6] = kx_parameters kex"
    by (rule nth_equalityI) (auto simp: assms(2) kexinit_lists_def nth_append calculation(1))
  ultimately show ?thesis by (simp add: assms(2) kexinit_lists_def nth_append)
qed

lemma parse_kexinit_wire:
  assumes "gperf_spec gperf" "kexinit_ok kex" "take (unat l) packet = kexinit_wire kex" "unat l \<le> length packet"
  shows "parse_kexinit gperf l packet = Some (Some kex)"
proof -
  let ?ls = "kexinit_lists kex" and ?f = "kx_first_kex_packet_follows kex"
  have ok: "length (kx_cookie kex) = 16" "length (kx_parameters kex) = 6" "list_all atoms_ok ?ls" "?f < 256"
    using assms(2) by (simp_all add: kexinit_ok_def)
  have ten: "length ?ls = NLISTS" using ok(2) by (simp add: kexinit_lists_def NLISTS_def)
  let ?b = "simple_buffer_init l packet" and ?tail = "[ucast ?f] @ WRITE_UINT32 0 @ []"
  have b: "buffer_ok ?b" "remaining ?b = ([20] @ kx_cookie kex) @ concat (map put_atoms ?ls) @ ?tail"
    using buffer_of_data [OF assms(4)] assms(3) by (simp_all add: kexinit_wire_def)
  have "eats (pand parse_uint8 (\<lambda>m. if m \<noteq> 20 then pfail else parse_octets 16)) ([20] @ kx_cookie kex) (\<lambda>x. x = kx_cookie kex)"
    using ok(1) by (intro eats_pand [OF eats_uint8]) (simp add: eats_octets)
  then obtain b1 where b1: "pand parse_uint8 (\<lambda>m. if m \<noteq> 20 then pfail else parse_octets 16) ?b = (Some (kx_cookie kex), b1)"
      "buffer_ok b1" "remaining b1 = concat (map put_atoms ?ls) @ ?tail"
    using b unfolding eats_def by blast
  obtain b2 where b2: "repeat_parser (parse_atom_list gperf KEXINIT_MAX_ALGORITMS) NLISTS b1 = Some (Some ?ls, b2)"
      "buffer_ok b2" "remaining b2 = ?tail"
    using atom_list_field.repeat_put [of gperf ?ls, OF _ b1(2,3)] assms(1) ok(3) ten by (auto simp: list_all_iff)
  have "ucast (ucast ?f :: byte) = ?f" using ok(4) by (rule ucast_byte_u32)
  then have "eats (pand parse_boolean (\<lambda>f. pand parse_uint32 (\<lambda>r. if r \<noteq> 0 then pfail else preturn f))) ?tail (\<lambda>x. x = ?f)"
    by (intro eats_pand [OF eats_boolean] eats_pand [OF eats_uint32]) (simp add: eats_preturn)
  then obtain b3 where b3: "pand parse_boolean (\<lambda>f. pand parse_uint32 (\<lambda>r. if r \<noteq> 0 then pfail else preturn f)) b2 = (Some ?f, b3)"
      "buffer_ok b3" "remaining b3 = []"
    using b2 unfolding eats_def by (metis append_Nil2)
  then have "parse_eod b3" by (simp add: parse_eod_def LEFT_zero)
  then show ?thesis
    using b1(1) b2(1) b3(1) kexinit_of_lists [OF assms(2) refl] by (simp add: parse_kexinit_def)
qed

section \<open>What is negotiated\<close>

text \<open>The rule of the protocol: the first algorithm of the client that the server also has, for every list.\<close>

definition first_common :: "nat list \<Rightarrow> nat list \<Rightarrow> nat option" where
  "first_common cs ss = find (\<lambda>a. a \<noteq> 0 \<and> a \<in> set ss) cs"

definition negotiate :: "kexinit \<Rightarrow> kexinit \<Rightarrow> string + nat \<times> nat list" where
  "negotiate client server =
     (case first_common (kx_kex_algorithms client) (kx_kex_algorithms server) of
        None \<Rightarrow> Inl ''No common key exchange method''
      | Some kex \<Rightarrow>
          (case first_common (kx_server_hostkey_algorithms client) (kx_server_hostkey_algorithms server) of
             None \<Rightarrow> Inl ''No common hostkey algorithm''
           | Some hostkey \<Rightarrow>
               (case those (map (\<lambda>i. first_common (kx_parameters client ! i) (kx_parameters server ! i)) [0..<KEX_PARAMETERS]) of
                  None \<Rightarrow> Inl ''Algorithm negotiation failed''
                | Some parameters \<Rightarrow> Inr (hostkey, parameters @ [kex]))))"

lemma int_list_member_set: "int_list_member xs a \<longleftrightarrow> a \<in> set xs"
  by (induction xs) auto

lemma select_algorithm_first: "select_algorithm cs ss = (case first_common cs ss of None \<Rightarrow> 0 | Some a \<Rightarrow> a)"
  by (induction cs) (auto simp: first_common_def int_list_member_set)

lemma first_common_SomeD: "first_common cs ss = Some a \<Longrightarrow> a \<noteq> 0 \<and> a \<in> set cs \<and> a \<in> set ss"
  by (auto simp: first_common_def find_Some_iff)

lemma select_algorithm_zero: "select_algorithm cs ss = 0 \<longleftrightarrow> first_common cs ss = None"
  by (auto simp: select_algorithm_first split: option.splits dest: first_common_SomeD)

lemma select_first: "c \<noteq> 0 \<Longrightarrow> first_common (c # cs) (c # ss) = Some c"
  by (simp add: first_common_def)

lemma those_select:
  "those (map (\<lambda>i. first_common (f i) (g i)) is) =
    (if 0 \<in> set (map (\<lambda>i. select_algorithm (f i) (g i)) is) then None else Some (map (\<lambda>i. select_algorithm (f i) (g i)) is))"
proof (induction "is")
  case (Cons i "is")
  then show ?case by (cases "first_common (f i) (g i)") (auto simp: select_algorithm_first dest: first_common_SomeD)
qed simp

lemma those_Some: "list_all (\<lambda>a. get a = Some (f a)) as \<Longrightarrow> those (map get as) = Some (map f as)"
  by (induction as) auto

lemma format_literal:
  assumes "unat l \<le> length data"
  shows "\<exists>s ps. ssh_format no_bignum junk ''%ls'' [Int_arg l, Data_arg data] = Some (s, ps) \<and> nul_terminated s \<and> contents s = take (unat l) data"
proof -
  have "render no_bignum junk ''%ls'' [Int_arg l, Data_arg data] = Some (take (unat l) data)" using assms by (simp add: render_simps)
  moreover have "length (take (unat l) data) < 4294967296" using assms unat_u32_bound [of l] by (simp del: unat_u32_bound)
  ultimately show ?thesis using ssh_format_total by blast
qed

text \<open>The algorithm of both first places, which is used without a look at the rest of the lists, is what the rule selects.\<close>

lemma kex_atom_first_common:
  assumes "list_first cs = Some c" "list_first ss = Some s" "c \<noteq> 0 \<or> s \<noteq> 0"
  shows "first_common cs ss =
    (if c \<noteq> s \<and> (if c = s then c else select_algorithm cs ss) = 0 then None else Some (if c = s then c else select_algorithm cs ss))"
proof -
  obtain cs' ss' where [simp]: "cs = c # cs'" "ss = s # ss'" using assms(1,2) by (auto simp: list_first_def split: list.splits)
  show ?thesis
  proof (cases "c = s")
    case True
    then show ?thesis using assms(3) by (simp add: select_first)
  next
    case False
    then show ?thesis
      using select_algorithm_zero [of cs ss] select_algorithm_first [of cs ss] by (cases "first_common cs ss") auto
  qed
qed

text \<open>The part of the handler after both messages are known.\<close>

definition agreed :: "'o kexinit_state \<Rightarrow> (nat \<Rightarrow> 'o option) \<Rightarrow> string + nat \<times> nat list \<Rightarrow> string option \<Rightarrow> bool" where
  "agreed self f r error \<longleftrightarrow> (case r of
       Inl e \<Rightarrow> error = Some e
     | Inr (h, as) \<Rightarrow> error = None \<and> ks_hostkey_algorithm self = h \<and> ks_algorithm_list self = Some (map f as))"

definition both :: "bool \<Rightarrow> kexinit \<Rightarrow> kexinit \<Rightarrow> kexinit \<times> kexinit" where
  "both is_server mine msg = (if is_server then (msg, mine) else (mine, msg))"

text \<open>A table of algorithms answers for every atom.\<close>

definition algorithm_table :: "(int \<Rightarrow> 'o option option) \<Rightarrow> (nat \<Rightarrow> 'o option) \<Rightarrow> bool" where
  "algorithm_table get f \<longleftrightarrow> (\<forall>a. known_atom a \<longrightarrow> get (int a) = Some (f a))"

lemma negotiated_known:
  assumes "negotiate client server = Inr (h, as)" "list_all atoms_ok (kexinit_lists mine)" "length (kx_parameters mine) = 6"
    and "mine = client \<or> mine = server"
  shows "list_all known_atom as"
proof -
  obtain k ps where k: "first_common (kx_kex_algorithms client) (kx_kex_algorithms server) = Some k" "as = ps @ [k]"
      "those (map (\<lambda>i. first_common (kx_parameters client ! i) (kx_parameters server ! i)) [0..<6]) = Some ps"
    using assms(1) by (auto simp: negotiate_def split: option.splits)
  have ok: "\<And>l. l \<in> set (kexinit_lists mine) \<Longrightarrow> list_all known_atom l" using assms(2) by (simp add: list_all_iff atoms_ok_def)
  have "known_atom k" using ok [of "kx_kex_algorithms mine"] first_common_SomeD [OF k(1)] assms(4) by (auto simp: kexinit_lists_def list_all_iff)
  moreover have "known_atom a" if a: "a \<in> set ps" for a
  proof -
    have ps: "ps = map (\<lambda>i. select_algorithm (kx_parameters client ! i) (kx_parameters server ! i)) [0..<6]" "0 \<notin> set ps"
      using k(3) unfolding those_select by (metis option.distinct(1) option.inject)+
    have "a \<noteq> 0" using a ps(2) by metis
    moreover obtain i where i: "i < 6" "a = select_algorithm (kx_parameters client ! i) (kx_parameters server ! i)"
      using a unfolding ps(1) by auto
    ultimately have "first_common (kx_parameters client ! i) (kx_parameters server ! i) = Some a"
      by (auto simp: select_algorithm_first split: option.splits)
    moreover have "list_all known_atom (kx_parameters mine ! i)"
      using i(1) assms(3) by (intro ok) (simp add: kexinit_lists_def)
    ultimately show ?thesis using assms(4) first_common_SomeD by (fastforce simp: list_all_iff)
  qed
  ultimately show ?thesis using k(2) by (simp add: list_all_iff)
qed

lemma select_algorithms_negotiates:
  assumes c: "list_first (kx_kex_algorithms client) = Some c0" "list_first (kx_kex_algorithms server) = Some s0" "c0 \<noteq> 0 \<or> s0 \<noteq> 0"
    and get: "\<forall>h as. negotiate client server = Inr (h, as) \<longrightarrow> list_all (\<lambda>a. get (int a) = Some (f a)) as"
  shows "\<exists>error self'. select_algorithms get client server msg self = Some (error, self') \<and> agreed self' f (negotiate client server) error
    \<and> ks_kexinit self' = ks_kexinit self \<and> ks_literal_kexinit self' = ks_literal_kexinit self
    \<and> ks_read_state self' = (if c0 \<noteq> s0 \<and> kx_first_kex_packet_follows msg \<noteq> 0 then KEX_STATE_IGNORE else ks_read_state self)"
proof -
  define K where "K = (if c0 = s0 then c0 else select_algorithm (kx_kex_algorithms client) (kx_kex_algorithms server))"
  define h where "h = select_algorithm (kx_server_hostkey_algorithms client) (kx_server_hostkey_algorithms server)"
  define p where "p = map (\<lambda>i. select_algorithm (kx_parameters client ! i) (kx_parameters server ! i)) [0..<KEX_PARAMETERS]"
  define S where "S = (if c0 \<noteq> s0 \<and> kx_first_kex_packet_follows msg \<noteq> 0 then self\<lparr>ks_read_state := KEX_STATE_IGNORE\<rparr> else self)"
  have S: "ks_kexinit S = ks_kexinit self" "ks_literal_kexinit S = ks_literal_kexinit self"
      "ks_read_state S = (if c0 \<noteq> s0 \<and> kx_first_kex_packet_follows msg \<noteq> 0 then KEX_STATE_IGNORE else ks_read_state self)"
    by (simp_all add: S_def)
  have neg: "negotiate client server = (if c0 \<noteq> s0 \<and> K = 0 then Inl ''No common key exchange method''
      else if h = 0 then Inl ''No common hostkey algorithm'' else if 0 \<in> set p then Inl ''Algorithm negotiation failed'' else Inr (h, p @ [K]))"
    using kex_atom_first_common [OF c, folded K_def] select_algorithm_zero [of "kx_server_hostkey_algorithms client" "kx_server_hostkey_algorithms server", folded h_def]
      select_algorithm_first [of "kx_server_hostkey_algorithms client" "kx_server_hostkey_algorithms server", folded h_def]
    unfolding negotiate_def those_select p_def [symmetric] by (simp split: option.split)
  have sel: "select_algorithms get client server msg self =
     (if c0 \<noteq> s0 \<and> K = 0 then Some (Some ''No common key exchange method'', S)
      else if h = 0 then Some (Some ''No common hostkey algorithm'', S\<lparr>ks_hostkey_algorithm := h\<rparr>)
      else if 0 \<in> set p then Some (Some ''Algorithm negotiation failed'', S\<lparr>ks_hostkey_algorithm := h\<rparr>)
      else do { objects \<leftarrow> those (map (\<lambda>a. get (int a)) (p @ [K]));
                Some (None, S\<lparr>ks_hostkey_algorithm := h, ks_algorithm_list := Some objects\<rparr>) })"
    unfolding select_algorithms_def K_def h_def p_def S_def using c(1,2) by (simp only: Let_def option.simps bind.bind_lunit)
  have "those (map (\<lambda>a. get (int a)) (p @ [K])) = Some (map f (p @ [K]))" if "\<not> (c0 \<noteq> s0 \<and> K = 0)" "h \<noteq> 0" "0 \<notin> set p"
    using get [rule_format, of h "p @ [K]"] that by (intro those_Some) (simp add: neg)
  then show ?thesis unfolding sel neg agreed_def by (auto simp: S)
qed

lemma handle_kexinit_negotiates:
  assumes state: "ks_read_state self = KEX_STATE_INIT" "length (ks_kexinit self) = 2" "length (ks_literal_kexinit self) = 2"
    and mine: "ks_kexinit self ! (if is_server then 1 else 0) = Some mine" "kexinit_ok mine" "kx_kex_algorithms mine \<noteq> []"
    and msg: "parse_kexinit gperf l packet = Some (Some msg)" "kx_kex_algorithms msg \<noteq> []" "unat l \<le> length packet"
    and get: "algorithm_table get f"
  shows "\<exists>error self'. handle_kexinit gperf junk self l packet get is_server = Some (error, self')
    \<and> agreed self' f (case_prod negotiate (both is_server mine msg)) error
    \<and> ks_kexinit self' = (ks_kexinit self)[(if is_server then 0 else 1) := Some msg]
    \<and> (\<exists>s. ks_literal_kexinit self' ! (if is_server then 0 else 1) = Some s \<and> contents s = take (unat l) packet)
    \<and> ks_read_state self' = (if hd (kx_kex_algorithms mine) \<noteq> hd (kx_kex_algorithms msg) \<and> kx_first_kex_packet_follows msg \<noteq> 0
         then KEX_STATE_IGNORE else KEX_STATE_IN_PROGRESS)"
proof -
  obtain client server where cs: "both is_server mine msg = (client, server)" by force
  let ?peer = "if is_server then 0 else 1 :: nat"
  obtain s ps where s: "ssh_format no_bignum junk ''%ls'' [Int_arg l, Data_arg packet] = Some (s, ps)" "contents s = take (unat l) packet"
    using format_literal [OF msg(3)] by blast
  let ?self = "self\<lparr>ks_read_state := KEX_STATE_IN_PROGRESS, ks_literal_kexinit := (ks_literal_kexinit self)[?peer := Some s],
    ks_kexinit := (ks_kexinit self)[?peer := Some msg]\<rparr>"
  have k: "ks_kexinit ?self ! 0 = Some client" "ks_kexinit ?self ! 1 = Some server"
    using state(2) mine(1) cs by (auto simp: both_def split: if_splits)
  have m0: "hd (kx_kex_algorithms mine) \<noteq> 0"
    using mine(2,3) by (cases "kx_kex_algorithms mine") (auto simp: kexinit_ok_def kexinit_lists_def atoms_ok_def known_atom_def)
  obtain c0 s0 where c: "list_first (kx_kex_algorithms client) = Some c0" "list_first (kx_kex_algorithms server) = Some s0"
      "c0 \<noteq> 0 \<or> s0 \<noteq> 0" "c0 \<noteq> s0 \<longleftrightarrow> hd (kx_kex_algorithms mine) \<noteq> hd (kx_kex_algorithms msg)"
    using mine(3) msg(2) m0 cs unfolding both_def list_first_def by (auto split: if_splits list.splits simp: neq_Nil_conv)
  have known: "\<forall>h as. negotiate client server = Inr (h, as) \<longrightarrow> list_all (\<lambda>a. get (int a) = Some (f a)) as"
    using negotiated_known [of client server _ _ mine] mine(2) get cs by (auto simp: algorithm_table_def kexinit_ok_def both_def list_all_iff split: if_splits)
  from select_algorithms_negotiates [OF c(1-3) known, of msg ?self]
  obtain error self' where r: "select_algorithms get client server msg ?self = Some (error, self')" "agreed self' f (negotiate client server) error"
      "ks_kexinit self' = ks_kexinit ?self" "ks_literal_kexinit self' = ks_literal_kexinit ?self"
      "ks_read_state self' = (if c0 \<noteq> s0 \<and> kx_first_kex_packet_follows msg \<noteq> 0 then KEX_STATE_IGNORE else KEX_STATE_IN_PROGRESS)" by auto
  have "handle_kexinit gperf junk self l packet get is_server = Some (error, self')"
    using state msg(1,2) s(1) k r(1) by (simp add: handle_kexinit_def)
  then show ?thesis using r(2-5) cs s(2) c(4) state(3) by auto
qed

section \<open>Any message is handled\<close>

lemma parse_string_inside:
  assumes "buffer_ok b" "parse_string b = (Some (l, start), b')"
  shows "unat l \<le> length start" "buffer_ok b'"
proof -
  have "buffer_ok (snd (parse_string b))" using stays_inside_string assms(1) unfolding stays_inside_def by blast
  then show "buffer_ok b'" using assms(2) by simp
  obtain b1 where b1: "parse_uint32 b = (Some l, b1)" "\<not> LEFT b1 < l" "start = HERE b1"
    using assms(2) by (auto simp: parse_string_def pand_def split: prod.splits option.splits if_splits)
  have "buffer_ok (snd (parse_uint32 b))" using stays_inside_uint32 assms(1) unfolding stays_inside_def by blast
  then have "buffer_ok b1" using b1(1) by simp
  then show "unat l \<le> length start"
    using b1(2,3) length_HERE [of b1] LEFT_length [of b1] by (simp add: u32_less)
qed

lemma parse_atom_list_total:
  assumes "buffer_ok b" "limit \<noteq> 0"
  shows "\<exists>r b'. parse_atom_list gperf limit b = Some (r, b') \<and> buffer_ok b'"
proof (cases "parse_string b")
  case (Pair r b')
  have b': "buffer_ok b'" using stays_inside_string assms(1) Pair unfolding stays_inside_def by (metis snd_conv)
  show ?thesis
  proof (cases r)
    case None
    then show ?thesis using Pair b' by (simp add: parse_atom_list_def parse_sub_buffer_def pand_def)
  next
    case (Some p)
    obtain l start where p: "p = (l, start)" by force
    have "buffer_ok (simple_buffer_init l start)" using parse_string_inside(1) [OF assms(1)] Pair Some p buffer_of_data(1) by blast
    from parse_atoms_pieces [OF this assms(2), of gperf]
    show ?thesis using Pair Some p b' by (auto simp: parse_atom_list_def parse_sub_buffer_def pand_def preturn_def)
  qed
qed

lemma repeat_parser_total:
  assumes "\<And>b. buffer_ok b \<Longrightarrow> \<exists>r b'. get b = Some (r, b') \<and> buffer_ok b'"
  shows "buffer_ok b \<Longrightarrow> \<exists>r b'. repeat_parser get n b = Some (r, b') \<and> buffer_ok b'"
proof (induction n arbitrary: b)
  case (Suc n)
  obtain r b1 where r: "get b = Some (r, b1)" "buffer_ok b1" using assms [OF Suc.prems] by blast
  then show ?case using Suc.IH [of b1] by (cases r) auto
qed simp

lemma parse_kexinit_total:
  assumes "unat l \<le> length packet"
  shows "\<exists>r. parse_kexinit gperf l packet = Some r"
proof -
  let ?start = "pand parse_uint8 (\<lambda>m. if m \<noteq> 20 then pfail else parse_octets 16)"
  have "stays_inside (parse_octets 16)" "stays_inside parse_uint8"
    by (simp_all add: parse_octets_def [abs_def] parse_uint8_def [abs_def] stays_inside_take stays_inside_take1)
  then have "stays_inside ?start"
    by (intro stays_inside_pand) (auto simp: pfail_def intro: stays_inside_same)
  then have ok: "buffer_ok (snd (?start (simple_buffer_init l packet)))"
    using buffer_of_data(1) [OF assms] unfolding stays_inside_def by blast
  obtain c b where b: "?start (simple_buffer_init l packet) = (c, b)" by force
  have "\<exists>r b'. repeat_parser (parse_atom_list gperf KEXINIT_MAX_ALGORITMS) NLISTS b = Some (r, b') \<and> buffer_ok b'"
    using ok b by (intro repeat_parser_total parse_atom_list_total) (simp_all add: KEXINIT_MAX_ALGORITMS_def)
  then obtain r b' where r: "repeat_parser (parse_atom_list gperf KEXINIT_MAX_ALGORITMS) NLISTS b = Some (r, b')" by blast
  show ?thesis unfolding parse_kexinit_def b
    by (cases c; cases r) (simp_all add: r split: prod.split option.split)
qed

text \<open>What the handler does with a packet, given the lists of this side.\<close>

definition handled ::
  "bool \<Rightarrow> kexinit \<Rightarrow> bytes \<Rightarrow> (nat \<Rightarrow> 'o option) \<Rightarrow> 'o kexinit_state \<Rightarrow> kexinit option \<Rightarrow> string option \<Rightarrow> 'o kexinit_state \<Rightarrow> bool" where
  "handled is_server mine packet f self r error self' \<longleftrightarrow> (case r of
       None \<Rightarrow> error = Some ''Invalid KEXINIT message''
     | Some msg \<Rightarrow>
         if kx_kex_algorithms msg = [] then error = Some ''No keyexchange method''
         else agreed self' f (case_prod negotiate (both is_server mine msg)) error
           \<and> ks_kexinit self' = (ks_kexinit self)[(if is_server then 0 else 1) := Some msg]
           \<and> (\<exists>s. ks_literal_kexinit self' ! (if is_server then 0 else 1) = Some s \<and> contents s = packet)
           \<and> ks_read_state self' = (if hd (kx_kex_algorithms mine) \<noteq> hd (kx_kex_algorithms msg) \<and> kx_first_kex_packet_follows msg \<noteq> 0
                then KEX_STATE_IGNORE else KEX_STATE_IN_PROGRESS))"

definition kexinit_sent :: "'o kexinit_state \<Rightarrow> bool \<Rightarrow> kexinit \<Rightarrow> bool" where
  "kexinit_sent self is_server mine \<longleftrightarrow> ks_read_state self = KEX_STATE_INIT \<and> length (ks_kexinit self) = 2 \<and> length (ks_literal_kexinit self) = 2
     \<and> ks_kexinit self ! (if is_server then 1 else 0) = Some mine \<and> kexinit_ok mine \<and> kx_kex_algorithms mine \<noteq> []"

lemma handle_kexinit_any:
  assumes "kexinit_sent self is_server mine" "unat l \<le> length packet" "algorithm_table get f"
  shows "\<exists>r error self'. parse_kexinit gperf l packet = Some r \<and> handle_kexinit gperf junk self l packet get is_server = Some (error, self')
    \<and> handled is_server mine (take (unat l) packet) f self r error self'"
proof -
  have sent: "ks_read_state self = KEX_STATE_INIT" "length (ks_kexinit self) = 2" "length (ks_literal_kexinit self) = 2"
      "ks_kexinit self ! (if is_server then 1 else 0) = Some mine" "kexinit_ok mine" "kx_kex_algorithms mine \<noteq> []"
    using assms(1) by (simp_all add: kexinit_sent_def)
  obtain r where r: "parse_kexinit gperf l packet = Some r" using parse_kexinit_total [OF assms(2)] by blast
  show ?thesis
  proof (cases "r = None \<or> kx_kex_algorithms (the r) = []")
    case True
    then show ?thesis using sent(1) r by (cases r) (simp_all add: handled_def handle_kexinit_def)
  next
    case False
    then obtain msg where msg: "r = Some msg" "kx_kex_algorithms msg \<noteq> []" by auto
    from handle_kexinit_negotiates [OF sent r [unfolded msg(1)] msg(2) assms(2,3), of junk]
    show ?thesis using r msg by (simp add: handled_def)
  qed
qed

lemma linear_algorithm_table: "linear_inv a \<Longrightarrow> algorithm_table (do_linear_get a) (\<lambda>k. al_table a ! k)"
  by (simp add: algorithm_table_def do_linear_get_def known_atom_def)

section \<open>An example\<close>

definition example_kexinit :: "nat list \<Rightarrow> kexinit" where
  "example_kexinit kex = make_kexinit (\<lambda>_. 7) \<lparr>ki_kex_algorithms = kex, ki_hostkey_algorithms = [5], ki_crypto_algorithms = [14, 13],
     ki_mac_algorithms = [6], ki_compression_algorithms = [1, 2], ki_languages = []\<rparr>"

definition example_table :: "nat alist_linear" where
  "example_table = \<lparr>al_table = map Some [0..<NUMBER_OF_ATOMS]\<rparr>"

lemma example_table: "algorithm_table (do_linear_get example_table) Some"
  by (simp add: algorithm_table_def do_linear_get_def known_atom_def example_table_def)

lemma example_kexinit_ok: "list_all known_atom kex \<Longrightarrow> length kex \<le> 500 \<Longrightarrow> kexinit_ok (example_kexinit kex)"
  by (simp add: example_kexinit_def make_kexinit_def kexinit_ok_def kexinit_lists_def atoms_ok_def KEXINIT_MAX_ALGORITMS_def known_atom_def
      NUMBER_OF_ATOMS_def atoms_in_def)

lemma example_atoms: "list_all known_atom [3, 4]" "list_all known_atom [4, 3]"
  by (simp_all add: known_atom_def NUMBER_OF_ATOMS_def atoms_in_def)

lemma example_sent:
  "kexinit_sent (init_kexinit_state\<lparr>ks_kexinit := [Some (example_kexinit [3, 4]), None]\<rparr>) False (example_kexinit [3, 4])"
  "kexinit_sent (init_kexinit_state\<lparr>ks_kexinit := [None, Some (example_kexinit [4, 3])]\<rparr>) True (example_kexinit [4, 3])"
  using example_kexinit_ok [OF example_atoms(1)] example_kexinit_ok [OF example_atoms(2)]
  by (simp_all add: kexinit_sent_def init_kexinit_state_def) (simp_all add: example_kexinit_def make_kexinit_def)

lemma example_negotiate: "negotiate (example_kexinit [3, 4]) (example_kexinit [4, 3]) = Inr (5, [14, 14, 6, 6, 1, 1, 3])"
  by (simp add: negotiate_def first_common_def example_kexinit_def make_kexinit_def numeral_eq_Suc)

text \<open>C10 (negotiation). Whatever packet arrives while this side has sent its lists, the handler returns. A malformed message and a message without
  key exchange algorithms are reported as such; any other message is recorded, with its bytes, and the result of the negotiation is that of
  the protocol: the first algorithm of the client that the server supports, for each list, or an error when some list
  has none. The next packet is ignored exactly when the guess of the peer was announced and wrong.\<close>

theorem handle_kexinit_correct:
  assumes "kexinit_sent self is_server mine" "unat l \<le> length packet" "algorithm_table get f"
  shows "\<exists>r error self'. parse_kexinit gperf l packet = Some r \<and> handle_kexinit gperf junk self l packet get is_server = Some (error, self')
    \<and> handled is_server mine (take (unat l) packet) f self r error self'"
  using assms by (rule handle_kexinit_any)

theorem handle_kexinit_correct_witness:
  "\<exists>r error self'. parse_kexinit (\<lambda>_. None) 3 [20, 0, 0] = Some r
    \<and> handle_kexinit (\<lambda>_. None) (\<lambda>_. 0) (init_kexinit_state\<lparr>ks_kexinit := [Some (example_kexinit [3, 4]), None]\<rparr>) 3 [20, 0, 0]
        (do_linear_get example_table) False = Some (error, self')
    \<and> handled False (example_kexinit [3, 4]) [20, 0, 0] Some
        (init_kexinit_state\<lparr>ks_kexinit := [Some (example_kexinit [3, 4]), None]\<rparr>) r error self'"
  using handle_kexinit_correct [OF example_sent(1) _ example_table, of 3 "[20, 0, 0]" "\<lambda>_. None" "\<lambda>_. 0"] by simp

text \<open>C17 (round trip). A message that is formatted is parsed to the same lists, cookie and flag.\<close>

theorem kexinit_roundtrip:
  assumes "gperf_spec gperf" "kexinit_ok kex"
  shows "\<exists>s. format_kexinit junk kex = Some s \<and> parse_kexinit gperf (lsh_string_length s) (lsh_string_data s) = Some (Some kex)"
proof -
  obtain s where s: "format_kexinit junk kex = Some s" "nul_terminated s" "contents s = kexinit_wire kex"
    using format_kexinit_wire [OF assms(2)] by blast
  then show ?thesis
    using parse_kexinit_wire [OF assms, of "lsh_string_length s" "lsh_string_data s"] contents_data [OF s(2)] nul_terminated_length [OF s(2)]
    by (simp add: lsh_string_length_def lsh_string_data_def)
qed

theorem kexinit_roundtrip_witness:
  "\<exists>s. format_kexinit (\<lambda>_. 0) (example_kexinit [3, 4]) = Some s
    \<and> parse_kexinit (map_of gperf_input) (lsh_string_length s) (lsh_string_data s) = Some (Some (example_kexinit [3, 4]))"
  using kexinit_roundtrip [OF gperf_spec_input example_kexinit_ok [OF example_atoms(1)]] by simp

lemma handle_formatted:
  assumes "gperf_spec gperf" "kexinit_sent self is_server mine" "kexinit_ok msg" "kx_kex_algorithms msg \<noteq> []" "format_kexinit junk msg = Some s"
    and get: "algorithm_table get f"
  shows "\<exists>error self'. handle_kexinit gperf junk' self (lsh_string_length s) (lsh_string_data s) get is_server = Some (error, self')
    \<and> agreed self' f (case_prod negotiate (both is_server mine msg)) error
    \<and> (\<exists>t. ks_literal_kexinit self' ! (if is_server then 0 else 1) = Some t \<and> contents t = contents s)"
proof -
  have s: "nul_terminated s" "contents s = kexinit_wire msg" using format_kexinit_wire [OF assms(3), of junk] assms(5) by auto
  have l: "unat (lsh_string_length s) \<le> length (lsh_string_data s)" "take (unat (lsh_string_length s)) (lsh_string_data s) = contents s"
    using contents_data [OF s(1)] nul_terminated_length [OF s(1)] by (simp_all add: lsh_string_length_def lsh_string_data_def)
  have "parse_kexinit gperf (lsh_string_length s) (lsh_string_data s) = Some (Some msg)"
    using parse_kexinit_wire [OF assms(1,3)] l s(2) by simp
  then show ?thesis using handle_kexinit_any [OF assms(2) l(1) get, of gperf junk'] assms(4) l(2) by (auto simp: handled_def)
qed

text \<open>C6 (agreement). When client and server each handle the message that the other formatted, both report the same error or both
  select the same algorithms, each in its own table; and each has recorded the bytes that the other sent, which enter the exchange hash.\<close>

theorem negotiation_agreement:
  assumes "gperf_spec gperf" "kexinit_sent c False kc" "kexinit_sent d True ks"
    and "format_kexinit junk1 kc = Some mc" "format_kexinit junk2 ks = Some ms"
    and "algorithm_table getc fc" "algorithm_table gets fs"
  shows "\<exists>error c' d'. handle_kexinit gperf junk3 c (lsh_string_length ms) (lsh_string_data ms) getc False = Some (error, c')
    \<and> handle_kexinit gperf junk4 d (lsh_string_length mc) (lsh_string_data mc) gets True = Some (error, d')
    \<and> agreed c' fc (negotiate kc ks) error \<and> agreed d' fs (negotiate kc ks) error
    \<and> (\<exists>s t. ks_literal_kexinit c' ! 1 = Some s \<and> contents s = contents ms \<and> ks_literal_kexinit d' ! 0 = Some t \<and> contents t = contents mc)"
proof -
  have ok: "kexinit_ok kc" "kexinit_ok ks" "kx_kex_algorithms kc \<noteq> []" "kx_kex_algorithms ks \<noteq> []"
    using assms(2,3) by (simp_all add: kexinit_sent_def)
  have same: "e = e'" if "agreed c' fc (negotiate kc ks) e" "agreed d' fs (negotiate kc ks) e'" for e e' c' d'
    using that by (auto simp: agreed_def split: sum.splits prod.splits)
  show ?thesis
    using handle_formatted [OF assms(1,2) ok(2,4) assms(5,6), of junk3] handle_formatted [OF assms(1,3) ok(1,3) assms(4,7), of junk4] same by (fastforce simp: both_def)
qed

theorem negotiation_agreement_witness:
  "\<exists>mc ms c' d'. format_kexinit (\<lambda>_. 0) (example_kexinit [3, 4]) = Some mc \<and> format_kexinit (\<lambda>_. 0) (example_kexinit [4, 3]) = Some ms
    \<and> handle_kexinit (map_of gperf_input) (\<lambda>_. 0) (init_kexinit_state\<lparr>ks_kexinit := [Some (example_kexinit [3, 4]), None]\<rparr>)
        (lsh_string_length ms) (lsh_string_data ms) (do_linear_get example_table) False = Some (None, c')
    \<and> handle_kexinit (map_of gperf_input) (\<lambda>_. 0) (init_kexinit_state\<lparr>ks_kexinit := [None, Some (example_kexinit [4, 3])]\<rparr>)
        (lsh_string_length mc) (lsh_string_data mc) (do_linear_get example_table) True = Some (None, d')
    \<and> ks_algorithm_list c' = Some (map Some [14, 14, 6, 6, 1, 1, 3]) \<and> ks_algorithm_list d' = Some (map Some [14, 14, 6, 6, 1, 1, 3])"
proof -
  obtain mc ms where m: "format_kexinit (\<lambda>_. 0) (example_kexinit [3, 4]) = Some mc" "format_kexinit (\<lambda>_. 0) (example_kexinit [4, 3]) = Some ms"
    using format_kexinit_wire [OF example_kexinit_ok [OF example_atoms(1)]] format_kexinit_wire [OF example_kexinit_ok [OF example_atoms(2)]] by force
  show ?thesis
    using negotiation_agreement [OF gperf_spec_input example_sent m example_table example_table, of "\<lambda>_. 0" "\<lambda>_. 0"] m
    unfolding example_negotiate agreed_def by auto
qed

end
