(* ===== verification/Kex_Finish.thy ===== *)
theory Kex_Finish
  imports Keyexchange
begin

text \<open>
  The last part of \<open>src/keyexchange.c\<close>: from the selected algorithms and the shared secret, ciphers, authentication codes and compression
  for both directions are made.
\<close>

section \<open>Algorithms\<close>

text \<open>The objects in a list of selected algorithms, with \<open>mac_algorithm\<close> of the theory on ciphers; the methods of the classes of nettle and zlib are fields. The method of a key
  exchange algorithm is a parameter of its users.\<close>

datatype crypt_mode = CRYPTO_ENCRYPT | CRYPTO_DECRYPT

record 'c crypto_algorithm =
  ca_block_size :: u32
  ca_key_size :: u32
  ca_iv_size :: u32
  ca_make_crypt :: "crypt_mode \<Rightarrow> bytes \<Rightarrow> bytes option \<Rightarrow> 'c crypto_instance option"

datatype compress_mode = COMPRESS_DEFLATE | COMPRESS_INFLATE

record 'z compress_algorithm =
  za_make_compress :: "compress_mode \<Rightarrow> 'z zlib_instance option"

datatype ('c, 'm, 'z, 'k) algorithm =
    Crypto_algorithm "'c crypto_algorithm"
  | Mac_algorithm "'m mac_algorithm"
  | Compress_algorithm "'z compress_algorithm"
  | Keyexchange_algorithm 'k

text \<open>\<open>CAST_SUBTYPE\<close> passes a null pointer and stops the program at an object of another class.\<close>

definition crypto_algorithm_of :: "('c, 'm, 'z, 'k) algorithm option \<Rightarrow> 'c crypto_algorithm option option" where
  "crypto_algorithm_of x = (case x of None \<Rightarrow> Some None | Some (Crypto_algorithm a) \<Rightarrow> Some (Some a) | _ \<Rightarrow> None)"

definition mac_algorithm_of :: "('c, 'm, 'z, 'k) algorithm option \<Rightarrow> 'm mac_algorithm option option" where
  "mac_algorithm_of x = (case x of None \<Rightarrow> Some None | Some (Mac_algorithm a) \<Rightarrow> Some (Some a) | _ \<Rightarrow> None)"

definition compress_algorithm_of :: "('c, 'm, 'z, 'k) algorithm option \<Rightarrow> 'z compress_algorithm option option" where
  "compress_algorithm_of x = (case x of None \<Rightarrow> Some None | Some (Compress_algorithm a) \<Rightarrow> Some (Some a) | _ \<Rightarrow> None)"

section \<open>Making instances\<close>

definition kex_make_crypt ::
  "crypt_mode \<Rightarrow> (nat \<Rightarrow> byte) \<Rightarrow> 'h hash_instance \<Rightarrow> ('c, 'm, 'z, 'k) algorithm option list \<Rightarrow> nat \<Rightarrow> lsh_string \<Rightarrow>
   (bool \<times> 'c crypto_instance option) option" where
  "kex_make_crypt mode junk secret algorithms type session_id =
     do { algorithm \<leftarrow> crypto_algorithm_of (algorithms ! type);
          c_assert (length algorithms = KEX_LIST_LENGTH);
          (case algorithm of
             None \<Rightarrow> Some (True, None)
           | Some algorithm \<Rightarrow>
               do { key \<leftarrow> kex_make_key junk secret (ca_key_size algorithm) type session_id;
                    iv \<leftarrow> (if ca_iv_size algorithm \<noteq> 0
                          then map_option Some (kex_make_key junk secret (ca_iv_size algorithm) (IV_TYPE type) session_id)
                          else Some None);
                    let c = ca_make_crypt algorithm mode (contents key) (map_option contents iv);
                    Some (c \<noteq> None, c) }) }"

definition kex_make_encrypt ::
  "(nat \<Rightarrow> byte) \<Rightarrow> 'h hash_instance \<Rightarrow> ('c, 'm, 'z, 'k) algorithm option list \<Rightarrow> nat \<Rightarrow> lsh_string \<Rightarrow>
   (bool \<times> 'c crypto_instance option) option" where
  "kex_make_encrypt = kex_make_crypt CRYPTO_ENCRYPT"

definition kex_make_decrypt ::
  "(nat \<Rightarrow> byte) \<Rightarrow> 'h hash_instance \<Rightarrow> ('c, 'm, 'z, 'k) algorithm option list \<Rightarrow> nat \<Rightarrow> lsh_string \<Rightarrow>
   (bool \<times> 'c crypto_instance option) option" where
  "kex_make_decrypt = kex_make_crypt CRYPTO_DECRYPT"

definition kex_make_mac ::
  "(nat \<Rightarrow> byte) \<Rightarrow> 'h hash_instance \<Rightarrow> ('c, 'm, 'z, 'k) algorithm option list \<Rightarrow> nat \<Rightarrow> lsh_string \<Rightarrow>
   'm mac_instance option option" where
  "kex_make_mac junk secret algorithms type session_id =
     do { algorithm \<leftarrow> mac_algorithm_of (algorithms ! type);
          c_assert (length algorithms = KEX_LIST_LENGTH);
          (case algorithm of
             None \<Rightarrow> Some None
           | Some algorithm \<Rightarrow>
               do { key \<leftarrow> kex_make_key junk secret (ma_key_size algorithm) type session_id;
                    Some (Some (ma_make_mac algorithm (ma_key_size algorithm) (contents key))) }) }"

definition kex_make_deflate :: "('c, 'm, 'z, 'k) algorithm option list \<Rightarrow> nat \<Rightarrow> 'z zlib_instance option option" where
  "kex_make_deflate algorithms type =
     do { algorithm \<leftarrow> compress_algorithm_of (algorithms ! type);
          Some (case algorithm of None \<Rightarrow> None | Some a \<Rightarrow> za_make_compress a COMPRESS_DEFLATE) }"

definition kex_make_inflate :: "('c, 'm, 'z, 'k) algorithm option list \<Rightarrow> nat \<Rightarrow> 'z zlib_instance option option" where
  "kex_make_inflate algorithms type =
     do { algorithm \<leftarrow> compress_algorithm_of (algorithms ! type);
          Some (case algorithm of None \<Rightarrow> None | Some a \<Rightarrow> za_make_compress a COMPRESS_INFLATE) }"

end
