(* ===== verification/Service_Read.thy ===== *)
theory Service_Read
  imports Ssh_Read Ssh
begin

text \<open>
  \<open>src/service_read.c\<close>: the reader of the cleartext packets between the transport layer and a
  service. A packet comes as its sequence number, its length and its payload. Whatever the chunks in
  which the bytes arrive, the reader delivers the packets of the stream one after the
  other; a well-formed packet at the front of the stream, of less than the maximal size, is always delivered in the end.
\<close>

abbreviation (input) SERVICE_READ_AHEAD where "SERVICE_READ_AHEAD \<equiv> 1000"
abbreviation (input) SERVICE_HEADER_SIZE where "SERVICE_HEADER_SIZE \<equiv> 8"

record service_read_state = ssh_read_state +
  sv_packet_length :: u32
  sv_seqno :: u32

text \<open>The sequence number is not initialized; it holds whatever the memory held.\<close>

definition make_service_read_state :: "(nat \<Rightarrow> byte) \<Rightarrow> u32 \<Rightarrow> service_read_state" where
  "make_service_read_state junk junk_seqno =
     ssh_read_state.extend (init_ssh_read_state junk (SSH_MAX_PACKET + SERVICE_READ_AHEAD))
       \<lparr>sv_packet_length = 0, sv_seqno = junk_seqno\<rparr>"

text \<open>What the out parameters are set to: nothing, the message, or the sequence number, the length and
  the bytes of a packet.\<close>

datatype service_out = SV_none | SV_msg string | SV_packet u32 u32 bytes

text \<open>Parsing the header; a value in the first component is an early return.\<close>

definition service_parse_header ::
  "service_read_state \<Rightarrow> ((ssh_read_status \<times> service_out) option \<times> service_read_state) option" where
  "service_parse_header self =
     do { c_assert (r_length self \<ge> SERVICE_HEADER_SIZE);
          let header = drop (unat (r_start self)) (lsh_string_data (r_buffer self));
          let self = self\<lparr>sv_seqno := READ_UINT32 header, sv_packet_length := READ_UINT32 (drop 4 header)\<rparr>;
          Some (if sv_packet_length self = 0
                then (Some (SSH_READ_PROTOCOL_ERROR, SV_msg ''Received empty packet''), self)
                else if sv_packet_length self > SSH_MAX_PACKET
                then (Some (SSH_READ_PROTOCOL_ERROR, SV_msg ''Packet too large''), self)
                else (None, self\<lparr>r_start := r_start self + SERVICE_HEADER_SIZE,
                                 r_length := r_length self - SERVICE_HEADER_SIZE\<rparr>)) }"

text \<open>The descriptor is a socket together with the information whether \<open>fd >= 0\<close>; the code
  sets \<open>fd\<close> to -1 after a read.\<close>

definition service_read_header ::
  "service_read_state \<Rightarrow> bool \<Rightarrow> socket \<Rightarrow>
   ((ssh_read_status \<times> service_out) option \<times> service_read_state \<times> bool \<times> socket) option" where
  "service_read_header self fd sk =
     (if r_length self < SERVICE_HEADER_SIZE
      then if \<not> fd then Some (Some (r_status self, SV_none), self, fd, sk)
      else do {
        (res, self, sk) \<leftarrow> ssh_read_some self sk SERVICE_READ_AHEAD;
        (case res of
           Read_eof \<Rightarrow>
             Some (Some (if r_length self = 0 then (SSH_READ_EOF, SV_none)
                         else (SSH_READ_PROTOCOL_ERROR, SV_msg ''Unexpected EOF'')), self, False, sk)
         | Read_error e \<Rightarrow>
             Some (Some (if e = EWOULDBLOCK then SSH_READ_PUSH else SSH_READ_IO_ERROR, SV_none), self, False, sk)
         | Read_ok \<Rightarrow>
             if r_length self < SERVICE_HEADER_SIZE
             then Some (Some (r_status self, SV_none), self, False, sk)
             else do { (r, self) \<leftarrow> service_parse_header self; Some (r, self, False, sk) }) }
      else do { (r, self) \<leftarrow> service_parse_header self; Some (r, self, fd, sk) })"

definition service_take_packet :: "service_read_state \<Rightarrow> (ssh_read_status \<times> service_out) \<times> service_read_state" where
  "service_take_packet self =
     (let l = sv_packet_length self;
          packet = take (unat l) (drop (unat (r_start self)) (lsh_string_data (r_buffer self))) in
      ((SSH_READ_COMPLETE, SV_packet (sv_seqno self) l packet),
       self\<lparr>r_start := r_start self + l, r_length := r_length self - l, sv_packet_length := 0\<rparr>))"

definition service_read_body ::
  "service_read_state \<Rightarrow> bool \<Rightarrow> socket \<Rightarrow> ((ssh_read_status \<times> service_out) \<times> service_read_state \<times> socket) option" where
  "service_read_body self fd sk =
     (if r_length self < sv_packet_length self
      then if \<not> fd then Some ((r_status self, SV_none), self, sk)
      else do {
        (res, self, sk) \<leftarrow> ssh_read_some self sk (sv_packet_length self + SERVICE_READ_AHEAD);
        (case res of
           Read_eof \<Rightarrow> Some ((SSH_READ_PROTOCOL_ERROR, SV_msg ''Unexpected EOF''), self, sk)
         | Read_error e \<Rightarrow>
             Some ((if e = EWOULDBLOCK then SSH_READ_PUSH else SSH_READ_IO_ERROR, SV_none), self, sk)
         | Read_ok \<Rightarrow>
             if r_length self < sv_packet_length self then Some ((r_status self, SV_none), self, sk)
             else let (r, self) = service_take_packet self in Some (r, self, sk)) }
      else let (r, self) = service_take_packet self in Some (r, self, sk))"

definition service_read_packet ::
  "service_read_state \<Rightarrow> bool \<Rightarrow> socket \<Rightarrow> ((ssh_read_status \<times> service_out) \<times> service_read_state \<times> socket) option" where
  "service_read_packet self fd sk =
     (if sv_packet_length self = 0
      then do { (r, self, fd, sk) \<leftarrow> service_read_header self fd sk;
                (case r of Some out \<Rightarrow> Some (out, self, sk) | None \<Rightarrow> service_read_body self fd sk) }
      else service_read_body self fd sk)"

section \<open>The stream of packets\<close>

definition service_frame :: "u32 \<Rightarrow> bytes \<Rightarrow> bytes" where
  "service_frame seqno p = WRITE_UINT32 seqno @ WRITE_UINT32 (of_nat (length p)) @ p"

text \<open>The bytes of the stream that are not yet delivered: a header that is parsed already, the
  buffer, and what the socket holds.\<close>

definition header_read :: "service_read_state \<Rightarrow> bytes" where
  "header_read s = (if sv_packet_length s = 0 then [] else WRITE_UINT32 (sv_seqno s) @ WRITE_UINT32 (sv_packet_length s))"

definition service_stream :: "service_read_state \<Rightarrow> socket \<Rightarrow> bytes" where
  "service_stream s sk = header_read s @ unread s @ sk_input sk"

text \<open>A packet of exactly \<open>SSH_MAX_PACKET\<close> bytes passes the check of the header but not the assertion
  of \<open>ssh_read_some\<close>, see the last section.\<close>

definition service_inv :: "service_read_state \<Rightarrow> bool" where
  "service_inv s \<longleftrightarrow> read_inv s \<and> str_length (r_buffer s) = SSH_MAX_PACKET + SERVICE_READ_AHEAD \<and> sv_packet_length s < SSH_MAX_PACKET"

definition largest_not_next :: "bytes \<Rightarrow> bool" where
  "largest_not_next bs \<longleftrightarrow> (8 \<le> length bs \<longrightarrow> READ_UINT32 (drop 4 bs) \<noteq> SSH_MAX_PACKET)"

text \<open>A complete packet of a legal size at the front of a stream.\<close>

definition frame_ahead :: "bytes \<Rightarrow> bool" where
  "frame_ahead bs \<longleftrightarrow> 8 \<le> length bs \<and> 0 < READ_UINT32 (drop 4 bs) \<and> READ_UINT32 (drop 4 bs) < SSH_MAX_PACKET
     \<and> 8 + unat (READ_UINT32 (drop 4 bs)) \<le> length bs"

text \<open>What one call does to the stream.\<close>

definition service_call ::
  "bytes \<Rightarrow> bool \<Rightarrow> socket \<Rightarrow> ssh_read_status \<Rightarrow> service_out \<Rightarrow> service_read_state \<Rightarrow> socket \<Rightarrow> bool" where
  "service_call stream fd sk st out s' sk' \<longleftrightarrow>
     set (sk_errors sk') \<subseteq> set (sk_errors sk) \<and> sk_measure sk' \<le> sk_measure sk
     \<and> (case st of
          SSH_READ_COMPLETE \<Rightarrow> (\<exists>seqno p. out = SV_packet seqno (of_nat (length p)) p \<and> p \<noteq> [] \<and> length p < SSH_MAX_PACKET
            \<and> stream = service_frame seqno p @ service_stream s' sk') \<and> service_inv s' \<and> sv_packet_length s' = 0
        | SSH_READ_PROTOCOL_ERROR \<Rightarrow> (\<exists>msg. out = SV_msg msg) \<and> \<not> frame_ahead stream
        | SSH_READ_EOF \<Rightarrow> out = SV_none \<and> stream = []
        | SSH_READ_IO_ERROR \<Rightarrow> out = SV_none \<and> (\<exists>e \<in> set (sk_errors sk). e \<notin> {EINTR, EWOULDBLOCK})
        | _ \<Rightarrow> out = SV_none \<and> service_stream s' sk' = stream \<and> service_inv s' \<and> (fd \<longrightarrow> sk_measure sk' < sk_measure sk))"

lemma service_call_later:
  "\<lbrakk>service_call stream fd' sk1 st out s' sk'; set (sk_errors sk1) \<subseteq> set (sk_errors sk); sk_measure sk1 < sk_measure sk\<rbrakk>
    \<Longrightarrow> service_call stream fd sk st out s' sk'"
  by (cases st) (auto simp: service_call_def)

lemma WRITE_READ_take: "4 \<le> length xs \<Longrightarrow> WRITE_UINT32 (READ_UINT32 xs) = take 4 xs"
  by (cases xs; cases "tl xs"; cases "tl (tl xs)"; cases "tl (tl (tl xs))") auto

lemma drop_WRITE_UINT32 [simp]: "drop 4 (WRITE_UINT32 a @ xs) = xs"
  by simp

text \<open>Reading on keeps the stream.\<close>

lemma same_fields:
  "ssh_read_state.more s' = ssh_read_state.more s \<Longrightarrow> sv_packet_length s' = sv_packet_length s \<and> sv_seqno s' = sv_seqno s"
  by (cases s, cases s') (simp add: ssh_read_state.defs)

lemma reads_from_stream:
  assumes "service_inv s" "reads_from s sk limit o' s' sk'"
  shows "service_inv s'" "service_stream s' sk' = service_stream s sk" "sv_packet_length s' = sv_packet_length s"
    "set (sk_errors sk') \<subseteq> set (sk_errors sk)" "o' \<noteq> Read_eof \<Longrightarrow> sk_measure sk' < sk_measure sk" "sk_measure sk' \<le> sk_measure sk"
proof -
  note r = reads_from_facts [OF assms(2)] and m = same_fields [OF reads_from_facts(7) [OF assms(2)]]
  show "service_inv s'" using assms(1) r(1,3) m by (simp add: service_inv_def)
  show "service_stream s' sk' = service_stream s sk" using r(2) m by (simp add: service_stream_def header_read_def)
qed (use reads_from_facts [OF assms(2)] same_fields [OF reads_from_facts(7) [OF assms(2)]] in auto)

lemma service_take_packet_ok:
  assumes "service_inv s" "sv_packet_length s \<noteq> 0" "unat (sv_packet_length s) \<le> unat (r_length s)"
  shows "\<exists>st out s'. service_take_packet s = ((st, out), s') \<and> service_call (service_stream s sk) fd sk st out s' sk"
proof -
  let ?l = "sv_packet_length s" and ?p = "take (unat (sv_packet_length s)) (unread s)"
  let ?s = "s\<lparr>r_start := r_start s + ?l, r_length := r_length s - ?l\<rparr>"
  have inv: "read_inv s" using assms(1) by (simp add: service_inv_def)
  have len: "length ?p = unat ?l" "unat ?l < 32768"
    using assms length_unread [OF inv] by (auto simp: service_inv_def u32_less)
  have p: "take (unat ?l) (drop (unat (r_start s)) (lsh_string_data (r_buffer s))) = ?p"
    using inv assms(3) by (simp add: read_inv_def unread_def window_take lsh_string_data_def)
  have "service_take_packet s = ((SSH_READ_COMPLETE, SV_packet (sv_seqno s) ?l ?p), ?s\<lparr>sv_packet_length := 0\<rparr>)"
    unfolding service_take_packet_def Let_def p by simp
  moreover have "service_inv (?s\<lparr>sv_packet_length := 0\<rparr>)" "unread (?s\<lparr>sv_packet_length := 0\<rparr>) = drop (unat ?l) (unread s)"
    using read_consume [OF inv assms(3)] assms(1) by (simp_all add: service_inv_def read_inv_def unread_def)
  moreover have "service_stream s sk = service_frame (sv_seqno s) ?p @ drop (unat ?l) (unread s) @ sk_input sk"
    using assms(2) len by (simp add: service_stream_def header_read_def service_frame_def)
  moreover have "0 < unat ?l" using assms(2) by (simp add: word_unat_eq_iff)
  then have "?p \<noteq> []" using assms(3) length_unread [OF inv] by auto
  moreover have "of_nat (length ?p) = ?l" by (simp add: len(1) del: length_take)
  ultimately show ?thesis
    using len by (auto simp: service_call_def service_stream_def [of "_\<lparr>sv_packet_length := 0\<rparr>"] header_read_def
        simp del: length_take intro!: exI [of _ ?p])
qed

lemma frame_ahead_header:
  "service_stream s sk = header_read s @ rest \<Longrightarrow> sv_packet_length s \<noteq> 0 \<Longrightarrow>
    frame_ahead (service_stream s sk) \<Longrightarrow> unat (sv_packet_length s) \<le> length rest"
  by (simp add: frame_ahead_def header_read_def)

lemma service_read_body_ok:
  assumes inv: "service_inv s" and l: "sv_packet_length s \<noteq> 0"
  shows "\<exists>st out s' sk'. service_read_body s fd sk = Some ((st, out), s', sk')
    \<and> service_call (service_stream s sk) fd sk st out s' sk'"
proof (cases "unat (r_length s) < unat (sv_packet_length s)")
  case False
  then show ?thesis
    using service_take_packet_ok [OF inv l, of sk fd] by (auto simp: service_read_body_def u32_less)
next
  case short: True
  have r: "read_inv s" "r_status s \<in> {SSH_READ_PENDING, SSH_READ_PUSH}" using inv by (auto simp: service_inv_def read_inv_def)
  show ?thesis
  proof (cases fd)
    case False
    then show ?thesis using short r inv by (auto simp: service_read_body_def u32_less service_call_def)
  next
    case True
    let ?lim = "sv_packet_length s + SERVICE_READ_AHEAD"
    have lim: "unat ?lim = unat (sv_packet_length s) + 1000" "unat ?lim < unat (str_length (r_buffer s))"
      using inv by (auto simp: service_inv_def u32_less unat_u32_mod)
    then obtain o' s1 sk1 where some: "ssh_read_some s sk ?lim = Some (o', s1, sk1)" and rf: "reads_from s sk ?lim o' s1 sk1"
      using ssh_read_some_ok [OF r(1), of ?lim sk] short by auto
    note st = reads_from_stream [OF inv rf]
    have r1: "r_status s1 \<in> {SSH_READ_PENDING, SSH_READ_PUSH}" using st(1) by (simp add: service_inv_def read_inv_def)
    show ?thesis
    proof (cases o')
      case (Read_error e)
      then have "e \<in> set (sk_errors sk)" "e \<noteq> EINTR" using rf by (auto simp: reads_from_def)
      then show ?thesis
        using True short some st Read_error by (auto simp: service_read_body_def u32_less service_call_def)
    next
      case Read_eof
      then have "sk_input sk = []" using rf by (auto simp: reads_from_def)
      then have "\<not> frame_ahead (service_stream s sk)"
        using frame_ahead_header [of s sk "unread s"] l short length_unread [OF r(1)] by (auto simp: service_stream_def)
      then show ?thesis
        using True short some st Read_eof by (auto simp: service_read_body_def u32_less service_call_def)
    next
      case Read_ok
      show ?thesis
      proof (cases "unat (r_length s1) < unat (sv_packet_length s1)")
        case True
        then show ?thesis
          using \<open>fd\<close> short some st Read_ok r1 by (auto simp: service_read_body_def u32_less service_call_def)
      next
        case False
        then obtain st' out s' where "service_take_packet s1 = ((st', out), s')"
            "service_call (service_stream s1 sk1) fd sk1 st' out s' sk1"
          using service_take_packet_ok [OF st(1), of sk1 fd] l st(3) by auto
        then show ?thesis
          using \<open>fd\<close> short some st Read_ok False service_call_later [of _ fd sk1 st' out s' sk1 sk fd]
          by (auto simp: service_read_body_def u32_less)
      qed
    qed
  qed
qed

lemma service_parse_header_ok:
  assumes inv: "service_inv s" and new: "sv_packet_length s = 0" and l: "8 \<le> unat (r_length s)"
    and nx: "largest_not_next (service_stream s sk)"
  shows "\<exists>r s'. service_parse_header s = Some (r, s')
    \<and> (case r of None \<Rightarrow> service_inv s' \<and> sv_packet_length s' \<noteq> 0 \<and> service_stream s' sk = service_stream s sk
       | Some (st, out) \<Rightarrow> st = SSH_READ_PROTOCOL_ERROR \<and> (\<exists>msg. out = SV_msg msg) \<and> \<not> frame_ahead (service_stream s sk))"
proof -
  let ?h = "drop (unat (r_start s)) (lsh_string_data (r_buffer s))" and ?n = "READ_UINT32 (drop 4 (unread s))"
  have rinv: "read_inv s" using inv by (simp add: service_inv_def)
  have len: "8 \<le> length (unread s)" using length_unread [OF rinv] l by simp
  have str: "service_stream s sk = unread s @ sk_input sk" using new by (simp add: service_stream_def header_read_def)
  have "?h = unread s @ drop (unat (r_length s)) ?h"
    using rinv window_take [of "r_buffer s" "r_start s" "r_length s" "unat (r_length s)"] length_unread [OF rinv]
    by (metis append_take_drop_id le_refl lsh_string_data_def read_inv_def take_all unread_def)
  then obtain rest where h: "?h = unread s @ rest" by blast
  have hn: "READ_UINT32 ?h = READ_UINT32 (unread s)" "READ_UINT32 (drop 4 ?h) = ?n"
    unfolding h using len by simp_all
  have bad: "frame_ahead (service_stream s sk) \<Longrightarrow> ?n \<noteq> 0 \<and> ?n < SSH_MAX_PACKET" "?n \<noteq> SSH_MAX_PACKET"
    using len nx by (simp_all add: str frame_ahead_def largest_not_next_def word_gt_0)
  let ?s = "s\<lparr>sv_seqno := READ_UINT32 (unread s), sv_packet_length := ?n, r_start := r_start s + 8, r_length := r_length s - 8\<rparr>"
  have eq: "service_parse_header s =
     Some (if ?n = 0 then (Some (SSH_READ_PROTOCOL_ERROR, SV_msg ''Received empty packet''), s\<lparr>sv_seqno := READ_UINT32 (unread s), sv_packet_length := ?n\<rparr>)
       else if ?n > SSH_MAX_PACKET then (Some (SSH_READ_PROTOCOL_ERROR, SV_msg ''Packet too large''), s\<lparr>sv_seqno := READ_UINT32 (unread s), sv_packet_length := ?n\<rparr>)
       else (None, ?s))"
    using l by (simp add: service_parse_header_def hn u32_le Let_def del: drop_drop)
  show ?thesis
  proof (cases "0 < ?n \<and> ?n < SSH_MAX_PACKET")
    case True
    have "service_inv ?s" "unread ?s = drop 8 (unread s)"
      using read_consume [OF rinv, of 8] l inv True by (simp_all add: service_inv_def read_inv_def unread_def)
    moreover have "WRITE_UINT32 (READ_UINT32 (unread s)) @ WRITE_UINT32 ?n @ drop 8 (unread s) = unread s"
      using len by (simp add: WRITE_READ_take) (metis add_diff_cancel_left' append_take_drop_id drop_drop numeral_Bit0)
    ultimately show ?thesis
      using True str by (auto simp: eq service_stream_def header_read_def)
  next
    case False
    then have "?n = 0 \<or> ?n > SSH_MAX_PACKET" using bad(2) by (auto simp: word_gt_0)
    then show ?thesis using bad(1) by (auto simp: eq)
  qed
qed

lemma service_read_header_ok:
  assumes inv: "service_inv s" and new: "sv_packet_length s = 0" and nx: "largest_not_next (service_stream s sk)"
  shows "\<exists>r s' fd' sk'. service_read_header s fd sk = Some (r, s', fd', sk')
    \<and> (case r of None \<Rightarrow> service_inv s' \<and> sv_packet_length s' \<noteq> 0 \<and> service_stream s' sk' = service_stream s sk
           \<and> (fd' = fd \<and> sk' = sk \<or> set (sk_errors sk') \<subseteq> set (sk_errors sk) \<and> sk_measure sk' < sk_measure sk)
       | Some (st, out) \<Rightarrow> service_call (service_stream s sk) fd sk st out s' sk')"
proof (cases "unat (r_length s) < 8")
  case False
  then obtain r s' where "service_parse_header s = Some (r, s')"
    "case r of None \<Rightarrow> service_inv s' \<and> sv_packet_length s' \<noteq> 0 \<and> service_stream s' sk = service_stream s sk
       | Some (st, out) \<Rightarrow> st = SSH_READ_PROTOCOL_ERROR \<and> (\<exists>msg. out = SV_msg msg) \<and> \<not> frame_ahead (service_stream s sk)"
    using service_parse_header_ok [OF inv new _ nx] by auto
  then show ?thesis
    using False by (auto simp: service_read_header_def u32_less service_call_def split: option.splits)
next
  case short: True
  have r: "read_inv s" "r_status s \<in> {SSH_READ_PENDING, SSH_READ_PUSH}" using inv by (auto simp: service_inv_def read_inv_def)
  show ?thesis
  proof (cases fd)
    case False
    then show ?thesis using short r inv by (auto simp: service_read_header_def u32_less service_call_def)
  next
    case True
    obtain o' s1 sk1 where some: "ssh_read_some s sk 1000 = Some (o', s1, sk1)" and rf: "reads_from s sk 1000 o' s1 sk1"
      using ssh_read_some_ok [OF r(1), of 1000 sk] short inv by (auto simp: service_inv_def)
    note st = reads_from_stream [OF inv rf]
    have r1: "r_status s1 \<in> {SSH_READ_PENDING, SSH_READ_PUSH}" using st(1) by (simp add: service_inv_def read_inv_def)
    have str: "length (service_stream s sk) = unat (r_length s) + length (sk_input sk)"
      using length_unread [OF r(1)] new by (simp add: service_stream_def header_read_def)
    show ?thesis
    proof (cases o')
      case (Read_error e)
      then have "e \<in> set (sk_errors sk)" "e \<noteq> EINTR" using rf by (auto simp: reads_from_def)
      then show ?thesis
        using True short some st Read_error by (auto simp: service_read_header_def u32_less service_call_def)
    next
      case Read_eof
      then have "sk_input sk = []" "unread s1 = unread s" using rf by (auto simp: reads_from_def)
      moreover have "read_inv s1" using st(1) by (simp add: service_inv_def)
      ultimately have "unat (r_length s1) = unat (r_length s)" "sk_input sk = []"
        using length_unread [of s] length_unread [of s1] r by auto
      moreover from this have "\<not> frame_ahead (service_stream s sk)" using short str by (simp add: frame_ahead_def)
      ultimately show ?thesis
        using True short some st Read_eof str by (auto simp: service_read_header_def u32_less service_call_def word_unat_eq_iff)
    next
      case Read_ok
      show ?thesis
      proof (cases "unat (r_length s1) < 8")
        case True
        then show ?thesis
          using \<open>fd\<close> short some st Read_ok r1 by (auto simp: service_read_header_def u32_less service_call_def)
      next
        case False
        then obtain r s' where "service_parse_header s1 = Some (r, s')"
          "case r of None \<Rightarrow> service_inv s' \<and> sv_packet_length s' \<noteq> 0 \<and> service_stream s' sk1 = service_stream s1 sk1
             | Some (st, out) \<Rightarrow> st = SSH_READ_PROTOCOL_ERROR \<and> (\<exists>msg. out = SV_msg msg) \<and> \<not> frame_ahead (service_stream s1 sk1)"
          using service_parse_header_ok [OF st(1), of sk1] new nx st(2,3) by auto
        then show ?thesis
          using \<open>fd\<close> short some st Read_ok False
          by (auto simp: service_read_header_def u32_less service_call_def split: option.splits)
      qed
    qed
  qed
qed

lemma service_read_packet_ok:
  assumes "service_inv s" "largest_not_next (service_stream s sk)"
  shows "\<exists>st out s' sk'. service_read_packet s fd sk = Some ((st, out), s', sk')
    \<and> service_call (service_stream s sk) fd sk st out s' sk'"
proof (cases "sv_packet_length s = 0")
  case False
  then show ?thesis using service_read_body_ok [OF assms(1), of fd sk] by (simp add: service_read_packet_def)
next
  case True
  obtain r s1 fd1 sk1 where h: "service_read_header s fd sk = Some (r, s1, fd1, sk1)"
    and c: "case r of None \<Rightarrow> service_inv s1 \<and> sv_packet_length s1 \<noteq> 0 \<and> service_stream s1 sk1 = service_stream s sk
           \<and> (fd1 = fd \<and> sk1 = sk \<or> set (sk_errors sk1) \<subseteq> set (sk_errors sk) \<and> sk_measure sk1 < sk_measure sk)
       | Some (st, out) \<Rightarrow> service_call (service_stream s sk) fd sk st out s1 sk1"
    using service_read_header_ok [OF assms(1) True assms(2), of fd] by blast
  show ?thesis
  proof (cases r)
    case None
    then obtain st out s' sk' where "service_read_body s1 fd1 sk1 = Some ((st, out), s', sk')"
        "service_call (service_stream s1 sk1) fd1 sk1 st out s' sk'"
      using service_read_body_ok [of s1 fd1 sk1] c by auto
    then show ?thesis
      using None True h c service_call_later [of _ fd1 sk1 st out s' sk' sk fd] by (auto simp: service_read_packet_def)
  next
    case (Some x)
    then show ?thesis using True h c by (cases x) (simp add: service_read_packet_def)
  qed
qed

section \<open>Delivery\<close>

text \<open>A client calls the reader until a packet is complete, again and again.\<close>

inductive service_delivers :: "service_read_state \<times> socket \<Rightarrow> (u32 \<times> bytes) list \<Rightarrow> service_read_state \<times> socket \<Rightarrow> bool" where
  stop: "service_delivers x [] x"
| wait: "\<lbrakk>service_read_packet s True sk = Some ((st, SV_none), s1, sk1); SSH_READ_COMPLETE < st; service_delivers (s1, sk1) ps y\<rbrakk>
    \<Longrightarrow> service_delivers (s, sk) ps y"
| packet: "\<lbrakk>service_read_packet s True sk = Some ((SSH_READ_COMPLETE, SV_packet n l p), s1, sk1); service_delivers (s1, sk1) ps y\<rbrakk>
    \<Longrightarrow> service_delivers (s, sk) ((n, p) # ps) y"

lemma waiting_status: "SSH_READ_COMPLETE < st \<longleftrightarrow> st = SSH_READ_PENDING \<or> st = SSH_READ_PUSH"
  by (cases st) (auto simp: less_ssh_read_status_def)

lemma service_frame_inject:
  assumes "service_frame n p @ r = service_frame n' p' @ r'" "length p < 4294967296" "length p' < 4294967296"
  shows "n = n'" "p = p'" "r = r'"
proof -
  have "WRITE_UINT32 n = WRITE_UINT32 n' \<and> WRITE_UINT32 (of_nat (length p)) @ p @ r = WRITE_UINT32 (of_nat (length p')) @ p' @ r'"
    using assms(1) unfolding service_frame_def append_assoc by (subst (asm) append_eq_append_conv) auto
  then have "n = n'" "WRITE_UINT32 (of_nat (length p)) = WRITE_UINT32 (of_nat (length p')) \<and> p @ r = p' @ r'"
    by (auto simp del: WRITE_UINT32_inject dest!: append_eq_append_conv [THEN iffD1, rotated])
       (auto simp: WRITE_UINT32_inject)
  then have "(of_nat (length p) :: u32) = of_nat (length p')" and pr: "p @ r = p' @ r'" by auto
  then have "length p = length p'" using assms(2,3) unat_u32_of_nat by metis
  with pr \<open>n = n'\<close> show "n = n'" "p = p'" "r = r'" by auto
qed

lemma frame_facts:
  assumes "0 < length p" "length p < 32768"
  shows "frame_ahead (service_frame n p @ r)" "largest_not_next (service_frame n p @ r)"
proof -
  have "unat (of_nat (length p) :: u32) = length p" using assms by (intro unat_u32_of_nat) simp
  moreover have "READ_UINT32 (drop 4 (service_frame n p @ r)) = of_nat (length p)" by (simp add: service_frame_def)
  ultimately show "frame_ahead (service_frame n p @ r)" "largest_not_next (service_frame n p @ r)"
    using assms by (auto simp: frame_ahead_def largest_not_next_def u32_less service_frame_def word_unat_eq_iff)
qed

lemma deliver_first:
  assumes "service_inv s" "service_stream s sk = service_frame n p @ rest" "0 < length p" "length p < 32768"
    and "set (sk_errors sk) \<subseteq> {EINTR, EWOULDBLOCK}"
    and more: "\<And>s' sk'. \<lbrakk>service_inv s'; service_stream s' sk' = rest; set (sk_errors sk') \<subseteq> {EINTR, EWOULDBLOCK}\<rbrakk>
      \<Longrightarrow> \<exists>y. service_delivers (s', sk') ps y \<and> Q y"
  shows "\<exists>y. service_delivers (s, sk) ((n, p) # ps) y \<and> Q y"
  using assms(1,2,5)
proof (induction "sk_measure sk" arbitrary: s sk rule: less_induct)
  case less
  note ff = frame_facts [OF assms(3,4), of n rest]
  obtain st out s1 sk1 where r: "service_read_packet s True sk = Some ((st, out), s1, sk1)"
    and c: "service_call (service_frame n p @ rest) True sk st out s1 sk1"
    using service_read_packet_ok [OF less.prems(1), of sk True] less.prems(2) ff(2) by auto
  have errs: "set (sk_errors sk1) \<subseteq> {EINTR, EWOULDBLOCK}" using c less.prems(3) by (auto simp: service_call_def)
  show ?case
  proof (cases "SSH_READ_COMPLETE < st")
    case True
    then have "out = SV_none" "service_inv s1" "service_stream s1 sk1 = service_frame n p @ rest" "sk_measure sk1 < sk_measure sk"
      using c by (auto simp: service_call_def waiting_status)
    then show ?thesis using less.hyps [of sk1 s1] errs r True service_delivers.wait by metis
  next
    case False
    then have st: "st = SSH_READ_COMPLETE"
      using c ff(1) less.prems(3) assms(3) by (cases st) (auto simp: service_call_def waiting_status frame_ahead_def)
    then obtain n' p' where "out = SV_packet n' (of_nat (length p')) p'" "length p' < 32768" "service_inv s1"
        "service_frame n p @ rest = service_frame n' p' @ service_stream s1 sk1"
      using c by (auto simp: service_call_def)
    moreover from this have "n' = n" "p' = p" "service_stream s1 sk1 = rest"
      using service_frame_inject [of n p rest n' p' "service_stream s1 sk1"] assms(4) by auto
    ultimately show ?thesis using more [of s1 sk1] errs r st service_delivers.packet by metis
  qed
qed

lemma frames_delivered:
  assumes "service_inv s" "service_stream s sk = concat (map (\<lambda>(n, p). service_frame n p) ps)"
    and "\<forall>(n, p) \<in> set ps. 0 < length p \<and> length p < 32768" "set (sk_errors sk) \<subseteq> {EINTR, EWOULDBLOCK}"
  shows "\<exists>s' sk'. service_delivers (s, sk) ps (s', sk') \<and> service_stream s' sk' = []"
proof -
  have "\<exists>y. service_delivers (s, sk) ps y \<and> service_stream (fst y) (snd y) = []"
    using assms
  proof (induction ps arbitrary: s sk)
    case Nil
    then show ?case by (auto intro!: exI service_delivers.stop)
  next
    case (Cons x ps)
    obtain n p where x: "x = (n, p)" by (cases x)
    show ?case unfolding x
    proof (rule deliver_first [OF Cons.prems(1)])
      show "service_stream s sk = service_frame n p @ concat (map (\<lambda>(n, p). service_frame n p) ps)"
        using Cons.prems(2) x by simp
      show "\<exists>y. service_delivers (s', sk') ps y \<and> service_stream (fst y) (snd y) = []"
        if "service_inv s'" "service_stream s' sk' = concat (map (\<lambda>(n, p). service_frame n p) ps)"
          "set (sk_errors sk') \<subseteq> {EINTR, EWOULDBLOCK}" for s' sk'
        using Cons.IH [OF that(1,2) _ that(3)] Cons.prems(3) by simp
    qed (use Cons.prems(3,4) x in auto)
  qed
  then show ?thesis by auto
qed

section \<open>Properties\<close>

text \<open>C33 Service reader, one call: unless the next packet has exactly the maximal size, which the last section of this theory is about, the
  call returns, however many bytes its reads give it.
  With \<open>SSH_READ_COMPLETE\<close> it has taken exactly one packet, with its sequence number, off the front of the stream. With
  \<open>SSH_READ_PENDING\<close> or \<open>SSH_READ_PUSH\<close> no byte of the stream is gone, and an open descriptor was read. A protocol
  error is reported only when no complete legal packet is at the front, end of file only when the stream is used up.\<close>

theorem service_read_packet_correct:
  assumes "service_inv s" "largest_not_next (service_stream s sk)"
  shows "\<exists>st out s' sk'. service_read_packet s fd sk = Some ((st, out), s', sk')
    \<and> service_call (service_stream s sk) fd sk st out s' sk'"
  using assms by (rule service_read_packet_ok)

lemma make_service_inv:
  "service_inv (make_service_read_state junk n)" "service_stream (make_service_read_state junk n) sk = sk_input sk"
  using init_read_inv(1) [of "SSH_MAX_PACKET + SERVICE_READ_AHEAD" junk] init_read_inv(2) [of junk "SSH_MAX_PACKET + SERVICE_READ_AHEAD"]
  by (simp_all add: service_inv_def make_service_read_state_def ssh_read_state.defs init_ssh_read_state_def read_inv_def unread_def
      service_stream_def header_read_def)

theorem service_read_packet_correct_witness:
  "\<exists>st out s' sk'. service_read_packet (make_service_read_state (\<lambda>_. 0) 0) True \<lparr>sk_events = [Read_fails EINTR, Read_bytes 2], sk_input = [0, 0, 0, 7, 0], sk_readable = False\<rparr>
       = Some ((st, out), s', sk')
    \<and> service_call [0, 0, 0, 7, 0] True \<lparr>sk_events = [Read_fails EINTR, Read_bytes 2], sk_input = [0, 0, 0, 7, 0], sk_readable = False\<rparr> st out s' sk'"
  using service_read_packet_correct [OF make_service_inv(1),
    of "\<lambda>_. 0" 0 "\<lparr>sk_events = [Read_fails EINTR, Read_bytes 2], sk_input = [0, 0, 0, 7, 0], sk_readable = False\<rparr>" True]
  by (simp add: make_service_inv largest_not_next_def)

text \<open>C13 Delivery: when the bytes that the socket delivers, in chunks of any sizes, are the frames of a list of packets, none empty
  and all smaller than the maximal size of 32768 bytes, and the socket reports no error but interruptions and \<open>EWOULDBLOCK\<close>, then a client that
  keeps calling the reader receives exactly these packets, in order, and the stream is used up.\<close>

theorem service_packets_delivered:
  assumes "service_inv s" "service_stream s sk = concat (map (\<lambda>(n, p). service_frame n p) ps)"
    and "\<forall>(n, p) \<in> set ps. 0 < length p \<and> length p < 32768" "set (sk_errors sk) \<subseteq> {EINTR, EWOULDBLOCK}"
  shows "\<exists>s' sk'. service_delivers (s, sk) ps (s', sk') \<and> service_stream s' sk' = []"
  using assms by (rule frames_delivered)

theorem service_packets_delivered_witness:
  "\<exists>s' sk'. service_delivers (make_service_read_state (\<lambda>_. 0) 0,
      \<lparr>sk_events = [Read_bytes 4, Read_fails EWOULDBLOCK, Read_bytes 3], sk_input = [0, 0, 0, 7, 0, 0, 0, 2, 5, 6], sk_readable = True\<rparr>) [(7, [5, 6])] (s', sk')
    \<and> service_stream s' sk' = []"
  using service_packets_delivered [OF make_service_inv(1),
    of "\<lambda>_. 0" 0 "\<lparr>sk_events = [Read_bytes 4, Read_fails EWOULDBLOCK, Read_bytes 3], sk_input = [0, 0, 0, 7, 0, 0, 0, 2, 5, 6], sk_readable = True\<rparr>" "[(7, [5, 6])]"]
  by (simp add: make_service_inv service_frame_def WRITE_UINT32_def)

section \<open>A packet of the maximal size\<close>

text \<open>C31 A packet of the maximal size: when the header of a packet of exactly \<open>SSH_MAX_PACKET\<close> bytes is in the buffer, but not the whole packet, the
  header is accepted, and then the call aborts: it asks for \<open>SSH_MAX_PACKET + SERVICE_READ_AHEAD\<close> bytes, which is the size of the
  buffer, and the assertion of \<open>ssh_read_some\<close> wants less.\<close>

theorem service_read_largest_aborts:
  assumes "service_inv s" "sv_packet_length s = 0" "unread s = WRITE_UINT32 n @ WRITE_UINT32 SSH_MAX_PACKET @ p" "length p < 32768"
  shows "\<exists>s'. service_read_header s True sk = Some (None, s', True, sk) \<and> sv_packet_length s' = SSH_MAX_PACKET \<and> service_read_packet s True sk = None"
proof -
  have inv: "read_inv s" "str_length (r_buffer s) = 33768" using assms(1) by (simp_all add: service_inv_def)
  have len: "unat (r_length s) = 8 + length p" using length_unread [OF inv(1)] assms(3) by simp
  let ?h = "drop (unat (r_start s)) (lsh_string_data (r_buffer s))"
  have "take (8 + length p) ?h = unread s"
    using inv(1) len window_take [of "r_buffer s" "r_start s" "r_length s" "8 + length p"] length_unread [OF inv(1)]
    by (simp add: read_inv_def unread_def lsh_string_data_def)
  then obtain us where h: "?h = WRITE_UINT32 n @ WRITE_UINT32 SSH_MAX_PACKET @ p @ us"
    using assms(3) by (metis append_assoc append_take_drop_id)
  define s1 where "s1 = s\<lparr>sv_seqno := n, sv_packet_length := SSH_MAX_PACKET, r_start := r_start s + 8, r_length := r_length s - 8\<rparr>"
  have "READ_UINT32 ?h = n" "READ_UINT32 (drop 4 ?h) = SSH_MAX_PACKET" unfolding h by simp_all
  then have "service_parse_header s = Some (None, s1)"
    using len by (simp add: service_parse_header_def Let_def s1_def u32_le)
  then have hdr: "service_read_header s True sk = Some (None, s1, True, sk)" using len by (simp add: service_read_header_def u32_less)
  have "unat (r_length s - 8) = length p" using len by (simp add: unat_u32_diff)
  then have "service_read_body s1 True sk = None"
    using assms(4) inv(2) by (simp add: service_read_body_def ssh_read_some_def lsh_string_length_def s1_def u32_less)
  then show ?thesis using hdr assms(2) by (simp add: service_read_packet_def) (simp add: s1_def)
qed

definition largest_header :: "nat \<Rightarrow> byte" where
  "largest_header i = (WRITE_UINT32 7 @ WRITE_UINT32 SSH_MAX_PACKET) ! (i mod 8)"

theorem service_read_largest_aborts_witness:
  "service_read_packet ((make_service_read_state largest_header 0)\<lparr>r_length := 8\<rparr>) True \<lparr>sk_events = [], sk_input = [1], sk_readable = True\<rparr> = None"
proof -
  let ?s = "(make_service_read_state largest_header 0)\<lparr>r_length := 8\<rparr>"
  have "take 8 (map largest_header [0..<33768]) = map largest_header [0..<8]" by (simp add: take_map)
  also have "\<dots> = WRITE_UINT32 7 @ WRITE_UINT32 SSH_MAX_PACKET @ []" by (simp add: upt_rec largest_header_def WRITE_UINT32_def)
  finally have "unread ?s = WRITE_UINT32 7 @ WRITE_UINT32 SSH_MAX_PACKET @ []"
    by (simp add: make_service_read_state_def ssh_read_state.defs init_ssh_read_state_def unread_def window_def slice_def lsh_string_alloc_def)
  moreover have "service_inv ?s"
    by (simp add: service_inv_def make_service_read_state_def ssh_read_state.defs init_ssh_read_state_def read_inv_def window_ok_def room_def)
  moreover have "sv_packet_length ?s = 0" by (simp add: make_service_read_state_def ssh_read_state.defs)
  ultimately show ?thesis using service_read_largest_aborts [of ?s 7 "[]" "\<lparr>sk_events = [], sk_input = [1], sk_readable = True\<rparr>"] by auto
qed

end
