(* ===== verification/Transport_Connection.thy ===== *)
theory Transport_Connection
  imports Kex_Finish Transport_Write Transport_Packets Service_Read
begin

text \<open>
  \<open>src/transport.c\<close> and the part of \<open>src/transport_forward.c\<close>, \<open>src/lshd.c\<close> and \<open>src/keyexchange.c\<close> that its operations call: the state
  of a connection, sending, closing, and the start and end of a key exchange. The class \<open>transport_forward\<close> is modelled together
  with its superclass. Method pointers are tags for the functions that the server stores there, so that a call of a method is
  a call of the function.
\<close>

abbreviation (input) SSH_DISCONNECT_SERVICE_NOT_AVAILABLE :: "'a :: numeral" where "SSH_DISCONNECT_SERVICE_NOT_AVAILABLE \<equiv> 7"
abbreviation (input) SSH_DISCONNECT_BY_APPLICATION :: "'a :: numeral" where "SSH_DISCONNECT_BY_APPLICATION \<equiv> 11"
abbreviation (input) SSH_FIRST_LOCAL :: "'a :: numeral" where "SSH_FIRST_LOCAL \<equiv> 192"

abbreviation (input) STDOUT_FILENO :: int where "STDOUT_FILENO \<equiv> 1"
abbreviation (input) STDERR_FILENO :: int where "STDERR_FILENO \<equiv> 2"

section \<open>State\<close>

datatype transport_event =
    TRANSPORT_EVENT_KEYEXCHANGE_COMPLETE | TRANSPORT_EVENT_CLOSE | TRANSPORT_EVENT_PUSH
  | TRANSPORT_EVENT_STOP_APPLICATION | TRANSPORT_EVENT_START_APPLICATION

datatype timeout = TIMEOUT_CLOSE | TIMEOUT_REEXCHANGE | TIMEOUT_KEYEXCHANGE

datatype event_method = LSHD_EVENT_HANDLER | FORWARD_EVENT_HANDLER

datatype callback = OOP_SSH | OOP_SERVICE

datatype packet_method = LSHD_PACKET_HANDLER | FORWARD_PACKET_HANDLER

text \<open>The callbacks that the event loop has for each file (those of this theory: \<open>oop_read_ssh\<close> and \<open>oop_write_ssh\<close>, or
  \<open>oop_read_service\<close> and \<open>oop_write_service\<close>), the number of files, whether the loop was asked to stop, and the results of system calls to
  come: \<open>en_close\<close> tells whether closing a file succeeds, and \<open>en_null\<close> which descriptor opening \<open>/dev/null\<close> gives after that, negative when it
  fails. Randomness is numbered by the calls that use it.\<close>

record environment =
  oop_read :: "int \<rightharpoonup> callback"
  oop_write :: "int \<rightharpoonup> callback"
  oop_retry :: bool
  global_nfiles :: nat
  oop_stop :: bool
  en_writes :: system_calls
  en_sent :: bytes
  en_input :: socket
  en_service_writes :: system_calls
  en_service_sent :: bytes
  en_service_input :: socket
  en_random :: "nat \<Rightarrow> nat \<Rightarrow> nat \<Rightarrow> byte"
  en_calls :: nat
  en_close :: "int \<Rightarrow> bool"
  en_null :: "int \<Rightarrow> int"
  en_junk :: "nat \<Rightarrow> byte"

text \<open>The connection, with the context that all connections share. \<open>tc_expire\<close> is the timer that is running.\<close>

record ('c, 'm, 'z, 'k, 'h) transport_connection = environment +
  tc_alive :: bool
  tc_is_server :: bool
  tc_algorithms :: "int \<Rightarrow> ('c, 'm, 'z, 'k) algorithm option option"
  tc_info :: kexinit_info
  tc_kex :: "('c, 'm, 'z, 'k) algorithm kexinit_state"
  tc_session_id :: "lsh_string option"
  tc_keyexchange_handler :: "'h option"
  tc_new_mac :: "'m mac_instance option"
  tc_new_crypto :: "'c crypto_instance option"
  tc_new_inflate :: "'z zlib_instance option"
  tc_expire :: "timeout option"
  tc_ssh_input :: int
  tc_reader :: "('c, 'm, 'z) transport_read_state"
  tc_read_active :: bool
  tc_read_packet :: lsh_string
  tc_retry_length :: u32
  tc_retry_seqno :: u32
  tc_ssh_output :: int
  tc_writer :: "('c, 'm, 'z) transport_write_state"
  tc_write_active :: bool
  tc_write_margin :: u32
  tc_closing :: nat
  tc_event_handler :: event_method
  tc_packet_handler :: "packet_method option"
  tc_line_handler :: bool
  tf_service_in :: int
  tf_service_out :: int
  tf_service_reader :: service_read_state
  tf_service_read_active :: bool
  tf_service_writer :: ssh_write_state
  tf_service_write_active :: bool

section \<open>Files\<close>

definition io_register_fd :: "int \<Rightarrow> ('c, 'm, 'z, 'k, 'h) transport_connection \<Rightarrow> ('c, 'm, 'z, 'k, 'h) transport_connection" where
  "io_register_fd fd c = c\<lparr>global_nfiles := global_nfiles c + 1\<rparr>"

text \<open>Descriptors of the standard streams are replaced by \<open>/dev/null\<close>, standard error is left alone, and the loop is asked to stop with the last file.\<close>

definition io_close_fd :: "int \<Rightarrow> ('c, 'm, 'z, 'k, 'h) transport_connection \<Rightarrow> ('c, 'm, 'z, 'k, 'h) transport_connection option" where
  "io_close_fd fd c =
     (if fd < 0 then Some c
      else do { let c = c\<lparr>oop_read := (oop_read c)(fd := None), oop_write := (oop_write c)(fd := None)\<rparr>;
                (if fd = STDERR_FILENO then Some ()
                 else if \<not> en_close c fd then Some ()
                 else if fd \<le> STDOUT_FILENO then do { c_assert (en_null c fd \<ge> 0); c_assert (en_null c fd = fd) }
                 else Some ());
                c_assert (global_nfiles c > 0);
                Some (c\<lparr>global_nfiles := global_nfiles c - 1, oop_stop := (if global_nfiles c - 1 = 0 then True else oop_stop c)\<rparr>) })"

text \<open>A new connection; there is no service yet, and its reader and writer are not used before \<open>transport_forward_setup\<close> makes them.\<close>

definition init_transport_forward ::
  "environment \<Rightarrow> bool \<Rightarrow> (int \<Rightarrow> ('c, 'm, 'z, 'k) algorithm option option) \<Rightarrow> kexinit_info \<Rightarrow> int \<Rightarrow> int \<Rightarrow>
   ('c, 'm, 'z, 'k, 'h) transport_connection" where
  "init_transport_forward env is_server algorithms info ssh_input ssh_output =
     (let c = environment.extend env
        \<lparr>tc_alive = True, tc_is_server = is_server, tc_algorithms = algorithms, tc_info = info, tc_kex = init_kexinit_state,
         tc_session_id = None, tc_keyexchange_handler = None, tc_new_mac = None, tc_new_crypto = None, tc_new_inflate = None,
         tc_expire = None, tc_ssh_input = ssh_input, tc_reader = make_transport_read_state (en_junk env), tc_read_active = False,
         tc_read_packet = lsh_string_alloc (en_junk env) (SSH_MAX_PACKET + 1), tc_retry_length = 0, tc_retry_seqno = 0,
         tc_ssh_output = ssh_output, tc_writer = make_transport_write_state (en_junk env), tc_write_active = False,
         tc_write_margin = SSH_MAX_TRANSPORT_RESPONSE, tc_closing = 0, tc_event_handler = LSHD_EVENT_HANDLER,
         tc_packet_handler = None, tc_line_handler = False, tf_service_in = -1, tf_service_out = -1,
         tf_service_reader = make_service_read_state (en_junk env) 0, tf_service_read_active = False,
         tf_service_writer = make_ssh_write_state (en_junk env) 0, tf_service_write_active = False\<rparr>;
        c = io_register_fd ssh_input c in
      if ssh_output \<noteq> ssh_input then io_register_fd ssh_output c else c)"

definition transport_timeout :: "timeout \<Rightarrow> ('c, 'm, 'z, 'k, 'h) transport_connection \<Rightarrow> ('c, 'm, 'z, 'k, 'h) transport_connection" where
  "transport_timeout t c = c\<lparr>tc_expire := Some t\<rparr>"

section \<open>The service behind the connection\<close>

definition forward_start_read :: "('c, 'm, 'z, 'k, 'h) transport_connection \<Rightarrow> ('c, 'm, 'z, 'k, 'h) transport_connection" where
  "forward_start_read c =
     (if tf_service_read_active c then c
      else c\<lparr>tf_service_read_active := True, oop_read := (oop_read c)(tf_service_in c \<mapsto> OOP_SERVICE)\<rparr>)"

definition forward_stop_read :: "('c, 'm, 'z, 'k, 'h) transport_connection \<Rightarrow> ('c, 'm, 'z, 'k, 'h) transport_connection" where
  "forward_stop_read c =
     (if tf_service_read_active c
      then c\<lparr>tf_service_read_active := False, oop_read := (oop_read c)(tf_service_in c := None)\<rparr> else c)"

definition forward_start_write :: "('c, 'm, 'z, 'k, 'h) transport_connection \<Rightarrow> ('c, 'm, 'z, 'k, 'h) transport_connection" where
  "forward_start_write c =
     (if tf_service_write_active c then c
      else c\<lparr>tf_service_write_active := True, oop_write := (oop_write c)(tf_service_out c \<mapsto> OOP_SERVICE)\<rparr>)"

definition forward_stop_write :: "('c, 'm, 'z, 'k, 'h) transport_connection \<Rightarrow> ('c, 'm, 'z, 'k, 'h) transport_connection" where
  "forward_stop_write c =
     (if tf_service_write_active c
      then c\<lparr>tf_service_write_active := False, oop_write := (oop_write c)(tf_service_out c := None)\<rparr> else c)"

definition transport_forward_close :: "('c, 'm, 'z, 'k, 'h) transport_connection \<Rightarrow> ('c, 'm, 'z, 'k, 'h) transport_connection option" where
  "transport_forward_close c =
     (if tf_service_in c \<ge> 0
      then do { c \<leftarrow> io_close_fd (tf_service_in c) c;
                c \<leftarrow> (if tf_service_in c \<noteq> tf_service_out c then io_close_fd (tf_service_out c) c else Some c);
                Some (c\<lparr>tf_service_in := -1, tf_service_out := -1\<rparr>) }
      else Some c)"

section \<open>Closing\<close>

definition transport_connection_kill :: "('c, 'm, 'z, 'k, 'h) transport_connection \<Rightarrow> ('c, 'm, 'z, 'k, 'h) transport_connection option" where
  "transport_connection_kill c =
     do { let c = c\<lparr>tc_expire := None, oop_retry := False\<rparr>;
          c \<leftarrow> io_close_fd (tc_ssh_input c) c;
          c \<leftarrow> (if tc_ssh_output c \<noteq> tc_ssh_input c then io_close_fd (tc_ssh_output c) c else Some c);
          Some (c\<lparr>tc_ssh_input := -1, tc_ssh_output := -1\<rparr>) }"

definition transport_forward_kill :: "('c, 'm, 'z, 'k, 'h) transport_connection \<Rightarrow> ('c, 'm, 'z, 'k, 'h) transport_connection option" where
  "transport_forward_kill c = do { c \<leftarrow> transport_forward_close c; transport_connection_kill c }"

definition kill_lshd_connection :: "('c, 'm, 'z, 'k, 'h) transport_connection \<Rightarrow> ('c, 'm, 'z, 'k, 'h) transport_connection option" where
  "kill_lshd_connection c = (if tc_alive c then transport_forward_kill (c\<lparr>tc_alive := False\<rparr>) else Some c)"

text \<open>The event handlers. The operations of this theory report all events but \<open>TRANSPORT_EVENT_PUSH\<close>, whose handler in
  turn calls them; it is added in the theory of the reading loops.\<close>

definition lshd_event_handler ::
  "('c, 'm, 'z, 'k, 'h) transport_connection \<Rightarrow> transport_event \<Rightarrow> ('c, 'm, 'z, 'k, 'h) transport_connection" where
  "lshd_event_handler c event =
     (case event of
        TRANSPORT_EVENT_KEYEXCHANGE_COMPLETE \<Rightarrow> c\<lparr>tc_packet_handler := Some LSHD_PACKET_HANDLER\<rparr>
      | TRANSPORT_EVENT_START_APPLICATION \<Rightarrow> c
      | TRANSPORT_EVENT_STOP_APPLICATION \<Rightarrow> c
      | TRANSPORT_EVENT_CLOSE \<Rightarrow> c
      | TRANSPORT_EVENT_PUSH \<Rightarrow> c)"

definition forward_event_handler ::
  "('c, 'm, 'z, 'k, 'h) transport_connection \<Rightarrow> transport_event \<Rightarrow> ('c, 'm, 'z, 'k, 'h) transport_connection option" where
  "forward_event_handler c event =
     (case event of
        TRANSPORT_EVENT_START_APPLICATION \<Rightarrow> Some (forward_start_read c)
      | TRANSPORT_EVENT_STOP_APPLICATION \<Rightarrow> Some (forward_stop_read c)
      | TRANSPORT_EVENT_KEYEXCHANGE_COMPLETE \<Rightarrow> None
      | TRANSPORT_EVENT_CLOSE \<Rightarrow> do { c_assert (tf_service_in c \<ge> 0); transport_forward_close c }
      | TRANSPORT_EVENT_PUSH \<Rightarrow> None)"

definition event_handler ::
  "('c, 'm, 'z, 'k, 'h) transport_connection \<Rightarrow> transport_event \<Rightarrow> ('c, 'm, 'z, 'k, 'h) transport_connection option" where
  "event_handler c event =
     (case tc_event_handler c of
        LSHD_EVENT_HANDLER \<Rightarrow> Some (lshd_event_handler c event)
      | FORWARD_EVENT_HANDLER \<Rightarrow> forward_event_handler c event)"

definition transport_close :: "('c, 'm, 'z, 'k, 'h) transport_connection \<Rightarrow> bool \<Rightarrow> ('c, 'm, 'z, 'k, 'h) transport_connection option" where
  "transport_close c flush =
     (if tc_alive c \<and> tc_closing c = 0
      then do {
        c \<leftarrow> event_handler c TRANSPORT_EVENT_CLOSE;
        let c = c\<lparr>tc_expire := None\<rparr>;
        c \<leftarrow> (if tc_ssh_input c \<noteq> tc_ssh_output c then io_close_fd (tc_ssh_input c) c else Some c);
        let c = c\<lparr>tc_ssh_input := -1\<rparr>;
        if flush \<and> tc_write_active c
        then Some (transport_timeout TIMEOUT_CLOSE (c\<lparr>tc_closing := 1\<rparr>))
        else do { c \<leftarrow> io_close_fd (tc_ssh_output c) c; kill_lshd_connection (c\<lparr>tc_ssh_output := -1\<rparr>) } }
      else Some c)"

definition transport_timeout_close :: "('c, 'm, 'z, 'k, 'h) transport_connection \<Rightarrow> ('c, 'm, 'z, 'k, 'h) transport_connection option" where
  "transport_timeout_close c = kill_lshd_connection c"

section \<open>Sending\<close>

definition transport_write_almost_full :: "('c, 'm, 'z, 'k, 'h) transport_connection \<Rightarrow> bool" where
  "transport_write_almost_full c \<longleftrightarrow>
     w_length (tw_super (tc_writer c)) + tc_write_margin c > lsh_string_length (w_buffer (tw_super (tc_writer c)))"

definition transport_start_write :: "('c, 'm, 'z, 'k, 'h) transport_connection \<Rightarrow> ('c, 'm, 'z, 'k, 'h) transport_connection option" where
  "transport_start_write c =
     do { let c = (if tc_write_active c then c
                   else c\<lparr>tc_write_active := True, oop_write := (oop_write c)(tc_ssh_output c \<mapsto> OOP_SSH)\<rparr>);
          if \<not> ks_write_state (tc_kex c) \<and> transport_write_almost_full c
          then event_handler c TRANSPORT_EVENT_STOP_APPLICATION else Some c }"

text \<open>The output is closed by \<open>close\<close> and not by \<open>io_close_fd\<close>.\<close>

definition transport_stop_write :: "('c, 'm, 'z, 'k, 'h) transport_connection \<Rightarrow> ('c, 'm, 'z, 'k, 'h) transport_connection option" where
  "transport_stop_write c =
     (if tc_write_active c
      then do {
        let c = c\<lparr>tc_write_active := False, oop_write := (oop_write c)(tc_ssh_output c := None)\<rparr>;
        if tc_closing c \<noteq> 0
        then do { let c = c\<lparr>tc_ssh_output := -1, tc_closing := tc_closing c - 1\<rparr>;
                  if tc_closing c = 0 then kill_lshd_connection c else Some c }
        else if \<not> ks_write_state (tc_kex c) \<and> \<not> transport_write_almost_full c
        then event_handler c TRANSPORT_EVENT_START_APPLICATION else Some c }
      else Some c)"

definition transport_send_packet ::
  "('c, 'm, 'z, 'k, 'h) transport_connection \<Rightarrow> transport_write_flag \<Rightarrow> lsh_string option \<Rightarrow> ('c, 'm, 'z, 'k, 'h) transport_connection option" where
  "transport_send_packet c flags packet =
     (if \<not> tc_alive c then Some c
      else do {
        (status, writer, sent, ios) \<leftarrow>
          (case packet of
             Some p \<Rightarrow> transport_write_packet (en_junk c) (en_random c (en_calls c)) (tc_writer c) (tc_ssh_output c \<ge> 0) flags p (en_writes c)
           | None \<Rightarrow> transport_write_flush (en_junk c) (en_random c (en_calls c)) (tc_writer c) (tc_ssh_output c \<ge> 0) (en_writes c));
        let c = c\<lparr>tc_writer := writer, en_sent := en_sent c @ sent, en_writes := ios, en_calls := en_calls c + 1\<rparr>;
        (case status of
           TRANSPORT_WRITE_OVERFLOW \<Rightarrow> transport_close c False
         | TRANSPORT_WRITE_IO_ERROR \<Rightarrow> transport_close c False
         | TRANSPORT_WRITE_PENDING \<Rightarrow> transport_start_write c
         | TRANSPORT_WRITE_COMPLETE \<Rightarrow> transport_stop_write c) })"

abbreviation (input) TRANSPORT_WRITE_FLAG_PUSH :: transport_write_flag where
  "TRANSPORT_WRITE_FLAG_PUSH \<equiv> \<lparr>FLAG_PUSH = True, FLAG_IGNORE = False\<rparr>"

abbreviation (input) no_write_flags :: transport_write_flag where
  "no_write_flags \<equiv> \<lparr>FLAG_PUSH = False, FLAG_IGNORE = False\<rparr>"

text \<open>A formatted packet as a string object.\<close>

definition packet_of :: "bytes \<Rightarrow> lsh_string" where
  "packet_of bs = \<lparr>str_length = of_nat (length bs), str_data = bs @ [0]\<rparr>"

definition transport_disconnect ::
  "('c, 'm, 'z, 'k, 'h) transport_connection \<Rightarrow> u32 \<Rightarrow> string \<Rightarrow> ('c, 'm, 'z, 'k, 'h) transport_connection option" where
  "transport_disconnect c reason msg =
     do { c \<leftarrow> (if reason \<noteq> 0
                then do { p \<leftarrow> format_disconnect reason (cstring msg) [];
                          transport_send_packet c TRANSPORT_WRITE_FLAG_PUSH (Some (packet_of p)) }
                else Some c);
          transport_close c True }"

definition transport_protocol_error ::
  "('c, 'm, 'z, 'k, 'h) transport_connection \<Rightarrow> string \<Rightarrow> ('c, 'm, 'z, 'k, 'h) transport_connection option" where
  "transport_protocol_error c msg = transport_disconnect c SSH_DISCONNECT_PROTOCOL_ERROR msg"

definition transport_timeout_keyexchange :: "('c, 'm, 'z, 'k, 'h) transport_connection \<Rightarrow> ('c, 'm, 'z, 'k, 'h) transport_connection option" where
  "transport_timeout_keyexchange c = transport_disconnect c SSH_DISCONNECT_BY_APPLICATION ''Key exchange timeout''"

section \<open>Start of a key exchange\<close>

definition side :: "bool \<Rightarrow> nat" where
  "side is_server = (if is_server then 1 else 0)"

definition transport_send_kexinit :: "('c, 'm, 'z, 'k, 'h) transport_connection \<Rightarrow> ('c, 'm, 'z, 'k, 'h) transport_connection option" where
  "transport_send_kexinit c =
     do { let c = c\<lparr>tc_kex := (tc_kex c)\<lparr>ks_write_state := True\<rparr>\<rparr>;
          c \<leftarrow> (if tc_session_id c \<noteq> None then event_handler c TRANSPORT_EVENT_STOP_APPLICATION else Some c);
          let kex = make_kexinit (en_random c (en_calls c) 0) (tc_info c);
          let c = c\<lparr>en_calls := en_calls c + 1,
                    tc_kex := (tc_kex c)\<lparr>ks_kexinit := (ks_kexinit (tc_kex c))[side (tc_is_server c) := Some kex]\<rparr>\<rparr>;
          c_assert ((kx_first_kex_packet_follows kex \<noteq> 0) = (kx_first_kex_packet kex \<noteq> None));
          c_assert (ks_read_state (tc_kex c) = KEX_STATE_INIT);
          s \<leftarrow> format_kexinit (en_junk c) kex;
          t \<leftarrow> lsh_string_dup (en_junk c) s;
          let c = c\<lparr>tc_kex := (tc_kex c)\<lparr>ks_literal_kexinit := (ks_literal_kexinit (tc_kex c))[side (tc_is_server c) := Some t]\<rparr>\<rparr>;
          c \<leftarrow> transport_send_packet c TRANSPORT_WRITE_FLAG_PUSH (Some s);
          c \<leftarrow> (if kx_first_kex_packet_follows kex \<noteq> 0
                then transport_send_packet
                  (c\<lparr>tc_kex := (tc_kex c)\<lparr>ks_kexinit := (ks_kexinit (tc_kex c))[side (tc_is_server c) := Some (kex\<lparr>kx_first_kex_packet := None\<rparr>)]\<rparr>\<rparr>)
                  TRANSPORT_WRITE_FLAG_PUSH (kx_first_kex_packet kex)
                else Some c);
          Some (transport_timeout TIMEOUT_KEYEXCHANGE c) }"

definition transport_timeout_reexchange :: "('c, 'm, 'z, 'k, 'h) transport_connection \<Rightarrow> ('c, 'm, 'z, 'k, 'h) transport_connection option" where
  "transport_timeout_reexchange c = transport_send_kexinit c"

text \<open>\<open>gperf\<close> is the generated table of atoms; \<open>kex_init\<close> is the method \<open>init\<close> of the key exchange algorithm.\<close>

definition transport_kexinit_handler ::
  "gperf_atom \<Rightarrow> ('k \<Rightarrow> ('c, 'm, 'z, 'k, 'h) transport_connection \<Rightarrow> ('h option \<times> ('c, 'm, 'z, 'k, 'h) transport_connection) option) \<Rightarrow>
   ('c, 'm, 'z, 'k, 'h) transport_connection \<Rightarrow> u32 \<Rightarrow> bytes \<Rightarrow> ('c, 'm, 'z, 'k, 'h) transport_connection option" where
  "transport_kexinit_handler gperf kex_init c l packet =
     do { let is_server = tc_is_server c;
          c \<leftarrow> (if ks_kexinit (tc_kex c) ! side is_server = None then transport_send_kexinit c else Some c);
          (error, kex) \<leftarrow> handle_kexinit gperf (en_junk c) (tc_kex c) l packet (tc_algorithms c) is_server;
          let c = c\<lparr>tc_kex := kex\<rparr>;
          (case error of
             Some msg \<Rightarrow> transport_disconnect c SSH_DISCONNECT_KEY_EXCHANGE_FAILED msg
           | None \<Rightarrow>
               do { as \<leftarrow> ks_algorithm_list (tc_kex c);
                    (case as ! KEX_KEY_EXCHANGE of
                       Some (Keyexchange_algorithm k) \<Rightarrow>
                         do { (h, c) \<leftarrow> kex_init k c;
                              let c = c\<lparr>tc_keyexchange_handler := h\<rparr>;
                              if h = None then transport_disconnect c SSH_DISCONNECT_KEY_EXCHANGE_FAILED ''Configuration error''
                              else Some c }
                     | _ \<Rightarrow> None) }) }"

section \<open>End of a key exchange\<close>

text \<open>\<open>t ^ is_server\<close>: the values for the two directions differ in the last bit.\<close>

definition direction :: "nat \<Rightarrow> bool \<Rightarrow> nat" where
  "direction t is_server = (if is_server then (if even t then t + 1 else t - 1) else t)"

definition keyexchange_finish ::
  "('c, 'm, 'z, 'k, 'h) transport_connection \<Rightarrow> 'n nettle_hash \<Rightarrow> lsh_string \<Rightarrow> lsh_string \<Rightarrow>
   (bool \<times> ('c, 'm, 'z, 'k, 'h) transport_connection) option" where
  "keyexchange_finish c H exchange_hash K =
     do { let is_server = tc_is_server c;
          algorithms \<leftarrow> ks_algorithm_list (tc_kex c);
          c_assert (length algorithms = KEX_LIST_LENGTH);
          session_id \<leftarrow> tc_session_id c;
          secret \<leftarrow> kex_build_secret (en_junk c) H exchange_hash K;
          (ok, rec) \<leftarrow> kex_make_decrypt (en_junk c) secret algorithms (direction KEX_ENCRYPTION_SERVER_TO_CLIENT is_server) session_id;
          if \<not> ok then Some (False, c)
          else do {
            (ok, send) \<leftarrow> kex_make_encrypt (en_junk c) secret algorithms (direction KEX_ENCRYPTION_CLIENT_TO_SERVER is_server) session_id;
            if \<not> ok then Some (False, c)
            else do {
              rec_mac \<leftarrow> kex_make_mac (en_junk c) secret algorithms (direction KEX_MAC_SERVER_TO_CLIENT is_server) session_id;
              inflate \<leftarrow> kex_make_inflate algorithms (direction KEX_COMPRESSION_SERVER_TO_CLIENT is_server);
              let c = c\<lparr>tc_new_crypto := rec, tc_new_mac := rec_mac, tc_new_inflate := inflate\<rparr>;
              newkeys \<leftarrow> format_newkeys (en_junk c);
              c \<leftarrow> transport_send_packet c no_write_flags (Some newkeys);
              send_mac \<leftarrow> kex_make_mac (en_junk c) secret algorithms (direction KEX_MAC_CLIENT_TO_SERVER is_server) session_id;
              deflate \<leftarrow> kex_make_deflate algorithms (direction KEX_COMPRESSION_CLIENT_TO_SERVER is_server);
              let c = c\<lparr>tc_writer := transport_write_new_keys (tc_writer c) send_mac send deflate\<rparr>;
              c \<leftarrow> transport_send_packet c no_write_flags None;
              Some (True, c) } } }"

definition transport_keyexchange_finish ::
  "('c, 'm, 'z, 'k, 'h) transport_connection \<Rightarrow> 'n nettle_hash \<Rightarrow> lsh_string \<Rightarrow> lsh_string \<Rightarrow> ('c, 'm, 'z, 'k, 'h) transport_connection option" where
  "transport_keyexchange_finish c H exchange_hash K =
     do { let first = (tc_session_id c = None);
          let c = (if first then c\<lparr>tc_session_id := Some exchange_hash\<rparr> else c);
          (ok, c) \<leftarrow> keyexchange_finish c H exchange_hash K;
          if \<not> ok then transport_disconnect c SSH_DISCONNECT_KEY_EXCHANGE_FAILED ''Key exchange resulted in weak keys!''
          else do {
            c_assert (ks_read_state (tc_kex c) = KEX_STATE_IN_PROGRESS);
            let c = c\<lparr>tc_kex := (tc_kex c)\<lparr>ks_read_state := KEX_STATE_NEWKEYS, ks_write_state := False\<rparr>\<rparr>;
            event_handler c (if first then TRANSPORT_EVENT_KEYEXCHANGE_COMPLETE else TRANSPORT_EVENT_START_APPLICATION) } }"

end
