(* ===== verification/Transport_Process.thy ===== *)
theory Transport_Process
  imports Transport_Connection
begin

text \<open>
  The processing of received packets in \<open>src/transport.c\<close>, the forwarding of packets to and from the service process in
  \<open>src/transport_forward.c\<close>, and the handlers of \<open>src/lshd.c\<close>: the callbacks of the event loop.
\<close>

section \<open>What is outside\<close>

text \<open>\<open>ex_gperf\<close> is the generated table of atoms, \<open>ex_kex_init\<close> and \<open>ex_kex_handle\<close> are the methods of the key exchange algorithm, and
  \<open>ex_start_service\<close> looks a service up and starts its process.\<close>

datatype service_start = NO_SERVICE | NO_PROCESS | SERVICE_STARTED int

record ('c, 'm, 'z, 'k, 'h) externals =
  ex_gperf :: gperf_atom
  ex_kex_init :: "'k \<Rightarrow> ('c, 'm, 'z, 'k, 'h) transport_connection \<Rightarrow> ('h option \<times> ('c, 'm, 'z, 'k, 'h) transport_connection) option"
  ex_kex_handle :: "'h \<Rightarrow> ('c, 'm, 'z, 'k, 'h) transport_connection \<Rightarrow> u32 \<Rightarrow> bytes \<Rightarrow> ('c, 'm, 'z, 'k, 'h) transport_connection option"
  ex_start_service :: "bytes \<Rightarrow> service_start"

section \<open>Start and stop of reading\<close>

definition transport_start_read :: "('c, 'm, 'z, 'k, 'h) transport_connection \<Rightarrow> ('c, 'm, 'z, 'k, 'h) transport_connection" where
  "transport_start_read c =
     (if tc_read_active c then c
      else if tc_retry_length c \<noteq> 0 then c\<lparr>tc_read_active := True, oop_retry := True\<rparr>
      else c\<lparr>tc_read_active := True, oop_read := (oop_read c)(tc_ssh_input c \<mapsto> OOP_SSH)\<rparr>)"

definition transport_stop_read :: "('c, 'm, 'z, 'k, 'h) transport_connection \<Rightarrow> ('c, 'm, 'z, 'k, 'h) transport_connection" where
  "transport_stop_read c = c\<lparr>tc_read_active := False, oop_retry := False, oop_read := (oop_read c)(tc_ssh_input c := None)\<rparr>"

section \<open>To the service\<close>

definition service_failed :: "('c, 'm, 'z, 'k, 'h) transport_connection \<Rightarrow> ('c, 'm, 'z, 'k, 'h) transport_connection option" where
  "service_failed c = transport_disconnect c SSH_DISCONNECT_BY_APPLICATION ''Connection to service layer failed.''"

definition service_written :: "('c, 'm, 'z, 'k, 'h) transport_connection \<Rightarrow> write_result \<Rightarrow> ('c, 'm, 'z, 'k, 'h) transport_connection" where
  "service_written c r = c\<lparr>tf_service_writer := w_state r, en_service_sent := en_service_sent c @ w_sent r, en_service_writes := w_ios r\<rparr>"

definition service_write_continue :: "('c, 'm, 'z, 'k, 'h) transport_connection \<Rightarrow> ('c, 'm, 'z, 'k, 'h) transport_connection" where
  "service_write_continue c = (if w_length (tf_service_writer c) \<noteq> 0 then forward_start_write c else forward_stop_write c)"

definition transport_forward_service_packet ::
  "('c, 'm, 'z, 'k, 'h) transport_connection \<Rightarrow> u32 \<Rightarrow> u32 \<Rightarrow> bytes \<Rightarrow> (bool \<times> ('c, 'm, 'z, 'k, 'h) transport_connection) option" where
  "transport_forward_service_packet c seqno l packet =
     do { c_assert (l > 0);
          avail \<leftarrow> ssh_write_available (tf_service_writer c);
          if unat avail < unat l + 8 then Some (False, c)
          else do {
            let header = WRITE_UINT32 seqno @ WRITE_UINT32 l;
            r \<leftarrow> ssh_write_data (tf_service_writer c) 0 8 header (en_service_writes c);
            let c = service_written c r;
            r \<leftarrow> (if w_ret r > 0 \<or> w_errno r = Some EWOULDBLOCK
                  then ssh_write_data (tf_service_writer c) 0 l packet (en_service_writes c) else Some (r\<lparr>w_sent := []\<rparr>));
            let c = service_written c r;
            c \<leftarrow> (if w_ret r > 0 \<or> w_errno r = Some EWOULDBLOCK then Some (service_write_continue c) else service_failed c);
            Some (True, c) } }"

definition forward_packet_handler ::
  "('c, 'm, 'z, 'k, 'h) transport_connection \<Rightarrow> u32 \<Rightarrow> u32 \<Rightarrow> bytes \<Rightarrow> (bool \<times> ('c, 'm, 'z, 'k, 'h) transport_connection) option" where
  "forward_packet_handler c seqno l packet =
     do { c_assert (l > 0);
          if packet ! 0 \<ge> SSH_FIRST_LOCAL
          then do { p \<leftarrow> format_unimplemented seqno;
                    c \<leftarrow> transport_send_packet c TRANSPORT_WRITE_FLAG_PUSH (Some (packet_of p));
                    Some (True, c) }
          else transport_forward_service_packet c seqno l packet }"

definition forward_push :: "('c, 'm, 'z, 'k, 'h) transport_connection \<Rightarrow> ('c, 'm, 'z, 'k, 'h) transport_connection option" where
  "forward_push c =
     (if tf_service_out c \<ge> 0 \<and> w_length (tf_service_writer c) > 0
      then do { r \<leftarrow> ssh_write_flush (tf_service_writer c) 0 (en_service_writes c);
                let c = service_written c r;
                if w_ret r > 0 \<or> w_errno r = Some EWOULDBLOCK then Some (service_write_continue c) else service_failed c }
      else Some c)"

text \<open>The handlers of the event \<open>TRANSPORT_EVENT_PUSH\<close>.\<close>

definition push_event :: "('c, 'm, 'z, 'k, 'h) transport_connection \<Rightarrow> ('c, 'm, 'z, 'k, 'h) transport_connection option" where
  "push_event c = (case tc_event_handler c of LSHD_EVENT_HANDLER \<Rightarrow> Some (lshd_event_handler c TRANSPORT_EVENT_PUSH) | FORWARD_EVENT_HANDLER \<Rightarrow> forward_push c)"

definition oop_write_service :: "('c, 'm, 'z, 'k, 'h) transport_connection \<Rightarrow> int \<Rightarrow> ('c, 'm, 'z, 'k, 'h) transport_connection option" where
  "oop_write_service c fd =
     do { c_assert (fd = tf_service_out c);
          r \<leftarrow> ssh_write_flush (tf_service_writer c) 0 (en_service_writes c);
          let c = service_written c r;
          if w_ret r > 0
          then do { let c = (if w_length (tf_service_writer c) = 0 then forward_stop_write c else c);
                    avail \<leftarrow> ssh_write_available (tf_service_writer c);
                    Some (if avail > SSH_MAX_PACKET + 8 then transport_start_read c else c) }
          else if w_errno r \<noteq> Some EWOULDBLOCK then service_failed c
          else Some c }"

section \<open>From the service\<close>

definition transport_forward_packet ::
  "('c, 'm, 'z, 'k, 'h) transport_connection \<Rightarrow> u32 \<Rightarrow> bytes \<Rightarrow> ('c, 'm, 'z, 'k, 'h) transport_connection option" where
  "transport_forward_packet c l packet =
     do { (s, _) \<leftarrow> ssh_format no_bignum (en_junk c) ''%ls'' [Int_arg l, Data_arg packet];
          c \<leftarrow> transport_send_packet c no_write_flags (Some s);
          if packet ! 0 = SSH_MSG_DISCONNECT then transport_close c True else Some c }"

partial_function (option) read_service_loop ::
  "('c, 'm, 'z, 'k, 'h) transport_connection \<Rightarrow> bool \<Rightarrow> ('c, 'm, 'z, 'k, 'h) transport_connection option" where
  "read_service_loop c fd =
     (if tf_service_in c \<ge> 0 \<and> tf_service_read_active c
      then do {
        ((status, out), reader, sk) \<leftarrow> service_read_packet (tf_service_reader c) fd (en_service_input c);
        let c = c\<lparr>tf_service_reader := reader, en_service_input := sk\<rparr>;
        (case status of
           SSH_READ_IO_ERROR \<Rightarrow>
             do { c \<leftarrow> transport_disconnect c SSH_DISCONNECT_BY_APPLICATION ''Read from service layer failed.''; read_service_loop c False }
         | SSH_READ_PROTOCOL_ERROR \<Rightarrow>
             do { c \<leftarrow> transport_disconnect c SSH_DISCONNECT_BY_APPLICATION ''Invalid data from service layer.''; read_service_loop c False }
         | SSH_READ_EOF \<Rightarrow>
             do { c \<leftarrow> transport_disconnect c SSH_DISCONNECT_BY_APPLICATION ''Service done.''; read_service_loop c False }
         | SSH_READ_PUSH \<Rightarrow> transport_send_packet c no_write_flags None
         | SSH_READ_PENDING \<Rightarrow> Some c
         | SSH_READ_COMPLETE \<Rightarrow>
             (case out of
                SV_packet seqno l packet \<Rightarrow>
                  do { c \<leftarrow> (if l = 0 then transport_disconnect c SSH_DISCONNECT_BY_APPLICATION ''Received empty packet from service layer.''
                             else transport_forward_packet c l packet);
                       read_service_loop c False }
              | _ \<Rightarrow> None)) }
      else Some c)"

definition oop_read_service :: "('c, 'm, 'z, 'k, 'h) transport_connection \<Rightarrow> int \<Rightarrow> ('c, 'm, 'z, 'k, 'h) transport_connection option" where
  "oop_read_service c fd = do { c_assert (fd = tf_service_in c); read_service_loop c (fd \<ge> 0) }"

definition transport_forward_setup ::
  "(nat \<Rightarrow> byte) \<Rightarrow> ('c, 'm, 'z, 'k, 'h) transport_connection \<Rightarrow> int \<Rightarrow> int \<Rightarrow> ('c, 'm, 'z, 'k, 'h) transport_connection option" where
  "transport_forward_setup junk c service_in service_out =
     do { c_assert (tf_service_in c = -1);
          let c = c\<lparr>tf_service_in := service_in, tf_service_reader := make_service_read_state junk 0,
                    tf_service_out := service_out, tf_service_writer := make_ssh_write_state junk (3 * SSH_MAX_PACKET),
                    tc_event_handler := FORWARD_EVENT_HANDLER, tc_packet_handler := Some FORWARD_PACKET_HANDLER\<rparr>;
          let c = io_register_fd service_in c;
          let c = (if service_out \<noteq> service_in then io_register_fd service_out c else c);
          Some (forward_start_read c) }"

section \<open>The handlers of the server\<close>

definition lshd_line_handler ::
  "('c, 'm, 'z, 'k, 'h) transport_connection \<Rightarrow> bytes \<Rightarrow> ('c, 'm, 'z, 'k, 'h) transport_connection option" where
  "lshd_line_handler c line =
     (if length line < 8 \<or> take 4 line \<noteq> take 4 (cstring ''SSH-2.0-'')
      then transport_disconnect c 0 ''Bad version string.''
      else do { (s, _) \<leftarrow> ssh_format no_bignum (en_junk c) ''%ls'' [Int_arg (of_nat (length line)), Data_arg line];
                Some (c\<lparr>tc_kex := (tc_kex c)\<lparr>ks_version := (ks_version (tc_kex c))[0 := Some s]\<rparr>, tc_line_handler := False\<rparr>) })"

definition format_service_accept :: "bytes \<Rightarrow> bytes option" where
  "format_service_accept name = ssh_format_bytes ''%c%s'' [Int_arg SSH_MSG_SERVICE_ACCEPT, Int_arg (of_nat (length name)), Data_arg name]"

text \<open>The child process is not a part of the model.\<close>

definition lshd_service_request_handler ::
  "('c, 'm, 'z, 'k, 'h) externals \<Rightarrow> ('c, 'm, 'z, 'k, 'h) transport_connection \<Rightarrow> u32 \<Rightarrow> bytes \<Rightarrow> ('c, 'm, 'z, 'k, 'h) transport_connection option" where
  "lshd_service_request_handler ex c l packet =
     (case pand parse_uint8 (\<lambda>m. if m = SSH_MSG_SERVICE_REQUEST then parse_string else pfail) (simple_buffer_init l packet) of
        (Some (name_length, start), b) \<Rightarrow>
          if parse_eod b
          then (let name = take (unat name_length) start in
                (case ex_start_service ex name of
                   NO_SERVICE \<Rightarrow> transport_disconnect c SSH_DISCONNECT_SERVICE_NOT_AVAILABLE ''Service not available''
                 | NO_PROCESS \<Rightarrow> transport_disconnect c SSH_DISCONNECT_SERVICE_NOT_AVAILABLE ''Service could not be started''
                 | SERVICE_STARTED fd \<Rightarrow>
                     do { p \<leftarrow> format_service_accept name;
                          c \<leftarrow> transport_send_packet c TRANSPORT_WRITE_FLAG_PUSH (Some (packet_of p));
                          transport_forward_setup (en_junk c) c fd fd }))
          else transport_protocol_error c ''Invalid SERVICE_REQUEST''
      | _ \<Rightarrow> transport_protocol_error c ''Invalid SERVICE_REQUEST'')"

definition lshd_packet_handler ::
  "('c, 'm, 'z, 'k, 'h) externals \<Rightarrow> ('c, 'm, 'z, 'k, 'h) transport_connection \<Rightarrow> u32 \<Rightarrow> u32 \<Rightarrow> bytes \<Rightarrow>
   (bool \<times> ('c, 'm, 'z, 'k, 'h) transport_connection) option" where
  "lshd_packet_handler ex c seqno l packet =
     do { c_assert (l > 0);
          c \<leftarrow> (if packet ! 0 = SSH_MSG_SERVICE_REQUEST then lshd_service_request_handler ex c l packet
                else do { p \<leftarrow> format_unimplemented seqno; transport_send_packet c TRANSPORT_WRITE_FLAG_PUSH (Some (packet_of p)) });
          Some (True, c) }"

definition packet_handler ::
  "('c, 'm, 'z, 'k, 'h) externals \<Rightarrow> packet_method \<Rightarrow> ('c, 'm, 'z, 'k, 'h) transport_connection \<Rightarrow> u32 \<Rightarrow> u32 \<Rightarrow> bytes \<Rightarrow>
   (bool \<times> ('c, 'm, 'z, 'k, 'h) transport_connection) option" where
  "packet_handler ex m c seqno l packet =
     (case m of
        LSHD_PACKET_HANDLER \<Rightarrow> lshd_packet_handler ex c seqno l packet
      | FORWARD_PACKET_HANDLER \<Rightarrow> forward_packet_handler c seqno l packet)"

section \<open>Packets\<close>

text \<open>The result is false when the packet should be processed again later.\<close>

definition transport_process_packet ::
  "('c, 'm, 'z, 'k, 'h) externals \<Rightarrow> ('c, 'm, 'z, 'k, 'h) transport_connection \<Rightarrow> u32 \<Rightarrow> u32 \<Rightarrow> lsh_string \<Rightarrow>
   (bool \<times> ('c, 'm, 'z, 'k, 'h) transport_connection) option" where
  "transport_process_packet ex c seqno l packet =
     (if l = 0 then map_option (Pair True) (transport_protocol_error c ''Received empty packet'')
      else (let data = lsh_string_data packet; msg = data ! 0 in
        if msg = SSH_MSG_IGNORE then Some (True, c)
        else if msg = SSH_MSG_UNIMPLEMENTED then map_option (Pair True) (transport_close c False)
        else if msg = SSH_MSG_DISCONNECT then map_option (Pair True) (transport_close c False)
        else if msg = SSH_MSG_DEBUG then Some (True, c)
        else (case ks_read_state (tc_kex c) of
          KEX_STATE_IGNORE \<Rightarrow> Some (True, c\<lparr>tc_kex := (tc_kex c)\<lparr>ks_read_state := KEX_STATE_IN_PROGRESS\<rparr>\<rparr>)
        | KEX_STATE_IN_PROGRESS \<Rightarrow>
            if msg < SSH_FIRST_KEYEXCHANGE_SPECIFIC \<or> msg \<ge> SSH_FIRST_USERAUTH_GENERIC
            then map_option (Pair True) (transport_protocol_error c ''Unexpected message during key exchange'')
            else do { h \<leftarrow> tc_keyexchange_handler c; map_option (Pair True) (ex_kex_handle ex h c l data) }
        | KEX_STATE_NEWKEYS \<Rightarrow>
            if msg \<noteq> SSH_MSG_NEWKEYS then map_option (Pair True) (transport_protocol_error c ''NEWKEYS expected'')
            else if l \<noteq> 1 then map_option (Pair True) (transport_protocol_error c ''Invalid NEWKEYS message'')
            else Some (True, transport_timeout TIMEOUT_REEXCHANGE
              (c\<lparr>tc_reader := transport_read_new_keys (tc_reader c) (tc_new_mac c) (tc_new_crypto c) (tc_new_inflate c),
                 tc_new_mac := None, tc_new_crypto := None, tc_new_inflate := None, tc_kex := reset_kexinit_state (tc_kex c)\<rparr>))
        | KEX_STATE_INIT \<Rightarrow>
            if msg = SSH_MSG_KEXINIT
            then map_option (Pair True) (transport_kexinit_handler (ex_gperf ex) (ex_kex_init ex) c l data)
            else if msg < SSH_FIRST_KEYEXCHANGE_GENERIC \<or> msg \<ge> SSH_FIRST_USERAUTH_GENERIC
            then (case tc_packet_handler c of
                    Some m \<Rightarrow> packet_handler ex m c seqno l data
                  | None \<Rightarrow> do { p \<leftarrow> format_unimplemented seqno;
                                map_option (Pair True) (transport_send_packet c TRANSPORT_WRITE_FLAG_PUSH (Some (packet_of p))) })
            else do { p \<leftarrow> format_unimplemented seqno;
                      map_option (Pair True) (transport_send_packet c TRANSPORT_WRITE_FLAG_PUSH (Some (packet_of p))) })))"

section \<open>Callbacks\<close>

text \<open>An error of the reader; the message may be missing when nothing is sent.\<close>

definition read_protocol_error ::
  "('c, 'm, 'z, 'k, 'h) transport_connection \<Rightarrow> transport_out \<Rightarrow> ('c, 'm, 'z, 'k, 'h) transport_connection option" where
  "read_protocol_error c out =
     (case out of
        TR_error reason (Some msg) \<Rightarrow> transport_disconnect c reason msg
      | TR_error reason None \<Rightarrow> if reason = 0 then transport_close c True else None
      | _ \<Rightarrow> None)"

text \<open>The two loops of \<open>oop_read_ssh\<close>; the first returns whether the callback returns.\<close>

partial_function (option) read_line_loop ::
  "('c, 'm, 'z, 'k, 'h) transport_connection \<Rightarrow> bool \<Rightarrow> (bool \<times> ('c, 'm, 'z, 'k, 'h) transport_connection \<times> bool) option" where
  "read_line_loop c fd =
     (if tc_line_handler c \<and> tc_ssh_input c \<ge> 0
      then do {
        ((status, out), reader, sk) \<leftarrow> transport_read_line (tc_reader c) fd (en_input c);
        let c = c\<lparr>tc_reader := reader, en_input := sk\<rparr>;
        (case status of
           SSH_READ_IO_ERROR \<Rightarrow> do { c \<leftarrow> transport_close c False; read_line_loop c False }
         | SSH_READ_PROTOCOL_ERROR \<Rightarrow> do { c \<leftarrow> read_protocol_error c out; read_line_loop c False }
         | SSH_READ_EOF \<Rightarrow> do { c \<leftarrow> transport_close c False; read_line_loop c False }
         | SSH_READ_COMPLETE \<Rightarrow>
             (case out of TR_line line \<Rightarrow> do { c \<leftarrow> lshd_line_handler c line; read_line_loop c False } | _ \<Rightarrow> None)
         | SSH_READ_PENDING \<Rightarrow> Some (True, c, False)
         | SSH_READ_PUSH \<Rightarrow> Some (True, c, False)) }
      else Some (False, c, fd))"

partial_function (option) read_packet_loop ::
  "('c, 'm, 'z, 'k, 'h) externals \<Rightarrow> ('c, 'm, 'z, 'k, 'h) transport_connection \<Rightarrow> bool \<Rightarrow> ('c, 'm, 'z, 'k, 'h) transport_connection option" where
  "read_packet_loop ex c fd =
     (if tc_ssh_input c \<ge> 0
      then do {
        ((status, out), reader, sk, packet) \<leftarrow> transport_read_packet (tc_reader c) fd (en_input c) (tc_read_packet c);
        let c = c\<lparr>tc_reader := reader, en_input := sk, tc_read_packet := packet\<rparr>;
        (case status of
           SSH_READ_IO_ERROR \<Rightarrow> do { c \<leftarrow> transport_close c False; read_packet_loop ex c False }
         | SSH_READ_PROTOCOL_ERROR \<Rightarrow> do { c \<leftarrow> read_protocol_error c out; read_packet_loop ex c False }
         | SSH_READ_EOF \<Rightarrow> do { c \<leftarrow> transport_close c False; read_packet_loop ex c False }
         | SSH_READ_PUSH \<Rightarrow> push_event c
         | SSH_READ_PENDING \<Rightarrow> Some c
         | SSH_READ_COMPLETE \<Rightarrow>
             (case out of
                TR_packet seqno l \<Rightarrow>
                  do { (ok, c) \<leftarrow> transport_process_packet ex c seqno l (tc_read_packet c);
                       if ok then read_packet_loop ex c False
                       else Some (transport_stop_read (c\<lparr>tc_retry_length := l, tc_retry_seqno := seqno\<rparr>)) }
              | _ \<Rightarrow> None)) }
      else Some c)"

definition oop_read_ssh ::
  "('c, 'm, 'z, 'k, 'h) externals \<Rightarrow> ('c, 'm, 'z, 'k, 'h) transport_connection \<Rightarrow> int \<Rightarrow> ('c, 'm, 'z, 'k, 'h) transport_connection option" where
  "oop_read_ssh ex c fd =
     do { c_assert (fd = tc_ssh_input c);
          c_assert (tc_retry_length c = 0);
          (stop, c, fd) \<leftarrow> read_line_loop c (fd \<ge> 0);
          if stop then Some c else read_packet_loop ex c fd }"

partial_function (option) retry_packet_loop ::
  "('c, 'm, 'z, 'k, 'h) externals \<Rightarrow> ('c, 'm, 'z, 'k, 'h) transport_connection \<Rightarrow> ('c, 'm, 'z, 'k, 'h) transport_connection option" where
  "retry_packet_loop ex c =
     (if tc_ssh_input c \<ge> 0
      then do {
        ((status, out), reader, sk, packet) \<leftarrow> transport_read_packet (tc_reader c) False (en_input c) (tc_read_packet c);
        let c = c\<lparr>tc_reader := reader, en_input := sk, tc_read_packet := packet\<rparr>;
        (case status of
           SSH_READ_IO_ERROR \<Rightarrow> do { c \<leftarrow> transport_close c False; retry_packet_loop ex c }
         | SSH_READ_PROTOCOL_ERROR \<Rightarrow> do { c \<leftarrow> read_protocol_error c out; retry_packet_loop ex c }
         | SSH_READ_EOF \<Rightarrow> do { c \<leftarrow> transport_close c False; retry_packet_loop ex c }
         | SSH_READ_PUSH \<Rightarrow> map_option transport_start_read (push_event c)
         | SSH_READ_PENDING \<Rightarrow> Some (transport_start_read c)
         | SSH_READ_COMPLETE \<Rightarrow>
             (case out of
                TR_packet seqno l \<Rightarrow>
                  do { (ok, c) \<leftarrow> transport_process_packet ex c seqno l (tc_read_packet c);
                       if ok then retry_packet_loop ex c
                       else Some (c\<lparr>tc_retry_length := l, tc_retry_seqno := seqno\<rparr>) }
              | _ \<Rightarrow> None)) }
      else Some c)"

definition oop_timer_retry ::
  "('c, 'm, 'z, 'k, 'h) externals \<Rightarrow> ('c, 'm, 'z, 'k, 'h) transport_connection \<Rightarrow> ('c, 'm, 'z, 'k, 'h) transport_connection option" where
  "oop_timer_retry ex c =
     do { c_assert (tc_alive c);
          let l = tc_retry_length c;
          let seqno = tc_retry_seqno c;
          c_assert (l \<noteq> 0);
          let c = c\<lparr>tc_retry_length := 0, tc_retry_seqno := 0, tc_read_active := False\<rparr>;
          m \<leftarrow> tc_packet_handler c;
          (ok, c) \<leftarrow> packet_handler ex m c seqno l (lsh_string_data (tc_read_packet c));
          if \<not> ok then transport_disconnect c SSH_DISCONNECT_BY_APPLICATION ''Application layer not responsive.''
          else retry_packet_loop ex c }"

definition oop_write_ssh :: "('c, 'm, 'z, 'k, 'h) transport_connection \<Rightarrow> int \<Rightarrow> ('c, 'm, 'z, 'k, 'h) transport_connection option" where
  "oop_write_ssh c fd =
     do { c_assert (fd = tc_ssh_output c);
          (status, writer, sent, ios) \<leftarrow> transport_write_flush (en_junk c) (en_random c (en_calls c)) (tc_writer c) (fd \<ge> 0) (en_writes c);
          let c = c\<lparr>tc_writer := writer, en_sent := en_sent c @ sent, en_writes := ios, en_calls := en_calls c + 1\<rparr>;
          (case status of
             TRANSPORT_WRITE_OVERFLOW \<Rightarrow> None
           | TRANSPORT_WRITE_PENDING \<Rightarrow> Some c
           | TRANSPORT_WRITE_COMPLETE \<Rightarrow> transport_stop_write c
           | TRANSPORT_WRITE_IO_ERROR \<Rightarrow> transport_close c False) }"

definition transport_handshake ::
  "('c, 'm, 'z, 'k, 'h) transport_connection \<Rightarrow> lsh_string \<Rightarrow> ('c, 'm, 'z, 'k, 'h) transport_connection option" where
  "transport_handshake c version =
     do { let c = c\<lparr>tc_kex := (tc_kex c)\<lparr>ks_version := (ks_version (tc_kex c))[side (tc_is_server c) := Some version]\<rparr>\<rparr>;
          (s, _) \<leftarrow> ssh_format no_bignum (en_junk c) (''%lS'' @ [CHR 0x0d, CHR 0x0a]) [String_arg version];
          (status, writer, sent, ios) \<leftarrow> transport_write_line (tc_writer c) (tc_ssh_output c \<ge> 0) s (en_writes c);
          let c = c\<lparr>tc_writer := writer, en_sent := en_sent c @ sent, en_writes := ios\<rparr>;
          c \<leftarrow> (if write_failed status then transport_close c False else Some c);
          c \<leftarrow> transport_send_kexinit c;
          Some (transport_start_read (c\<lparr>tc_line_handler := True\<rparr>)) }"

end
