(* ===== verification/Connection_Safety.thy ===== *)
theory Connection_Safety
  imports Transport_Process
begin

text \<open>
  What the operations of a connection leave alone, and what follows for the security of the key exchange: no packet reaches the
  service while keys are exchanged, and the keys for receiving change with the message \<open>NEWKEYS\<close> and at no other time.
\<close>

section \<open>What sending and closing leave alone\<close>

text \<open>The state of the key exchange, the reader and the stream to the service.\<close>

definition kept :: "('c, 'm, 'z, 'k, 'h) transport_connection \<Rightarrow> ('c, 'm, 'z, 'k, 'h) transport_connection \<Rightarrow> bool" where
  "kept c c' \<longleftrightarrow> tc_kex c' = tc_kex c \<and> tc_session_id c' = tc_session_id c \<and> tc_keyexchange_handler c' = tc_keyexchange_handler c
     \<and> tc_new_mac c' = tc_new_mac c \<and> tc_new_crypto c' = tc_new_crypto c \<and> tc_new_inflate c' = tc_new_inflate c
     \<and> tc_reader c' = tc_reader c \<and> en_input c' = en_input c \<and> tc_is_server c' = tc_is_server c \<and> tc_info c' = tc_info c
     \<and> tc_algorithms c' = tc_algorithms c
     \<and> tf_service_writer c' = tf_service_writer c \<and> en_service_sent c' = en_service_sent c \<and> en_service_writes c' = en_service_writes c"

lemma kept_refl [simp]: "kept c c"
  by (simp add: kept_def)

lemma kept_trans: "kept a b \<Longrightarrow> kept b c \<Longrightarrow> kept a c"
  by (simp add: kept_def)

lemma kept_io_close_fd: "io_close_fd fd c = Some c' \<Longrightarrow> kept c c'"
  by (auto simp: io_close_fd_def kept_def c_assert_bind Let_def split: if_splits)

lemma kept_forward_close: "transport_forward_close c = Some c' \<Longrightarrow> kept c c'"
  by (auto simp: transport_forward_close_def split: if_splits bind_splits dest!: kept_io_close_fd) (auto simp: kept_def)

lemma kept_connection_kill: "transport_connection_kill c = Some c' \<Longrightarrow> kept c c'"
  by (auto simp: transport_connection_kill_def split: if_splits bind_splits dest!: kept_io_close_fd) (auto simp: kept_def)

lemma kept_forward_kill: "transport_forward_kill c = Some c' \<Longrightarrow> kept c c'"
  by (auto simp: transport_forward_kill_def split: bind_splits dest!: kept_forward_close kept_connection_kill intro: kept_trans)

lemma kept_kill: "kill_lshd_connection c = Some c' \<Longrightarrow> kept c c'"
  by (auto simp: kill_lshd_connection_def split: if_splits dest!: kept_forward_kill) (auto simp: kept_def)

lemma kept_event_handler: "event_handler c event = Some c' \<Longrightarrow> kept c c'"
  by (cases "tc_event_handler c"; cases event)
    (auto simp: event_handler_def lshd_event_handler_def forward_event_handler_def forward_start_read_def forward_stop_read_def
      kept_def c_assert_bind split: if_splits dest!: kept_forward_close)

lemma kept_close: "transport_close c flush = Some c' \<Longrightarrow> kept c c'"
  unfolding transport_close_def Let_def
  by (auto split: if_splits bind_splits dest!: kept_event_handler kept_io_close_fd kept_kill)
    (auto simp: kept_def transport_timeout_def)

lemma kept_start_write: "transport_start_write c = Some c' \<Longrightarrow> kept c c'"
  by (auto simp: transport_start_write_def Let_def split: if_splits dest!: kept_event_handler) (auto simp: kept_def)

lemma kept_stop_write: "transport_stop_write c = Some c' \<Longrightarrow> kept c c'"
  by (auto simp: transport_stop_write_def Let_def split: if_splits dest!: kept_event_handler kept_kill) (auto simp: kept_def)

lemma kept_send_packet: "transport_send_packet c flags packet = Some c' \<Longrightarrow> kept c c'"
  unfolding transport_send_packet_def Let_def
  by (auto split: if_splits bind_splits transport_write_status.splits dest!: kept_close kept_start_write kept_stop_write)
    (auto simp: kept_def)

lemma kept_disconnect: "transport_disconnect c reason msg = Some c' \<Longrightarrow> kept c c'"
  by (auto simp: transport_disconnect_def split: if_splits bind_splits dest!: kept_send_packet kept_close intro: kept_trans)

lemma kept_protocol_error: "transport_protocol_error c msg = Some c' \<Longrightarrow> kept c c'"
  by (auto simp: transport_protocol_error_def dest: kept_disconnect)

section \<open>The state of the key exchange\<close>

text \<open>What the methods of a key exchange algorithm may do to a connection: they leave the reader and the stream to the service alone; the
  handler leaves the key exchange in progress or finishes it.\<close>

definition untouched :: "('c, 'm, 'z, 'k, 'h) transport_connection \<Rightarrow> ('c, 'm, 'z, 'k, 'h) transport_connection \<Rightarrow> bool" where
  "untouched c c' \<longleftrightarrow> tc_reader c' = tc_reader c \<and> tf_service_writer c' = tf_service_writer c \<and> en_service_sent c' = en_service_sent c
     \<and> en_service_writes c' = en_service_writes c"

definition kex_methods_ok :: "('c, 'm, 'z, 'k, 'h) externals \<Rightarrow> bool" where
  "kex_methods_ok ex \<longleftrightarrow>
     (\<forall>k c h c'. ex_kex_init ex k c = Some (h, c') \<longrightarrow> untouched c c' \<and> ks_read_state (tc_kex c') = ks_read_state (tc_kex c))
     \<and> (\<forall>h c l d c'. ex_kex_handle ex h c l d = Some c' \<longrightarrow> untouched c c' \<and>
          (ks_read_state (tc_kex c) = KEX_STATE_IN_PROGRESS \<longrightarrow> ks_read_state (tc_kex c') \<in> {KEX_STATE_IN_PROGRESS, KEX_STATE_NEWKEYS}))"

lemma kept_untouched: "kept c c' \<Longrightarrow> untouched c c'"
  by (simp add: kept_def untouched_def)

lemma untouched_refl [simp]: "untouched c c"
  by (simp add: untouched_def)

lemma untouched_trans: "untouched a b \<Longrightarrow> untouched b c \<Longrightarrow> untouched a c"
  by (simp add: untouched_def)

text \<open>The protocol of the states: a message of the first four kinds changes nothing; otherwise the state and the number of the message decide.\<close>

definition generic_message :: "byte \<Rightarrow> bool" where
  "generic_message msg \<longleftrightarrow> msg \<in> {SSH_MSG_DISCONNECT, SSH_MSG_IGNORE, SSH_MSG_UNIMPLEMENTED, SSH_MSG_DEBUG}"

inductive kex_step :: "kex_state \<Rightarrow> byte \<Rightarrow> kex_state \<Rightarrow> bool" where
  generic: "generic_message msg \<Longrightarrow> kex_step st msg st"
| start: "st \<in> {KEX_STATE_IN_PROGRESS, KEX_STATE_IGNORE} \<Longrightarrow> kex_step KEX_STATE_INIT SSH_MSG_KEXINIT st"
| application: "msg \<noteq> SSH_MSG_KEXINIT \<Longrightarrow> kex_step KEX_STATE_INIT msg KEX_STATE_INIT"
| ignored: "\<not> generic_message msg \<Longrightarrow> kex_step KEX_STATE_IGNORE msg KEX_STATE_IN_PROGRESS"
| exchange: "SSH_FIRST_KEYEXCHANGE_SPECIFIC \<le> msg \<Longrightarrow> msg < SSH_FIRST_USERAUTH_GENERIC \<Longrightarrow>
    st \<in> {KEX_STATE_IN_PROGRESS, KEX_STATE_NEWKEYS} \<Longrightarrow> kex_step KEX_STATE_IN_PROGRESS msg st"
| unexpected: "msg < SSH_FIRST_KEYEXCHANGE_SPECIFIC \<or> SSH_FIRST_USERAUTH_GENERIC \<le> msg \<Longrightarrow> kex_step KEX_STATE_IN_PROGRESS msg KEX_STATE_IN_PROGRESS"
| newkeys: "kex_step KEX_STATE_NEWKEYS SSH_MSG_NEWKEYS KEX_STATE_INIT"
| no_newkeys: "kex_step KEX_STATE_NEWKEYS msg KEX_STATE_NEWKEYS"

inductive_simps kex_step_simps: "kex_step st msg st'"

lemma select_algorithms_state:
  "select_algorithms get client server msg self = Some (e, self') \<Longrightarrow> ks_read_state self' \<in> {ks_read_state self, KEX_STATE_IGNORE}"
  unfolding select_algorithms_def Let_def by (auto split: if_splits bind_splits)

lemma handle_kexinit_state:
  "handle_kexinit gperf junk self l packet get is_server = Some (e, self') \<Longrightarrow> ks_read_state self' \<in> {KEX_STATE_IN_PROGRESS, KEX_STATE_IGNORE}"
  unfolding handle_kexinit_def Let_def c_assert_bind
  by (auto split: if_splits bind_splits option.splits dest!: select_algorithms_state)

lemma send_kexinit_untouched: "transport_send_kexinit c = Some c' \<Longrightarrow> untouched c c'"
  unfolding transport_send_kexinit_def Let_def c_assert_bind
  by (auto split: if_splits bind_splits dest!: kept_event_handler kept_send_packet) (auto simp: kept_def untouched_def transport_timeout_def)

lemma kexinit_handler_step:
  assumes "transport_kexinit_handler (ex_gperf ex) (ex_kex_init ex) c l packet = Some c'" "kex_methods_ok ex"
  shows "untouched c c' \<and> ks_read_state (tc_kex c') \<in> {KEX_STATE_IN_PROGRESS, KEX_STATE_IGNORE}"
proof -
  obtain c1 e kex where 1: "(if ks_kexinit (tc_kex c) ! side (tc_is_server c) = None then transport_send_kexinit c else Some c) = Some c1"
      "handle_kexinit (ex_gperf ex) (en_junk c1) (tc_kex c1) l packet (tc_algorithms c1) (tc_is_server c) = Some (e, kex)"
    using assms(1) unfolding transport_kexinit_handler_def Let_def by (auto split: bind_splits)
  have u1: "untouched c (c1\<lparr>tc_kex := kex\<rparr>)" using 1(1) send_kexinit_untouched [of c c1] by (auto simp: untouched_def split: if_splits)
  have s1: "ks_read_state kex \<in> {KEX_STATE_IN_PROGRESS, KEX_STATE_IGNORE}" using handle_kexinit_state [OF 1(2)] .
  let ?c = "c1\<lparr>tc_kex := kex\<rparr>"
  have rest: "untouched ?c c' \<and> ks_read_state (tc_kex c') = ks_read_state kex"
  proof (cases e)
    case (Some msg)
    then have "transport_disconnect ?c 3 msg = Some c'" using assms(1) 1 by (simp add: transport_kexinit_handler_def)
    then show ?thesis using kept_disconnect kept_untouched by (fastforce simp: kept_def)
  next
    case None
    then obtain k h c2 where k: "ex_kex_init ex k ?c = Some (h, c2)"
        "(if h = None then transport_disconnect (c2\<lparr>tc_keyexchange_handler := h\<rparr>) 3 ''Configuration error'' else Some (c2\<lparr>tc_keyexchange_handler := h\<rparr>)) = Some c'"
      using assms(1) 1 by (auto simp: transport_kexinit_handler_def Let_def split: bind_splits option.splits algorithm.splits)
    have "untouched ?c c2" "ks_read_state (tc_kex c2) = ks_read_state kex" using assms(2) k(1) unfolding kex_methods_ok_def by fastforce+
    moreover have "kept (c2\<lparr>tc_keyexchange_handler := h\<rparr>) c'" using k(2) by (auto split: if_splits dest: kept_disconnect)
    ultimately show ?thesis by (simp add: kept_def untouched_def)
  qed
  then show ?thesis using u1 s1 untouched_trans by auto
qed

lemma service_failed_kept: "service_failed c = Some c' \<Longrightarrow> kept c c'"
  by (auto simp: service_failed_def dest: kept_disconnect)

lemma forward_service_packet_kex: "transport_forward_service_packet c seqno l packet = Some (ok, c') \<Longrightarrow> tc_kex c' = tc_kex c \<and> tc_reader c' = tc_reader c"
  unfolding transport_forward_service_packet_def Let_def c_assert_bind
  by (auto split: if_splits bind_splits dest!: service_failed_kept)
    (auto simp: kept_def service_written_def service_write_continue_def forward_start_write_def forward_stop_write_def)

lemma forward_packet_handler_kex: "forward_packet_handler c seqno l packet = Some (ok, c') \<Longrightarrow> tc_kex c' = tc_kex c \<and> tc_reader c' = tc_reader c"
  unfolding forward_packet_handler_def c_assert_bind
  by (auto split: if_splits bind_splits dest!: forward_service_packet_kex kept_send_packet) (auto simp: kept_def)

lemma forward_setup_kex: "transport_forward_setup junk c i j = Some c' \<Longrightarrow> tc_kex c' = tc_kex c \<and> tc_reader c' = tc_reader c"
  unfolding transport_forward_setup_def Let_def c_assert_bind
  by (auto simp: io_register_fd_def forward_start_read_def split: if_splits)

lemma service_request_kex: "lshd_service_request_handler ex c l packet = Some c' \<Longrightarrow> tc_kex c' = tc_kex c \<and> tc_reader c' = tc_reader c"
  unfolding lshd_service_request_handler_def Let_def
  by (auto split: prod.splits option.splits if_splits service_start.splits bind_splits
      dest!: kept_disconnect kept_protocol_error kept_send_packet forward_setup_kex) (auto simp: kept_def)

lemma lshd_packet_handler_kex: "lshd_packet_handler ex c seqno l packet = Some (ok, c') \<Longrightarrow> tc_kex c' = tc_kex c \<and> tc_reader c' = tc_reader c"
  unfolding lshd_packet_handler_def c_assert_bind
  by (auto split: if_splits bind_splits dest!: service_request_kex kept_send_packet) (auto simp: kept_def)

lemma packet_handler_kex: "packet_handler ex m c seqno l packet = Some (ok, c') \<Longrightarrow> tc_kex c' = tc_kex c \<and> tc_reader c' = tc_reader c"
  by (cases m) (auto simp: packet_handler_def dest: lshd_packet_handler_kex forward_packet_handler_kex)

text \<open>The stream to the service and the results of the system calls for it.\<close>

definition service_same :: "('c, 'm, 'z, 'k, 'h) transport_connection \<Rightarrow> ('c, 'm, 'z, 'k, 'h) transport_connection \<Rightarrow> bool" where
  "service_same c c' \<longleftrightarrow> tf_service_writer c' = tf_service_writer c \<and> en_service_sent c' = en_service_sent c"

text \<open>The three parts of a step of \<open>transport_process_packet\<close>.\<close>

definition process_step ::
  "('c, 'm, 'z, 'k, 'h) transport_connection \<Rightarrow> byte \<Rightarrow> u32 \<Rightarrow> ('c, 'm, 'z, 'k, 'h) transport_connection \<Rightarrow> bool" where
  "process_step c msg l c' \<longleftrightarrow> kex_step (ks_read_state (tc_kex c)) msg (ks_read_state (tc_kex c'))
     \<and> (service_same c c' \<or> ks_read_state (tc_kex c) = KEX_STATE_INIT \<and> \<not> generic_message msg
          \<and> (msg < SSH_FIRST_KEYEXCHANGE_GENERIC \<or> SSH_FIRST_USERAUTH_GENERIC \<le> msg))
     \<and> (tc_reader c' = tc_reader c \<or> ks_read_state (tc_kex c) = KEX_STATE_NEWKEYS \<and> msg = SSH_MSG_NEWKEYS \<and> l = 1
          \<and> tc_reader c' = transport_read_new_keys (tc_reader c) (tc_new_mac c) (tc_new_crypto c) (tc_new_inflate c))"

lemma kept_step: "kept c c' \<Longrightarrow> kex_step (ks_read_state (tc_kex c)) msg (ks_read_state (tc_kex c)) \<Longrightarrow> process_step c msg l c'"
  by (simp add: process_step_def kept_def service_same_def)

lemma untouched_step: "untouched c c' \<Longrightarrow> kex_step (ks_read_state (tc_kex c)) msg (ks_read_state (tc_kex c')) \<Longrightarrow> process_step c msg l c'"
  by (simp add: process_step_def untouched_def service_same_def)

text \<open>One lemma per state; \<open>msg\<close> is the first byte.\<close>

lemma process_generic:
  assumes "transport_process_packet ex c seqno l packet = Some (ok, c')" "l \<noteq> 0" "generic_message (lsh_string_data packet ! 0)"
  shows "process_step c (lsh_string_data packet ! 0) l c'"
proof -
  have "kept c c'" using assms by (auto simp: transport_process_packet_def Let_def generic_message_def dest: kept_close)
  then show ?thesis using assms(3) by (intro kept_step kex_step.generic)
qed

lemma process_ignore:
  assumes "transport_process_packet ex c seqno l packet = Some (ok, c')" "l \<noteq> 0" "\<not> generic_message (lsh_string_data packet ! 0)"
    and st: "ks_read_state (tc_kex c) = KEX_STATE_IGNORE"
  shows "process_step c (lsh_string_data packet ! 0) l c'"
proof -
  have "c' = c\<lparr>tc_kex := (tc_kex c)\<lparr>ks_read_state := KEX_STATE_IN_PROGRESS\<rparr>\<rparr>"
    using assms by (auto simp: transport_process_packet_def Let_def generic_message_def)
  then show ?thesis using assms(3) st by (intro untouched_step) (auto simp: untouched_def intro: kex_step.ignored)
qed

lemma process_in_progress:
  assumes "transport_process_packet ex c seqno l packet = Some (ok, c')" "l \<noteq> 0" "\<not> generic_message (lsh_string_data packet ! 0)"
    and st: "ks_read_state (tc_kex c) = KEX_STATE_IN_PROGRESS" and "kex_methods_ok ex"
  shows "process_step c (lsh_string_data packet ! 0) l c'"
proof (cases "lsh_string_data packet ! 0 < 30 \<or> 50 \<le> lsh_string_data packet ! 0")
  case True
  then have "kept c c'" using assms by (auto simp: transport_process_packet_def Let_def generic_message_def dest: kept_protocol_error)
  then show ?thesis using True st by (intro kept_step) (auto intro: kex_step.unexpected)
next
  case False
  then obtain h where "ex_kex_handle ex h c l (lsh_string_data packet) = Some c'"
    using assms by (auto simp: transport_process_packet_def Let_def generic_message_def split: bind_splits)
  then have "untouched c c'" "ks_read_state (tc_kex c') \<in> {KEX_STATE_IN_PROGRESS, KEX_STATE_NEWKEYS}"
    using assms(5) st unfolding kex_methods_ok_def by blast+
  then show ?thesis using False st by (intro untouched_step) (auto intro: kex_step.exchange)
qed

lemma process_newkeys:
  assumes "transport_process_packet ex c seqno l packet = Some (ok, c')" "l \<noteq> 0" "\<not> generic_message (lsh_string_data packet ! 0)"
    and st: "ks_read_state (tc_kex c) = KEX_STATE_NEWKEYS"
  shows "process_step c (lsh_string_data packet ! 0) l c'"
proof (cases "lsh_string_data packet ! 0 = 21 \<and> l = 1")
  case True
  then show ?thesis
    using assms by (auto simp: transport_process_packet_def Let_def process_step_def service_same_def transport_timeout_def
        reset_kexinit_state_def intro: kex_step.newkeys)
next
  case False
  then have "kept c c'" using assms
    by (auto simp: transport_process_packet_def Let_def generic_message_def split: if_splits dest: kept_protocol_error)
  then show ?thesis using st by (intro kept_step) (auto intro: kex_step.no_newkeys)
qed

lemma process_init:
  assumes "transport_process_packet ex c seqno l packet = Some (ok, c')" "l \<noteq> 0" "\<not> generic_message (lsh_string_data packet ! 0)"
    and st: "ks_read_state (tc_kex c) = KEX_STATE_INIT" and "kex_methods_ok ex"
  shows "process_step c (lsh_string_data packet ! 0) l c'"
proof -
  define msg where "msg = lsh_string_data packet ! 0"
  note r = assms(1) [unfolded transport_process_packet_def Let_def msg_def [symmetric]] assms(2) assms(3) [folded msg_def] st
  consider "msg = 20" | "msg \<noteq> 20" "msg < 20 \<or> 50 \<le> msg" | "msg \<noteq> 20" "\<not> (msg < 20 \<or> 50 \<le> msg)" by blast
  then show ?thesis unfolding msg_def [symmetric]
  proof cases
    case 1
    then have "transport_kexinit_handler (ex_gperf ex) (ex_kex_init ex) c l (lsh_string_data packet) = Some c'"
      using r by (auto simp: generic_message_def)
    from kexinit_handler_step [OF this assms(5)]
    show "process_step c msg l c'" using 1 st by (intro untouched_step) (auto intro: kex_step.start)
  next
    case 2
    have "tc_kex c' = tc_kex c \<and> tc_reader c' = tc_reader c"
      using r 2 by (auto simp: generic_message_def split: option.splits bind_splits dest!: packet_handler_kex kept_send_packet) (auto simp: kept_def)
    then show "process_step c msg l c'" using 2 st assms(3) kex_step.application by (simp add: process_step_def msg_def)
  next
    case 3
    then have "kept c c'" using r by (auto simp: generic_message_def split: bind_splits dest!: kept_send_packet)
    then show "process_step c msg l c'" using 3 st kex_step.application by (intro kept_step) simp_all
  qed
qed

lemma process_packet_step:
  assumes "transport_process_packet ex c seqno l packet = Some (ok, c')" "l \<noteq> 0" "kex_methods_ok ex"
  shows "process_step c (lsh_string_data packet ! 0) l c'"
  using assms process_generic process_ignore process_in_progress process_newkeys process_init
  by (cases "generic_message (lsh_string_data packet ! 0)"; cases "ks_read_state (tc_kex c)") blast+

section \<open>The end of a key exchange\<close>

lemma keyexchange_finish_kept:
  "keyexchange_finish c H exchange_hash K = Some (ok, c') \<Longrightarrow> untouched c c' \<and> tc_kex c' = tc_kex c"
  unfolding keyexchange_finish_def Let_def c_assert_bind
  by (auto split: if_splits bind_splits dest!: kept_send_packet) (auto simp: kept_def untouched_def)

lemma transport_keyexchange_finish_step:
  assumes "transport_keyexchange_finish c H exchange_hash K = Some c'"
  shows "untouched c c' \<and> ks_read_state (tc_kex c') \<in> {ks_read_state (tc_kex c), KEX_STATE_NEWKEYS}"
  using assms unfolding transport_keyexchange_finish_def Let_def c_assert_bind
  by (auto split: if_splits bind_splits dest!: keyexchange_finish_kept kept_disconnect kept_event_handler)
    (auto simp: kept_def untouched_def)

section \<open>Properties\<close>

text \<open>An example: a new connection of the server on one socket, and a key exchange method that finishes at its first message.\<close>

definition example_env :: environment where
  "example_env = \<lparr>oop_read = Map.empty, oop_write = Map.empty, oop_retry = False, global_nfiles = 0, oop_stop = False,
     en_writes = replicate 8 Done, en_sent = [], en_input = \<lparr>sk_events = [], sk_input = [], sk_readable = True\<rparr>,
     en_service_writes = replicate 8 Done, en_service_sent = [], en_service_input = \<lparr>sk_events = [], sk_input = [], sk_readable = True\<rparr>,
     en_random = (\<lambda>_ _ _. 1), en_calls = 0, en_close = (\<lambda>_. True), en_null = (\<lambda>fd. fd), en_junk = (\<lambda>_. 0)\<rparr>"

definition example_info :: kexinit_info where
  "example_info = \<lparr>ki_kex_algorithms = [3], ki_hostkey_algorithms = [5], ki_crypto_algorithms = [14], ki_mac_algorithms = [6],
     ki_compression_algorithms = [1], ki_languages = []\<rparr>"

definition example_connection :: "(unit, unit, unit, unit, unit) transport_connection" where
  "example_connection = init_transport_forward example_env True (\<lambda>_. Some None) example_info 5 5"

definition example_externals :: "(unit, unit, unit, unit, unit) externals" where
  "example_externals = \<lparr>ex_gperf = map_of gperf_input, ex_kex_init = (\<lambda>_ c. Some (Some (), c)),
     ex_kex_handle = (\<lambda>_ c l d. transport_keyexchange_finish c sum_hash (lsh_string_alloc (\<lambda>_. 1) 2) (lsh_string_alloc (\<lambda>_. 2) 3)),
     ex_start_service = (\<lambda>_. NO_SERVICE)\<rparr>"

lemma example_externals_ok: "kex_methods_ok example_externals"
  using transport_keyexchange_finish_step by (fastforce simp: kex_methods_ok_def example_externals_def)

definition in_state :: "kex_state \<Rightarrow> ('c, 'm, 'z, 'k, 'h) transport_connection \<Rightarrow> ('c, 'm, 'z, 'k, 'h) transport_connection" where
  "in_state st c = c\<lparr>tc_kex := (tc_kex c)\<lparr>ks_read_state := st\<rparr>\<rparr>"

text \<open>C8 (states of the key exchange). Processing a packet is a step of the protocol of states: a key exchange starts with \<open>KEXINIT\<close>, one packet may be ignored,
  only messages of the key exchange method can finish it, and only \<open>NEWKEYS\<close> leads back.\<close>

theorem process_packet_refines:
  assumes "transport_process_packet ex c seqno l packet = Some (ok, c')" "l \<noteq> 0" "kex_methods_ok ex"
  shows "kex_step (ks_read_state (tc_kex c)) (lsh_string_data packet ! 0) (ks_read_state (tc_kex c'))"
  using process_packet_step [OF assms] by (simp add: process_step_def)

theorem process_packet_refines_witness:
  "\<exists>c'. transport_process_packet example_externals (in_state KEX_STATE_NEWKEYS example_connection) 7 1 \<lparr>str_length = 1, str_data = [21, 0]\<rparr> = Some (True, c')
     \<and> kex_step KEX_STATE_NEWKEYS 21 (ks_read_state (tc_kex c'))"
proof -
  obtain c' where "transport_process_packet example_externals (in_state KEX_STATE_NEWKEYS example_connection) 7 1 \<lparr>str_length = 1, str_data = [21, 0]\<rparr> = Some (True, c')"
    by (simp add: transport_process_packet_def in_state_def lsh_string_data_def)
  then show ?thesis using process_packet_refines [OF _ _ example_externals_ok] by (fastforce simp: in_state_def lsh_string_data_def)
qed

text \<open>C4 (no application data during a key exchange). Unless the state is the initial one and the message is neither generic (1 to 4) nor of the key exchange (20 to 49),
  processing a packet does not write anything to the service.\<close>

theorem kex_gate:
  assumes "transport_process_packet ex c seqno l packet = Some (ok, c')" "l \<noteq> 0" "kex_methods_ok ex"
    and "ks_read_state (tc_kex c) \<noteq> KEX_STATE_INIT \<or> generic_message (lsh_string_data packet ! 0)
      \<or> SSH_FIRST_KEYEXCHANGE_GENERIC \<le> lsh_string_data packet ! 0 \<and> lsh_string_data packet ! 0 < SSH_FIRST_USERAUTH_GENERIC"
  shows "tf_service_writer c' = tf_service_writer c \<and> en_service_sent c' = en_service_sent c"
  using process_packet_step [OF assms(1-3)] assms(4) by (auto simp: process_step_def service_same_def)

theorem kex_gate_witness:
  "\<exists>c'. transport_process_packet example_externals (in_state KEX_STATE_IGNORE example_connection) 7 2 \<lparr>str_length = 2, str_data = [94, 1, 0]\<rparr> = Some (True, c')
     \<and> tf_service_writer c' = tf_service_writer example_connection \<and> en_service_sent c' = []"
proof -
  let ?c = "in_state KEX_STATE_IGNORE example_connection" and ?p = "\<lparr>str_length = 2, str_data = [94, 1, 0]\<rparr> :: lsh_string"
  let ?d = "in_state KEX_STATE_IN_PROGRESS example_connection"
  have step: "transport_process_packet example_externals ?c 7 2 ?p = Some (True, ?d)"
    by (simp add: transport_process_packet_def in_state_def lsh_string_data_def)
  moreover have "en_service_sent example_connection = []"
    by (simp add: example_connection_def init_transport_forward_def io_register_fd_def example_env_def environment.extend_def)
  moreover have "tf_service_writer ?d = tf_service_writer ?c \<and> en_service_sent ?d = en_service_sent ?c"
    by (rule kex_gate [OF step _ example_externals_ok]) (simp_all add: in_state_def)
  ultimately show ?thesis by (intro exI [of _ ?d]) (simp add: in_state_def)
qed

text \<open>C5 (change of keys). The reader, and with it the keys for receiving, changes only when the message \<open>NEWKEYS\<close>, of one byte, arrives after a finished key exchange; it
  then has the keys that were made at the end of the exchange.\<close>

theorem newkeys_switch:
  assumes "transport_process_packet ex c seqno l packet = Some (ok, c')" "l \<noteq> 0" "kex_methods_ok ex" "tc_reader c' \<noteq> tc_reader c"
  shows "ks_read_state (tc_kex c) = KEX_STATE_NEWKEYS \<and> lsh_string_data packet ! 0 = SSH_MSG_NEWKEYS \<and> l = 1
    \<and> tc_reader c' = transport_read_new_keys (tc_reader c) (tc_new_mac c) (tc_new_crypto c) (tc_new_inflate c)"
  using process_packet_step [OF assms(1-3)] assms(4) by (auto simp: process_step_def)

theorem newkeys_switch_witness:
  "\<exists>c'. transport_process_packet example_externals ((in_state KEX_STATE_NEWKEYS example_connection)\<lparr>tc_new_crypto := Some (shift_cipher 1)\<rparr>) 7 1
       \<lparr>str_length = 1, str_data = [21, 0]\<rparr> = Some (True, c') \<and> t_crypto (tc_reader c') = Some (shift_cipher 1)"
proof -
  let ?c = "(in_state KEX_STATE_NEWKEYS example_connection)\<lparr>tc_new_crypto := Some (shift_cipher 1)\<rparr>"
    and ?p = "\<lparr>str_length = 1, str_data = [21, 0]\<rparr> :: lsh_string"
  obtain c' where c': "transport_process_packet example_externals ?c 7 1 ?p = Some (True, c')" "t_crypto (tc_reader c') = Some (shift_cipher 1)"
    by (simp add: transport_process_packet_def in_state_def lsh_string_data_def transport_timeout_def transport_read_new_keys_def)
  have "t_crypto (tc_reader ?c) = None"
    by (simp add: in_state_def example_connection_def init_transport_forward_def io_register_fd_def environment.extend_def make_transport_read_state_def
        ssh_read_state.extend_def)
  then have "tc_reader c' \<noteq> tc_reader ?c" using c'(2) by auto
  then show ?thesis using newkeys_switch [OF c'(1) _ example_externals_ok] c' by auto
qed

end
