(* ===== verification/Connection_Inv.thy ===== *)
theory Connection_Inv
  imports Connection_Safety
begin

text \<open>
  An invariant of connections under which closing, sending and disconnecting return, whatever the system calls report. It also shows
  what goes wrong when a connection is closed while data is pending on a socket that is used in both directions.
\<close>

section \<open>The invariant\<close>

text \<open>The number of files behind a pair of descriptors.\<close>

definition files :: "int \<Rightarrow> int \<Rightarrow> nat" where
  "files i j = (if i < 0 then 0 else 1) + (if j < 0 \<or> j = i then 0 else 1)"

text \<open>Opening \<open>/dev/null\<close> gives the lowest free descriptor, which is the one just closed.\<close>

definition stdio_ok :: "(int \<Rightarrow> bool) \<Rightarrow> (int \<Rightarrow> int) \<Rightarrow> bool" where
  "stdio_ok closes null \<longleftrightarrow> (\<forall>fd \<in> {0, STDOUT_FILENO}. closes fd \<longrightarrow> null fd = fd)"

lemma stdio_ok_null: "stdio_ok closes null \<Longrightarrow> 0 \<le> fd \<Longrightarrow> fd \<le> 1 \<Longrightarrow> closes fd \<Longrightarrow> null fd = fd"
  by (cases "fd = 0"; cases "fd = 1") (auto simp: stdio_ok_def)

definition conn_inv :: "('c, 'm, 'z, 'k, 'h) transport_connection \<Rightarrow> bool" where
  "conn_inv c \<longleftrightarrow> stdio_ok (en_close c) (en_null c) \<and> files (tc_ssh_input c) (tc_ssh_output c) + files (tf_service_in c) (tf_service_out c) \<le> global_nfiles c
     \<and> io_legal (en_writes c)
     \<and> (if tc_alive c
        then 0 \<le> tc_ssh_output c \<and> writer_inv (tc_writer c) \<and> sender_ok (tc_writer c)
          \<and> (tc_closing c = 0 \<and> tc_event_handler c = FORWARD_EVENT_HANDLER \<longrightarrow> 0 \<le> tf_service_in c)
          \<and> tc_closing c \<le> 1
          \<and> (tc_closing c = 1 \<longrightarrow> tc_write_active c \<and> tc_ssh_input c < 0)
        else tc_ssh_input c = -1 \<and> tc_ssh_output c = -1)"

text \<open>Closing one file.\<close>

lemma io_close_fd_ok:
  assumes "(if fd < 0 then 0 else 1) + n \<le> global_nfiles c" "stdio_ok (en_close c) (en_null c)"
  shows "\<exists>r w k b. io_close_fd fd c = Some (c\<lparr>oop_read := r, oop_write := w, global_nfiles := k, oop_stop := b\<rparr>) \<and> n \<le> k"
proof (cases "fd < 0")
  case True
  then show ?thesis using assms
    by (intro exI [of _ "oop_read c"] exI [of _ "oop_write c"] exI [of _ "global_nfiles c"] exI [of _ "oop_stop c"]) (simp add: io_close_fd_def)
next
  case False
  then show ?thesis using assms stdio_ok_null [of "en_close c" "en_null c" fd]
    by (intro exI [of _ "(oop_read c)(fd := None)"] exI [of _ "(oop_write c)(fd := None)"] exI [of _ "global_nfiles c - 1"] exI [of _ "if global_nfiles c - 1 = 0 then True else oop_stop c"])
      (auto simp: io_close_fd_def Let_def)
qed

text \<open>Closing two descriptors of one or two files.\<close>

lemma io_close_both_ok:
  assumes "files i j + n \<le> global_nfiles c" "stdio_ok (en_close c) (en_null c)"
  shows "\<exists>r w k b. do { c \<leftarrow> io_close_fd i c; if i \<noteq> j then io_close_fd j c else Some c } = Some (c\<lparr>oop_read := r, oop_write := w, global_nfiles := k, oop_stop := b\<rparr>) \<and> n \<le> k"
proof -
  obtain r w k b where 1: "io_close_fd i c = Some (c\<lparr>oop_read := r, oop_write := w, global_nfiles := k, oop_stop := b\<rparr>)" "(if j < 0 \<or> j = i then 0 else 1) + n \<le> k"
    using io_close_fd_ok [of i "(if j < 0 \<or> j = i then 0 else 1) + n" c] assms by (auto simp: files_def)
  let ?c = "c\<lparr>oop_read := r, oop_write := w, global_nfiles := k, oop_stop := b\<rparr>"
  show ?thesis
  proof (cases "i = j")
    case False
    then have "(if j < 0 then 0 else 1) + n \<le> global_nfiles ?c" using 1(2) by (auto split: if_splits)
    from io_close_fd_ok [OF this] show ?thesis using 1(1) False assms(2) by auto
  qed (use 1 in auto)
qed

lemma forward_close_ok:
  assumes "files (tf_service_in c) (tf_service_out c) + n \<le> global_nfiles c" "stdio_ok (en_close c) (en_null c)"
  shows "\<exists>r w k b i j. transport_forward_close c = Some (c\<lparr>oop_read := r, oop_write := w, global_nfiles := k, oop_stop := b, tf_service_in := i, tf_service_out := j\<rparr>)
    \<and> files i j + n \<le> k"
proof (cases "tf_service_in c \<ge> 0")
  case False
  then show ?thesis using assms by (intro exI [of _ "oop_read c"] exI [of _ "oop_write c"] exI [of _ "global_nfiles c"] exI [of _ "oop_stop c"]
    exI [of _ "tf_service_in c"] exI [of _ "tf_service_out c"]) (simp add: transport_forward_close_def)
next
  case True
  from io_close_both_ok [OF assms] obtain r w k b where
    1: "do { d \<leftarrow> io_close_fd (tf_service_in c) c; if tf_service_in c \<noteq> tf_service_out c then io_close_fd (tf_service_out c) d else Some d }
      = Some (c\<lparr>oop_read := r, oop_write := w, global_nfiles := k, oop_stop := b\<rparr>)" "n \<le> k" by blast
  obtain d where d: "io_close_fd (tf_service_in c) c = Some d" using 1(1) by (cases "io_close_fd (tf_service_in c) c") auto
  then have "tf_service_in d = tf_service_in c" "tf_service_out d = tf_service_out c" by (auto simp: io_close_fd_def c_assert_bind Let_def split: if_splits)
  then have "transport_forward_close c = Some (c\<lparr>oop_read := r, oop_write := w, global_nfiles := k, oop_stop := b, tf_service_in := -1, tf_service_out := -1\<rparr>)"
    using True 1(1) d by (cases "tf_service_in c = tf_service_out c") (auto simp: transport_forward_close_def)
  then show ?thesis using 1(2)
    by (intro exI [of _ r] exI [of _ w] exI [of _ k] exI [of _ b] exI [of _ "-1"] exI [of _ "-1"]) (simp add: files_def)
qed

lemma connection_kill_ok:
  assumes "files (tc_ssh_input c) (tc_ssh_output c) + n \<le> global_nfiles c" "stdio_ok (en_close c) (en_null c)"
  shows "\<exists>r w k b. transport_connection_kill c = Some (c\<lparr>oop_read := r, oop_write := w, oop_retry := False, global_nfiles := k, oop_stop := b, tc_expire := None,
    tc_ssh_input := -1, tc_ssh_output := -1\<rparr>) \<and> n \<le> k"
proof -
  let ?c = "c\<lparr>tc_expire := None, oop_retry := False\<rparr>"
  from io_close_both_ok [of "tc_ssh_input c" "tc_ssh_output c" n ?c] assms obtain r w k b where
    1: "do { d \<leftarrow> io_close_fd (tc_ssh_input c) ?c; if tc_ssh_input c \<noteq> tc_ssh_output c then io_close_fd (tc_ssh_output c) d else Some d }
      = Some (?c\<lparr>oop_read := r, oop_write := w, global_nfiles := k, oop_stop := b\<rparr>)" "n \<le> k" by auto
  obtain d where d: "io_close_fd (tc_ssh_input c) ?c = Some d" using 1(1) by (cases "io_close_fd (tc_ssh_input c) ?c") auto
  then have "tc_ssh_input d = tc_ssh_input c" "tc_ssh_output d = tc_ssh_output c" by (auto simp: io_close_fd_def c_assert_bind Let_def split: if_splits)
  then have "transport_connection_kill c = Some (?c\<lparr>oop_read := r, oop_write := w, global_nfiles := k, oop_stop := b, tc_ssh_input := -1, tc_ssh_output := -1\<rparr>)"
    using 1(1) d by (cases "tc_ssh_input c = tc_ssh_output c") (auto simp: transport_connection_kill_def)
  then show ?thesis using 1(2) by (intro exI [of _ r] exI [of _ w] exI [of _ k] exI [of _ b]) simp
qed

lemma kill_ok:
  assumes "files (tc_ssh_input c) (tc_ssh_output c) + files (tf_service_in c) (tf_service_out c) \<le> global_nfiles c" "stdio_ok (en_close c) (en_null c)"
    and "io_legal (en_writes c)" "tc_alive c"
  shows "\<exists>c'. kill_lshd_connection c = Some c' \<and> conn_inv c' \<and> \<not> tc_alive c' \<and> en_writes c' = en_writes c"
proof -
  let ?c = "c\<lparr>tc_alive := False\<rparr>"
  obtain r w k b i j where 1: "transport_forward_close ?c = Some (?c\<lparr>oop_read := r, oop_write := w, global_nfiles := k, oop_stop := b, tf_service_in := i, tf_service_out := j\<rparr>)"
      "files i j + files (tc_ssh_input c) (tc_ssh_output c) \<le> k"
    using forward_close_ok [of ?c "files (tc_ssh_input c) (tc_ssh_output c)"] assms(1,2) by auto
  let ?d = "?c\<lparr>oop_read := r, oop_write := w, global_nfiles := k, oop_stop := b, tf_service_in := i, tf_service_out := j\<rparr>"
  obtain r' w' k' b' where 2: "transport_connection_kill ?d = Some (?d\<lparr>oop_read := r', oop_write := w', oop_retry := False, global_nfiles := k', oop_stop := b', tc_expire := None,
      tc_ssh_input := -1, tc_ssh_output := -1\<rparr>)" "files i j \<le> k'"
    using connection_kill_ok [of ?d "files i j"] 1(2) assms(2) by auto
  then have "kill_lshd_connection c = transport_connection_kill ?d" using assms(4) 1(1) by (simp add: kill_lshd_connection_def transport_forward_kill_def)
  then show ?thesis using 2 assms(2,3) by (simp add: conn_inv_def) (simp add: files_def)
qed

text \<open>A connection that is not being closed, whatever the state of the writer.\<close>

definition closable :: "('c, 'm, 'z, 'k, 'h) transport_connection \<Rightarrow> bool" where
  "closable c \<longleftrightarrow> stdio_ok (en_close c) (en_null c) \<and> files (tc_ssh_input c) (tc_ssh_output c) + files (tf_service_in c) (tf_service_out c) \<le> global_nfiles c
     \<and> io_legal (en_writes c) \<and> tc_alive c \<and> tc_closing c = 0 \<and> 0 \<le> tc_ssh_output c
     \<and> (tc_event_handler c = FORWARD_EVENT_HANDLER \<longrightarrow> 0 \<le> tf_service_in c)"

lemma conn_inv_closable: "conn_inv c \<Longrightarrow> tc_alive c \<Longrightarrow> tc_closing c = 0 \<Longrightarrow> closable c"
  by (simp add: conn_inv_def closable_def)

lemma event_close_ok:
  assumes "closable c"
  shows "\<exists>r w k b i j. event_handler c TRANSPORT_EVENT_CLOSE = Some (c\<lparr>oop_read := r, oop_write := w, global_nfiles := k, oop_stop := b, tf_service_in := i, tf_service_out := j\<rparr>)
    \<and> files i j + files (tc_ssh_input c) (tc_ssh_output c) \<le> k"
proof (cases "tc_event_handler c")
  case LSHD_EVENT_HANDLER
  then show ?thesis using assms(1)
    by (intro exI [of _ "oop_read c"] exI [of _ "oop_write c"] exI [of _ "global_nfiles c"] exI [of _ "oop_stop c"] exI [of _ "tf_service_in c"] exI [of _ "tf_service_out c"])
      (simp add: event_handler_def lshd_event_handler_def closable_def)
next
  case FORWARD_EVENT_HANDLER
  then have "event_handler c TRANSPORT_EVENT_CLOSE = transport_forward_close c"
    using assms by (simp add: event_handler_def forward_event_handler_def closable_def)
  then show ?thesis using forward_close_ok [of c "files (tc_ssh_input c) (tc_ssh_output c)"] assms by (simp add: closable_def)
qed

lemma close_open_ok:
  assumes "closable c"
  shows "\<exists>c'. transport_close c flush = Some c' \<and> (\<not> flush \<or> writer_inv (tc_writer c) \<and> sender_ok (tc_writer c) \<longrightarrow> conn_inv c')
    \<and> en_writes c' = en_writes c \<and> (tc_alive c' \<longrightarrow> tc_closing c' = 1 \<and> flush \<and> tc_write_active c)"
proof -
  have alive: "tc_alive c" "tc_closing c = 0" and out: "0 \<le> tc_ssh_output c" using assms by (simp_all add: closable_def)
  obtain r w k b i j where ev: "event_handler c TRANSPORT_EVENT_CLOSE = Some (c\<lparr>oop_read := r, oop_write := w, global_nfiles := k, oop_stop := b, tf_service_in := i, tf_service_out := j\<rparr>)"
      "files i j + files (tc_ssh_input c) (tc_ssh_output c) \<le> k"
    using event_close_ok [OF assms] by blast
  let ?c = "c\<lparr>oop_read := r, oop_write := w, global_nfiles := k, oop_stop := b, tf_service_in := i, tf_service_out := j, tc_expire := None\<rparr>"
  obtain r' w' k' b' where 1: "(if tc_ssh_input c \<noteq> tc_ssh_output c then io_close_fd (tc_ssh_input c) ?c else Some ?c)
      = Some (?c\<lparr>oop_read := r', oop_write := w', global_nfiles := k', oop_stop := b'\<rparr>)" "1 + files i j \<le> k'"
  proof (cases "tc_ssh_input c = tc_ssh_output c")
    case True
    then show ?thesis using that [where r' = r and w' = w and k' = k and b' = b] ev(2) out by (simp add: files_def)
  next
    case False
    then show ?thesis using that io_close_fd_ok [of "tc_ssh_input c" "1 + files i j" ?c] ev(2) out assms by (auto simp: files_def closable_def)
  qed
  let ?d = "?c\<lparr>oop_read := r', oop_write := w', global_nfiles := k', oop_stop := b', tc_ssh_input := -1\<rparr>"
  have close: "transport_close c flush = (if flush \<and> tc_write_active c then Some (?d\<lparr>tc_closing := 1, tc_expire := Some TIMEOUT_CLOSE\<rparr>)
      else do { d \<leftarrow> io_close_fd (tc_ssh_output c) ?d; kill_lshd_connection (d\<lparr>tc_ssh_output := -1\<rparr>) })"
    using alive ev(1) 1(1) by (simp add: transport_close_def transport_timeout_def Let_def split del: if_split cong: if_cong)
  show ?thesis
  proof (cases "flush \<and> tc_write_active c")
    case True
    then show ?thesis using assms alive out 1(2) unfolding close by (simp add: conn_inv_def closable_def) (simp add: files_def)
  next
    case False
    obtain r2 w2 k2 b2 where 2: "io_close_fd (tc_ssh_output c) ?d = Some (?d\<lparr>oop_read := r2, oop_write := w2, global_nfiles := k2, oop_stop := b2\<rparr>)" "files i j \<le> k2"
      using io_close_fd_ok [of "tc_ssh_output c" "files i j" ?d] 1(2) out assms by (auto simp: closable_def)
    let ?e = "?d\<lparr>oop_read := r2, oop_write := w2, global_nfiles := k2, oop_stop := b2, tc_ssh_output := -1\<rparr>"
    have "\<exists>c'. kill_lshd_connection ?e = Some c' \<and> conn_inv c' \<and> \<not> tc_alive c' \<and> en_writes c' = en_writes ?e"
      using assms alive 2(2) by (intro kill_ok) (simp_all add: closable_def files_def)
    then show ?thesis using False 2(1) unfolding close by auto
  qed
qed

lemma transport_close_ok:
  assumes "conn_inv c"
  shows "\<exists>c'. transport_close c flush = Some c' \<and> conn_inv c' \<and> en_writes c' = en_writes c
    \<and> (tc_alive c' \<longrightarrow> tc_closing c' = 1 \<and> (tc_closing c = 0 \<longrightarrow> flush \<and> tc_write_active c))"
proof (cases "tc_alive c \<and> tc_closing c = 0")
  case False
  then show ?thesis using assms by (auto simp: transport_close_def conn_inv_def)
next
  case True
  then show ?thesis using close_open_ok [of c flush] conn_inv_closable [OF assms] assms by (auto simp: conn_inv_def)
qed

section \<open>Sending\<close>

lemma conn_inv_flow [simp]: "conn_inv (c\<lparr>tf_service_read_active := a, oop_read := r\<rparr>) = conn_inv c"
  by (simp add: conn_inv_def)

lemma event_flow_ok:
  assumes "event \<in> {TRANSPORT_EVENT_START_APPLICATION, TRANSPORT_EVENT_STOP_APPLICATION}" "conn_inv c"
  shows "\<exists>c'. event_handler c event = Some c' \<and> conn_inv c' \<and> tc_alive c' = tc_alive c \<and> en_writes c' = en_writes c
    \<and> tc_writer c' = tc_writer c \<and> en_sent c' = en_sent c"
  using assms by (cases "tc_event_handler c")
    (auto simp: event_handler_def lshd_event_handler_def forward_event_handler_def forward_start_read_def forward_stop_read_def)

lemma start_write_ok:
  assumes "conn_inv c" "tc_alive c"
  shows "\<exists>c'. transport_start_write c = Some c' \<and> conn_inv c' \<and> tc_alive c' \<and> en_writes c' = en_writes c
    \<and> tc_writer c' = tc_writer c \<and> en_sent c' = en_sent c"
proof -
  define d where "d = (if tc_write_active c then c else c\<lparr>tc_write_active := True, oop_write := (oop_write c)(tc_ssh_output c \<mapsto> OOP_SSH)\<rparr>)"
  have d: "conn_inv d" "tc_alive d" "en_writes d = en_writes c" "tc_writer d = tc_writer c" "en_sent d = en_sent c"
    using assms by (simp_all add: conn_inv_def d_def)
  then show ?thesis
    using event_flow_ok [of TRANSPORT_EVENT_STOP_APPLICATION d] unfolding transport_start_write_def Let_def d_def [symmetric] by auto
qed

lemma stop_write_ok:
  assumes "conn_inv c" "tc_alive c"
  shows "\<exists>c'. transport_stop_write c = Some c' \<and> conn_inv c' \<and> en_writes c' = en_writes c
    \<and> (tc_alive c' \<longrightarrow> tc_writer c' = tc_writer c \<and> en_sent c' = en_sent c)"
proof (cases "tc_write_active c")
  case False
  then show ?thesis using assms by (simp add: transport_stop_write_def)
next
  case True
  let ?c = "c\<lparr>tc_write_active := False, oop_write := (oop_write c)(tc_ssh_output c := None)\<rparr>"
  show ?thesis
  proof (cases "tc_closing c = 0")
    case closing: True
    then have c: "conn_inv ?c" using assms by (simp add: conn_inv_def)
    then show ?thesis
      using event_flow_ok [of TRANSPORT_EVENT_START_APPLICATION ?c] closing True by (auto simp: transport_stop_write_def Let_def)
  next
    case False
    let ?d = "?c\<lparr>tc_ssh_output := -1, tc_closing := 0\<rparr>"
    have d: "tc_closing c = 1" "tc_ssh_input c < 0" using assms False by (auto simp: conn_inv_def le_Suc_eq)
    have "\<exists>c'. kill_lshd_connection ?d = Some c' \<and> conn_inv c' \<and> \<not> tc_alive c' \<and> en_writes c' = en_writes ?d"
      using assms d by (intro kill_ok) (auto simp: conn_inv_def files_def)
    then show ?thesis using True d(1) by (auto simp: transport_stop_write_def)
  qed
qed

text \<open>A packet is sealed and given to the writer, unless the connection does not survive.\<close>

definition packet_ok :: "lsh_string \<Rightarrow> bool" where
  "packet_ok p \<longleftrightarrow> nul_terminated p \<and> contents p \<noteq> [] \<and> length (contents p) \<le> 32768 \<and> hd (contents p) \<noteq> SSH_MSG_IGNORE"

definition sent_on :: "('c, 'm, 'z, 'k, 'h) transport_connection \<Rightarrow> bytes \<Rightarrow> ('c, 'm, 'z, 'k, 'h) transport_connection \<Rightarrow> bool" where
  "sent_on c p c' \<longleftrightarrow> (\<exists>(rnd :: nat \<Rightarrow> nat \<Rightarrow> byte) ps sent. (ps = [(rnd 0, p)] \<or> ps = [(rnd 0, p), (rnd 2, ignore_payload (rnd 1))])
     \<and> carried (tc_writer c) ps (tc_writer c') sent \<and> en_sent c' = en_sent c @ sent)"

text \<open>What follows a call of the writer.\<close>

definition after_write ::
  "transport_write_status \<Rightarrow> ('c, 'm, 'z, 'k, 'h) transport_connection \<Rightarrow> ('c, 'm, 'z, 'k, 'h) transport_connection option" where
  "after_write st c = (case st of
      TRANSPORT_WRITE_OVERFLOW \<Rightarrow> transport_close c False | TRANSPORT_WRITE_IO_ERROR \<Rightarrow> transport_close c False
    | TRANSPORT_WRITE_PENDING \<Rightarrow> transport_start_write c | TRANSPORT_WRITE_COMPLETE \<Rightarrow> transport_stop_write c)"

lemma after_write_ok:
  assumes inv: "conn_inv c" "tc_closing c = 0" "tc_alive c" and w: "st \<noteq> TRANSPORT_WRITE_OVERFLOW \<longrightarrow> carried (tc_writer c) ps s' sent" "io_legal ios'"
  shows "\<exists>c'. after_write st (c\<lparr>tc_writer := s', en_sent := en_sent c @ sent, en_writes := ios', en_calls := en_calls c + 1\<rparr>) = Some c'
    \<and> conn_inv c' \<and> en_writes c' = ios' \<and> (tc_alive c' \<longrightarrow> carried (tc_writer c) ps (tc_writer c') sent \<and> en_sent c' = en_sent c @ sent)"
proof -
  define d where "d = c\<lparr>tc_writer := s', en_sent := en_sent c @ sent, en_writes := ios', en_calls := en_calls c + 1\<rparr>"
  have d: "tc_alive d" "en_writes d = ios'" "closable d" using inv w(2) by (auto simp: d_def closable_def conn_inv_def)
  show ?thesis
  proof (cases "st = TRANSPORT_WRITE_OVERFLOW \<or> st = TRANSPORT_WRITE_IO_ERROR")
    case True
    then show ?thesis using close_open_ok [OF d(3), of False] d(2) unfolding after_write_def d_def [symmetric] by auto
  next
    case False
    then have car: "carried (tc_writer c) ps s' sent" using w(1) by simp
    then have "conn_inv d" using inv w(2) by (auto simp: d_def conn_inv_def carried_def)
    from start_write_ok [OF this d(1)] stop_write_ok [OF this d(1)]
    show ?thesis using False d(2) car unfolding d_def [symmetric] by (cases st) (auto simp: after_write_def d_def)
  qed
qed

lemma send_packet_ok:
  assumes inv: "conn_inv c" "tc_closing c = 0 \<or> \<not> tc_alive c" and ios: "answers (Suc (Suc k)) (en_writes c)" and p: "packet_ok p" and fl: "\<not> FLAG_IGNORE flags"
  shows "\<exists>c'. transport_send_packet c flags (Some p) = Some c' \<and> conn_inv c' \<and> answers k (en_writes c')
    \<and> (tc_alive c' \<longrightarrow> sent_on c (contents p) c')"
proof (cases "tc_alive c")
  case False
  then show ?thesis using inv ios by (auto simp: transport_send_packet_def answers_def)
next
  case True
  let ?rnd = "en_random c (en_calls c)"
  have w: "writer_inv (tc_writer c)" "sender_ok (tc_writer c)" "io_legal (en_writes c)" "tc_ssh_output c \<ge> 0"
    using inv(1) True by (simp_all add: conn_inv_def)
  obtain st s' sent ios' ps where t: "transport_write_packet (en_junk c) ?rnd (tc_writer c) True flags p (en_writes c) = Some (st, s', sent, ios')"
      "ps = [(?rnd 0, contents p)] \<or> ps = [(?rnd 0, contents p), (?rnd 2, ignore_payload (?rnd 1))]"
      "st \<noteq> TRANSPORT_WRITE_OVERFLOW \<longrightarrow> carried (tc_writer c) ps s' sent" "io_legal ios'" "answers k ios'"
    using transport_write_packet_ok [OF w(1,2,3) ios, of p "contents p" flags] p fl unfolding packet_ok_def by blast
  have "transport_send_packet c flags (Some p) = after_write st (c\<lparr>tc_writer := s', en_sent := en_sent c @ sent, en_writes := ios', en_calls := en_calls c + 1\<rparr>)"
    using True t(1) w(4) by (simp add: transport_send_packet_def after_write_def Let_def)
  then show ?thesis using after_write_ok [OF inv(1) _ True t(3,4)] inv(2) True t(2,5) unfolding sent_on_def by fastforce
qed

lemma send_flush_ok:
  assumes inv: "conn_inv c" "tc_closing c = 0 \<or> \<not> tc_alive c" and ios: "answers (Suc (Suc k)) (en_writes c)"
  shows "\<exists>c'. transport_send_packet c flags None = Some c' \<and> conn_inv c'"
proof (cases "tc_alive c")
  case False
  then show ?thesis using inv by (auto simp: transport_send_packet_def)
next
  case True
  let ?rnd = "en_random c (en_calls c)"
  have w: "writer_inv (tc_writer c)" "sender_ok (tc_writer c)" "io_legal (en_writes c)" "tc_ssh_output c \<ge> 0"
    using inv(1) True by (simp_all add: conn_inv_def)
  obtain st s' sent ios' ps where t: "transport_write_flush (en_junk c) ?rnd (tc_writer c) True (en_writes c) = Some (st, s', sent, ios')"
      "st \<noteq> TRANSPORT_WRITE_OVERFLOW \<longrightarrow> carried (tc_writer c) ps s' sent" "io_legal ios'"
    using transport_write_flush_ok [OF w(1,2,3) ios] by blast
  have "transport_send_packet c flags None = after_write st (c\<lparr>tc_writer := s', en_sent := en_sent c @ sent, en_writes := ios', en_calls := en_calls c + 1\<rparr>)"
    using True t(1) w(4) by (simp add: transport_send_packet_def after_write_def Let_def)
  then show ?thesis using after_write_ok [OF inv(1) _ True t(2,3)] inv(2) True by auto
qed

lemma packet_of_contents:
  assumes "length bs < 4294967296"
  shows "contents (packet_of bs) = bs" "nul_terminated (packet_of bs)"
  using unat_u32_of_nat [OF assms] by (simp_all add: packet_of_def contents_def nul_terminated_def)

lemma packet_of_ok: "bs \<noteq> [] \<Longrightarrow> length bs \<le> 32768 \<Longrightarrow> hd bs \<noteq> SSH_MSG_IGNORE \<Longrightarrow> packet_ok (packet_of bs)"
  by (simp add: packet_ok_def packet_of_contents)

lemma format_disconnect_packet:
  "length msg \<le> 30000 \<Longrightarrow> \<exists>p. format_disconnect reason (cstring msg) [] = Some p \<and> packet_ok (packet_of p)"
  by (subst format_disconnect_eq) (auto simp: cstring_def intro: packet_of_ok)

lemma format_unimplemented_packet: "\<exists>p. format_unimplemented seqno = Some p \<and> packet_ok (packet_of p)"
  by (auto simp: format_unimplemented_eq intro: packet_of_ok)

text \<open>After a disconnect the connection reads no more.\<close>

lemma disconnect_ok:
  assumes "conn_inv c" "tc_closing c = 0 \<or> \<not> tc_alive c" "answers (Suc (Suc k)) (en_writes c)" "length msg \<le> 30000"
  shows "\<exists>c'. transport_disconnect c reason msg = Some c' \<and> conn_inv c' \<and> tc_ssh_input c' < 0 \<and> answers k (en_writes c')"
proof -
  obtain c1 where 1: "(if reason \<noteq> 0 then do { p \<leftarrow> format_disconnect reason (cstring msg) []; transport_send_packet c TRANSPORT_WRITE_FLAG_PUSH (Some (packet_of p)) }
      else Some c) = Some c1" "conn_inv c1" "answers k (en_writes c1)"
  proof (cases "reason = 0")
    case True
    then show ?thesis using that [of c] assms(1,3) by (simp add: answers_def)
  next
    case False
    obtain p where "format_disconnect reason (cstring msg) [] = Some p" "packet_ok (packet_of p)"
      using format_disconnect_packet [OF assms(4)] by blast
    then show ?thesis using that False send_packet_ok [OF assms(1-3), of "packet_of p" "\<lparr>FLAG_PUSH = True, FLAG_IGNORE = False\<rparr>"] by auto
  qed
  obtain c2 where 2: "transport_close c1 True = Some c2" "conn_inv c2" "en_writes c2 = en_writes c1" "tc_alive c2 \<longrightarrow> tc_closing c2 = 1"
    using transport_close_ok [OF 1(2)] by blast
  then have "tc_ssh_input c2 < 0" by (auto simp: conn_inv_def split: if_splits)
  then show ?thesis using 1 2 by (auto simp: transport_disconnect_def)
qed

section \<open>Properties\<close>

lemma example_fields:
  "tc_alive example_connection" "tc_closing example_connection = 0" "tc_ssh_input example_connection = 5" "tc_ssh_output example_connection = 5"
  "tf_service_in example_connection = -1" "tf_service_out example_connection = -1" "global_nfiles example_connection = 1"
  "en_writes example_connection = replicate 8 Done" "tc_event_handler example_connection = LSHD_EVENT_HANDLER"
  "tc_writer example_connection = make_transport_write_state (\<lambda>_. 0)" "oop_read example_connection = Map.empty"
  "oop_write example_connection = Map.empty" "tc_retry_length example_connection = 0" "tc_write_active example_connection = False"
  "en_close example_connection = (\<lambda>_. True)" "en_null example_connection = (\<lambda>fd. fd)"
  by (simp_all add: example_connection_def init_transport_forward_def io_register_fd_def environment.extend_def example_env_def)

lemma make_sender_ok: "sender_ok (make_transport_write_state junk :: ('c, 'm, 'z) transport_write_state)"
  by (simp add: make_transport_write_state_def sender_ok_def cipher_ok_def)

lemma example_conn_inv: "conn_inv example_connection"
  by (simp add: conn_inv_def example_fields make_writer_inv make_sender_ok files_def io_legal_def stdio_ok_def)

text \<open>C14 (disconnecting). On a connection with its invariant, whatever the writes report, sending a disconnect message and closing return, the invariant holds
  again and nothing more is read.\<close>

theorem disconnect_returns:
  assumes "conn_inv c" "tc_closing c = 0 \<or> \<not> tc_alive c" "answers 2 (en_writes c)" "length msg \<le> 30000"
  shows "\<exists>c'. transport_disconnect c reason msg = Some c' \<and> conn_inv c' \<and> tc_ssh_input c' < 0"
  using disconnect_ok [of c 0 msg reason] assms by (auto simp: numeral_2_eq_2)

theorem disconnect_returns_witness:
  "\<exists>c'. transport_disconnect example_connection 2 ''NEWKEYS expected'' = Some c' \<and> conn_inv c' \<and> tc_ssh_input c' < 0"
  by (rule disconnect_returns) (simp_all add: example_conn_inv example_fields answers_def)

text \<open>C15 (violations of the key exchange). Apart from the generic messages 1 to 4 (such as \<open>IGNORE\<close> and \<open>DEBUG\<close>), which are handled at any time, a message that is not one of
  the method during a key exchange, and anything but a well-formed \<open>NEWKEYS\<close> after it, ends the connection: the call
  returns, and nothing more is read.\<close>

theorem kex_violation_disconnects:
  assumes "conn_inv c" "tc_closing c = 0 \<or> \<not> tc_alive c" "answers 2 (en_writes c)" "l \<noteq> 0" "\<not> generic_message (lsh_string_data packet ! 0)"
    and "ks_read_state (tc_kex c) = KEX_STATE_IN_PROGRESS \<and>
        (lsh_string_data packet ! 0 < SSH_FIRST_KEYEXCHANGE_SPECIFIC \<or> SSH_FIRST_USERAUTH_GENERIC \<le> lsh_string_data packet ! 0)
      \<or> ks_read_state (tc_kex c) = KEX_STATE_NEWKEYS \<and> (lsh_string_data packet ! 0 \<noteq> SSH_MSG_NEWKEYS \<or> l \<noteq> 1)"
  shows "\<exists>c'. transport_process_packet ex c seqno l packet = Some (True, c') \<and> conn_inv c' \<and> tc_ssh_input c' < 0"
proof -
  have "\<exists>msg. length msg \<le> 30000 \<and> transport_process_packet ex c seqno l packet = map_option (Pair True) (transport_disconnect c SSH_DISCONNECT_PROTOCOL_ERROR msg)"
    using assms(4-6) by (auto simp: transport_process_packet_def transport_protocol_error_def generic_message_def Let_def
        intro: exI [of _ "''Unexpected message during key exchange''"] exI [of _ "''NEWKEYS expected''"] exI [of _ "''Invalid NEWKEYS message''"])
  then obtain msg where "length msg \<le> 30000"
      "transport_process_packet ex c seqno l packet = map_option (Pair True) (transport_disconnect c SSH_DISCONNECT_PROTOCOL_ERROR msg)" by blast
  then show ?thesis using disconnect_ok [OF assms(1,2), of 0 msg 2] assms(3) by (auto simp: numeral_2_eq_2)
qed

theorem kex_violation_disconnects_witness:
  "\<exists>c'. transport_process_packet example_externals (in_state KEX_STATE_IN_PROGRESS example_connection) 7 2 \<lparr>str_length = 2, str_data = [94, 1, 0]\<rparr> = Some (True, c')
     \<and> conn_inv c' \<and> tc_ssh_input c' < 0"
proof (rule kex_violation_disconnects)
  show "conn_inv (in_state KEX_STATE_IN_PROGRESS example_connection)" using example_conn_inv by (simp add: in_state_def conn_inv_def example_fields)
qed (simp_all add: in_state_def example_fields answers_def lsh_string_data_def generic_message_def)

text \<open>C29 (reading after a close). When a connection on which no service runs yet and that uses one socket for both directions is closed while output is pending, the callback for reading stays
  registered although the connection has no input any more; when the peer sends anything, the callback stops the program at its first assertion.\<close>

theorem close_pending_read_aborts:
  assumes "tc_alive c" "tc_closing c = 0" "tc_event_handler c = LSHD_EVENT_HANDLER" "tc_ssh_input c = fd" "tc_ssh_output c = fd" "0 \<le> fd"
    and "tc_write_active c" "oop_read c fd = Some OOP_SSH"
  shows "\<exists>c'. transport_close c True = Some c' \<and> oop_read c' fd = Some OOP_SSH \<and> oop_read_ssh ex c' fd = None"
  using assms by (simp add: transport_close_def event_handler_def lshd_event_handler_def transport_timeout_def oop_read_ssh_def c_assert_bind)

theorem close_pending_read_aborts_witness:
  "\<exists>c'. transport_close (example_connection\<lparr>tc_write_active := True, oop_read := [5 \<mapsto> OOP_SSH]\<rparr>) True = Some c' \<and> oop_read c' 5 = Some OOP_SSH
     \<and> oop_read_ssh example_externals c' 5 = None"
  by (rule close_pending_read_aborts) (simp_all add: example_fields)

text \<open>C30 (the count of files). On a connection without a service that uses one socket for both directions, closing at once and closing after the output has drained both end with a dead connection without files, but in the second
  case the socket is not taken off the count of files that keeps the event loop running.\<close>

theorem drained_close_leaks_file:
  assumes "tc_alive c" "tc_closing c = 0" "tc_event_handler c = LSHD_EVENT_HANDLER" "tc_ssh_input c = fd" "tc_ssh_output c = fd" "0 \<le> fd"
    and "tc_write_active c" "tf_service_in c = -1" "0 < global_nfiles c" "stdio_ok (en_close c) (en_null c)"
  shows "\<exists>c' d e. transport_close c False = Some c' \<and> \<not> tc_alive c' \<and> global_nfiles c' = global_nfiles c - 1
    \<and> transport_close c True = Some d \<and> transport_stop_write d = Some e \<and> \<not> tc_alive e \<and> tc_ssh_output e = -1 \<and> global_nfiles e = global_nfiles c"
  using assms stdio_ok_null [of "en_close c" "en_null c" fd]
  by (simp add: transport_close_def event_handler_def lshd_event_handler_def transport_timeout_def transport_stop_write_def io_close_fd_def Let_def
      kill_lshd_connection_def transport_forward_kill_def transport_forward_close_def transport_connection_kill_def)

theorem drained_close_leaks_file_witness:
  "\<exists>c' d e. transport_close (example_connection\<lparr>tc_write_active := True\<rparr>) False = Some c' \<and> \<not> tc_alive c' \<and> global_nfiles c' = 0
    \<and> transport_close (example_connection\<lparr>tc_write_active := True\<rparr>) True = Some d \<and> transport_stop_write d = Some e \<and> \<not> tc_alive e
    \<and> tc_ssh_output e = -1 \<and> global_nfiles e = 1"
  using drained_close_leaks_file [of "example_connection\<lparr>tc_write_active := True\<rparr>" 5] by (simp add: example_fields stdio_ok_def)

end
