(* ===== verification/Kex_Match.thy ===== *)
theory Kex_Match
  imports Connection_Inv
begin

text \<open>
  The end of a key exchange on both sides of a connection: \<open>keyexchange_finish\<close> of \<open>src/keyexchange.c\<close> gives each side for
  sending the keys that the other side has for receiving.
\<close>

section \<open>The instances and their keys\<close>

definition session_crypt ::
  "crypt_mode \<Rightarrow> (bytes \<Rightarrow> bytes) \<Rightarrow> bytes \<Rightarrow> ('c, 'm, 'z, 'k) algorithm option \<Rightarrow> nat \<Rightarrow> bytes \<Rightarrow> 'c crypto_instance option" where
  "session_crypt mode H secret algorithm type session_id =
     (case algorithm of
        Some (Crypto_algorithm a) \<Rightarrow>
          ca_make_crypt a mode (session_key H secret (key_letter type) session_id (unat (ca_key_size a)))
            (if ca_iv_size a = 0 then None else Some (session_key H secret (key_letter (IV_TYPE type)) session_id (unat (ca_iv_size a))))
      | _ \<Rightarrow> None)"

definition session_mac ::
  "(bytes \<Rightarrow> bytes) \<Rightarrow> bytes \<Rightarrow> ('c, 'm, 'z, 'k) algorithm option \<Rightarrow> nat \<Rightarrow> bytes \<Rightarrow> 'm mac_instance option" where
  "session_mac H secret algorithm type session_id =
     (case algorithm of
        Some (Mac_algorithm a) \<Rightarrow> Some (ma_make_mac a (ma_key_size a) (session_key H secret (key_letter type) session_id (unat (ma_key_size a))))
      | _ \<Rightarrow> None)"

lemma kex_make_crypt_keys:
  assumes "hash_spec a H" "0 < n_digest_size a" "absorbed a bs secret" "nul_terminated session_id" "type < 2"
    and "kex_make_crypt mode junk secret algorithms type session_id = Some (ok, x)"
  shows "x = session_crypt mode H bs (algorithms ! type) type (contents session_id)"
proof (cases "algorithms ! type")
  case (Some y)
  then obtain b where b: "y = Crypto_algorithm b" using assms(6) by (cases y) (auto simp: kex_make_crypt_def crypto_algorithm_of_def)
  obtain key where "kex_make_key junk secret (ca_key_size b) type session_id = Some key"
      "contents key = session_key H bs (key_letter type) (contents session_id) (unat (ca_key_size b))"
    using kex_make_key_session [OF assms(1-4), of type junk "ca_key_size b"] assms(5) by auto
  moreover obtain iv where "kex_make_key junk secret (ca_iv_size b) (IV_TYPE type) session_id = Some iv"
      "contents iv = session_key H bs (key_letter (IV_TYPE type)) (contents session_id) (unat (ca_iv_size b))"
    using kex_make_key_session [OF assms(1-4), of "IV_TYPE type" junk "ca_iv_size b"] assms(5) by (auto simp: IV_TYPE_def)
  ultimately show ?thesis
    using assms(6) Some b by (auto simp: kex_make_crypt_def crypto_algorithm_of_def session_crypt_def c_assert_bind Let_def split: if_splits)
qed (use assms(6) in \<open>auto simp: kex_make_crypt_def crypto_algorithm_of_def session_crypt_def c_assert_bind split: if_splits\<close>)

lemma kex_make_mac_keys:
  assumes "hash_spec a H" "0 < n_digest_size a" "absorbed a bs secret" "nul_terminated session_id" "type < 6"
    and "kex_make_mac junk secret algorithms type session_id = Some x"
  shows "x = session_mac H bs (algorithms ! type) type (contents session_id)"
proof (cases "algorithms ! type")
  case (Some y)
  then obtain b where b: "y = Mac_algorithm b" using assms(6) by (cases y) (auto simp: kex_make_mac_def mac_algorithm_of_def)
  obtain key where "kex_make_key junk secret (ma_key_size b) type session_id = Some key"
      "contents key = session_key H bs (key_letter type) (contents session_id) (unat (ma_key_size b))"
    using kex_make_key_session [OF assms(1-5), of junk "ma_key_size b"] by auto
  then show ?thesis
    using assms(6) Some b by (auto simp: kex_make_mac_def mac_algorithm_of_def session_mac_def c_assert_bind split: if_splits)
qed (use assms(6) in \<open>auto simp: kex_make_mac_def mac_algorithm_of_def session_mac_def c_assert_bind split: if_splits\<close>)

lemma length_session_key:
  assumes "hash_spec a H" "0 < n_digest_size a"
  shows "length (session_key H secret tag session_id n) = n"
proof -
  have "length (kex_blocks H secret (H (secret @ [tag] @ session_id)) n) = unat (n_digest_size a) + n * unat (n_digest_size a)"
    using length_kex_blocks [of H "unat (n_digest_size a)"] assms(1) by (simp add: hash_spec_def)
  moreover have "n * 1 \<le> n * unat (n_digest_size a)" using assms(2) by (intro mult_le_mono2) (simp add: u32_less)
  ultimately show ?thesis unfolding session_key_def length_take by linarith
qed

text \<open>Encryption and decryption with one key.\<close>

definition paired :: "('c, 'm, 'z, 'k) algorithm option \<Rightarrow> 'c crypto_instance option \<Rightarrow> 'c crypto_instance option \<Rightarrow> bool" where
  "paired algorithm encrypt decrypt \<longleftrightarrow>
     (case algorithm of
        Some (Crypto_algorithm a) \<Rightarrow> \<exists>key iv. length key = unat (ca_key_size a) \<and> (iv = None \<longleftrightarrow> ca_iv_size a = 0)
          \<and> encrypt = ca_make_crypt a CRYPTO_ENCRYPT key iv \<and> decrypt = ca_make_crypt a CRYPTO_DECRYPT key iv
      | _ \<Rightarrow> encrypt = None \<and> decrypt = None)"

lemma session_crypt_paired:
  assumes "hash_spec a H" "0 < n_digest_size a"
  shows "paired algorithm (session_crypt CRYPTO_ENCRYPT H bs algorithm type session_id) (session_crypt CRYPTO_DECRYPT H bs algorithm type session_id)"
proof (cases algorithm)
  case (Some x)
  note len = length_session_key [OF assms]
  show ?thesis
  proof (cases x)
    case (Crypto_algorithm b)
    show ?thesis unfolding paired_def session_crypt_def Some Crypto_algorithm option.case algorithm.case
      by (intro exI [of _ "session_key H bs (key_letter type) session_id (unat (ca_key_size b))"]
          exI [of _ "if ca_iv_size b = 0 then None else Some (session_key H bs (key_letter (IV_TYPE type)) session_id (unat (ca_iv_size b)))"] conjI len refl) simp
  qed (simp_all add: Some paired_def session_crypt_def)
qed (simp add: paired_def session_crypt_def)

lemma direction_bounds:
  "direction KEX_ENCRYPTION_CLIENT_TO_SERVER s < 2" "direction KEX_ENCRYPTION_SERVER_TO_CLIENT s < 2"
  "direction KEX_MAC_CLIENT_TO_SERVER s < 6" "direction KEX_MAC_SERVER_TO_CLIENT s < 6"
  by (simp_all add: direction_def)

lemma direction_other:
  "direction KEX_ENCRYPTION_SERVER_TO_CLIENT (\<not> s) = direction KEX_ENCRYPTION_CLIENT_TO_SERVER s"
  "direction KEX_MAC_SERVER_TO_CLIENT (\<not> s) = direction KEX_MAC_CLIENT_TO_SERVER s"
  by (simp_all add: direction_def)

text \<open>What a successful \<open>keyexchange_finish\<close> has made: the keys for receiving wait for \<open>NEWKEYS\<close>, those for sending are
  in the writer before it is flushed.\<close>

lemma finish_keys:
  assumes "keyexchange_finish c a exchange_hash K = Some (True, c')" "ks_algorithm_list (tc_kex c) = Some algorithms"
    and "tc_session_id c = Some session_id" "hash_spec a H" "0 < n_digest_size a" "nul_terminated session_id"
    and bs: "\<And>junk. \<exists>secret. kex_build_secret junk a exchange_hash K = Some secret \<and> absorbed a bs secret"
  shows "tc_new_crypto c' = session_crypt CRYPTO_DECRYPT H bs (algorithms ! direction KEX_ENCRYPTION_SERVER_TO_CLIENT (tc_is_server c))
           (direction KEX_ENCRYPTION_SERVER_TO_CLIENT (tc_is_server c)) (contents session_id)"
    and "tc_new_mac c' = session_mac H bs (algorithms ! direction KEX_MAC_SERVER_TO_CLIENT (tc_is_server c))
           (direction KEX_MAC_SERVER_TO_CLIENT (tc_is_server c)) (contents session_id)"
    and "\<exists>c1 deflate. transport_send_packet (c1\<lparr>tc_writer := transport_write_new_keys (tc_writer c1)
            (session_mac H bs (algorithms ! direction KEX_MAC_CLIENT_TO_SERVER (tc_is_server c)) (direction KEX_MAC_CLIENT_TO_SERVER (tc_is_server c)) (contents session_id))
            (session_crypt CRYPTO_ENCRYPT H bs (algorithms ! direction KEX_ENCRYPTION_CLIENT_TO_SERVER (tc_is_server c))
              (direction KEX_ENCRYPTION_CLIENT_TO_SERVER (tc_is_server c)) (contents session_id)) deflate\<rparr>) no_write_flags None = Some c'"
proof -
  obtain secret where s: "kex_build_secret (en_junk c) a exchange_hash K = Some secret" "absorbed a bs secret" using bs by blast
  note crypt = kex_make_crypt_keys [OF assms(4,5) s(2) assms(6)] and mac = kex_make_mac_keys [OF assms(4,5) s(2) assms(6)]
  obtain dec enc rmac smac c1 newkeys deflate inflate where
    d: "kex_make_decrypt (en_junk c) secret algorithms (direction KEX_ENCRYPTION_SERVER_TO_CLIENT (tc_is_server c)) session_id = Some (True, dec)"
      "kex_make_encrypt (en_junk c) secret algorithms (direction KEX_ENCRYPTION_CLIENT_TO_SERVER (tc_is_server c)) session_id = Some (True, enc)"
      "kex_make_mac (en_junk c) secret algorithms (direction KEX_MAC_SERVER_TO_CLIENT (tc_is_server c)) session_id = Some rmac"
      "transport_send_packet (c\<lparr>tc_new_crypto := dec, tc_new_mac := rmac, tc_new_inflate := inflate\<rparr>) no_write_flags (Some newkeys) = Some c1"
      "kex_make_mac (en_junk c1) secret algorithms (direction KEX_MAC_CLIENT_TO_SERVER (tc_is_server c)) session_id = Some smac"
      "transport_send_packet (c1\<lparr>tc_writer := transport_write_new_keys (tc_writer c1) smac enc deflate\<rparr>) no_write_flags None = Some c'"
    using assms(1-3) s(1) unfolding keyexchange_finish_def Let_def c_assert_bind by (auto split: if_splits bind_splits)
  note keys = crypt [OF direction_bounds(2) d(1) [unfolded kex_make_decrypt_def]] crypt [OF direction_bounds(1) d(2) [unfolded kex_make_encrypt_def]]
      mac [OF direction_bounds(4) d(3)] mac [OF direction_bounds(3) d(5)]
  have "tc_new_crypto c' = dec" "tc_new_mac c' = rmac"
    using kept_send_packet [OF d(4)] kept_send_packet [OF d(6)] by (simp_all add: kept_def)
  then show "tc_new_crypto c' = session_crypt CRYPTO_DECRYPT H bs (algorithms ! direction KEX_ENCRYPTION_SERVER_TO_CLIENT (tc_is_server c))
           (direction KEX_ENCRYPTION_SERVER_TO_CLIENT (tc_is_server c)) (contents session_id)"
    "tc_new_mac c' = session_mac H bs (algorithms ! direction KEX_MAC_SERVER_TO_CLIENT (tc_is_server c))
           (direction KEX_MAC_SERVER_TO_CLIENT (tc_is_server c)) (contents session_id)"
    using keys by simp_all
  show "\<exists>c1 deflate. transport_send_packet (c1\<lparr>tc_writer := transport_write_new_keys (tc_writer c1)
            (session_mac H bs (algorithms ! direction KEX_MAC_CLIENT_TO_SERVER (tc_is_server c)) (direction KEX_MAC_CLIENT_TO_SERVER (tc_is_server c)) (contents session_id))
            (session_crypt CRYPTO_ENCRYPT H bs (algorithms ! direction KEX_ENCRYPTION_CLIENT_TO_SERVER (tc_is_server c))
              (direction KEX_ENCRYPTION_CLIENT_TO_SERVER (tc_is_server c)) (contents session_id)) deflate\<rparr>) no_write_flags None = Some c'"
    using d(6) unfolding keys by blast
qed

section \<open>Properties\<close>

text \<open>C3 (matching keys). When both sides, one of them the server, finish a key exchange with the same algorithms, shared secret, exchange hash and session
  identifier, then what one side installs for sending fits what the other side holds for receiving: the same authentication code, and encryption and
  decryption by the same algorithm with the same key of the size it wants and the same initial vector.\<close>

theorem session_keys_match:
  assumes "hash_spec a H" "0 < n_digest_size a" "nul_terminated K" "nul_terminated exchange_hash" "nul_terminated session_id"
    and "length (contents K) + length (contents exchange_hash) < 4294967292"
    and "keyexchange_finish c a exchange_hash K = Some (True, c')" "ks_algorithm_list (tc_kex c) = Some algorithms" "tc_session_id c = Some session_id"
    and "keyexchange_finish d a exchange_hash K = Some (True, d')" "ks_algorithm_list (tc_kex d) = Some algorithms" "tc_session_id d = Some session_id"
    and "tc_is_server d \<noteq> tc_is_server c"
  shows "\<exists>c1 crypto deflate. transport_send_packet (c1\<lparr>tc_writer := transport_write_new_keys (tc_writer c1) (tc_new_mac d') crypto deflate\<rparr>)
           no_write_flags None = Some c'
    \<and> paired (algorithms ! direction KEX_ENCRYPTION_CLIENT_TO_SERVER (tc_is_server c)) crypto (tc_new_crypto d')"
proof -
  define bs where "bs = WRITE_UINT32 (of_nat (length (contents K))) @ contents K @ contents exchange_hash"
  have bs: "\<exists>secret. kex_build_secret junk a exchange_hash K = Some secret \<and> absorbed a bs secret" for junk
    unfolding bs_def by (rule kex_build_secret_ok [OF assms(1,3,4,6)])
  have other: "tc_is_server d = (\<not> tc_is_server c)" using assms(13) by auto
  note sending = finish_keys(3) [OF assms(7,8,9,1,2,5) bs]
  note receiving = finish_keys(1,2) [OF assms(10,11,12,1,2,5) bs, unfolded other direction_other]
  show ?thesis using sending session_crypt_paired [OF assms(1,2)] unfolding receiving by blast
qed

text \<open>Sending does not start to close a connection.\<close>

lemma closing_io_close_fd: "io_close_fd fd c = Some c' \<Longrightarrow> tc_closing c' = tc_closing c"
  by (auto simp: io_close_fd_def c_assert_bind Let_def split: if_splits)

lemma closing_forward_close: "transport_forward_close c = Some c' \<Longrightarrow> tc_closing c' = tc_closing c"
  by (auto simp: transport_forward_close_def split: if_splits bind_splits dest!: closing_io_close_fd)

lemma closing_kill: "kill_lshd_connection c = Some c' \<Longrightarrow> tc_closing c' = tc_closing c"
  by (auto simp: kill_lshd_connection_def transport_forward_kill_def transport_connection_kill_def
      split: if_splits bind_splits dest!: closing_forward_close closing_io_close_fd)

lemma closing_event_handler: "event_handler c event = Some c' \<Longrightarrow> tc_closing c' = tc_closing c"
  by (cases "tc_event_handler c"; cases event)
    (auto simp: event_handler_def lshd_event_handler_def forward_event_handler_def forward_start_read_def forward_stop_read_def
      c_assert_bind split: if_splits dest!: closing_forward_close)

lemma closing_close: "transport_close c False = Some c' \<Longrightarrow> tc_closing c' = tc_closing c"
  unfolding transport_close_def Let_def
  by (auto split: if_splits bind_splits dest!: closing_event_handler closing_io_close_fd closing_kill)

lemma closing_send_packet: "transport_send_packet c flags packet = Some c' \<Longrightarrow> tc_closing c = 0 \<Longrightarrow> tc_closing c' = 0"
  unfolding transport_send_packet_def transport_start_write_def transport_stop_write_def Let_def
  by (auto split: if_splits bind_splits transport_write_status.splits dest!: closing_event_handler closing_close)

lemma format_newkeys_packet: "\<exists>p. format_newkeys junk = Some p \<and> packet_ok p"
proof -
  have "render no_bignum junk ''%c'' [Int_arg SSH_MSG_NEWKEYS] = Some [21]" by (simp add: render_simps)
  from ssh_format_total [OF this] show ?thesis by (auto simp: format_newkeys_def packet_ok_def)
qed

text \<open>An example: no encryption, and an authentication code that sums bytes, starting from its key.\<close>

definition example_mac :: "(unit, byte, unit, unit) algorithm" where
  "example_mac = Mac_algorithm \<lparr>ma_mac_size = 1, ma_key_size = 1,
     ma_make_mac = (\<lambda>_ key. \<lparr>m_size = 1, m_update = (\<lambda>x bs. x + sum_list bs), m_digest = (\<lambda>x. (x, [x])), m_ctx = hd key\<rparr>)\<rparr>"

definition example_algorithms :: "(unit, byte, unit, unit) algorithm option list" where
  "example_algorithms = [None, None, Some example_mac, Some example_mac, None, None, None]"

definition example_id :: lsh_string where
  "example_id = lsh_string_alloc (\<lambda>_. 4) 2"

definition example_side :: "bool \<Rightarrow> (unit, byte, unit, unit, unit) transport_connection" where
  "example_side is_server = (init_transport_forward example_env is_server (\<lambda>_. Some None) example_info 5 5)
     \<lparr>tc_kex := init_kexinit_state\<lparr>ks_algorithm_list := Some example_algorithms\<rparr>, tc_session_id := Some example_id\<rparr>"

lemma example_side_fields:
  "tc_closing (example_side s) = 0" "tc_is_server (example_side s) = s" "ks_algorithm_list (tc_kex (example_side s)) = Some example_algorithms"
  "tc_session_id (example_side s) = Some example_id" "en_writes (example_side s) = replicate 8 Done" "conn_inv (example_side s)"
  by (simp_all add: example_side_def init_transport_forward_def io_register_fd_def environment.extend_def example_env_def conn_inv_def
      make_writer_inv make_sender_ok files_def io_legal_def stdio_ok_def)

lemma example_make_mac:
  assumes "absorbed sum_hash bs secret" "type \<in> {2, 3}"
  shows "\<exists>m. kex_make_mac junk secret example_algorithms type example_id = Some (Some m) \<and> m_size m = 1 \<and> mac_laws m"
proof -
  obtain key where "kex_make_key junk secret 1 type example_id = Some key"
    using kex_make_key_session [OF sum_hash_spec _ assms(1), of example_id type junk 1] assms(2) by (auto simp: sum_hash_def example_id_def)
  then show ?thesis using assms(2) by (auto simp: kex_make_mac_def mac_algorithm_of_def example_algorithms_def example_mac_def mac_laws_def add.assoc)
qed

lemma example_finishes: "\<exists>c'. keyexchange_finish (example_side s) sum_hash (lsh_string_alloc (\<lambda>_. 1) 2) (lsh_string_alloc (\<lambda>_. 2) 3) = Some (True, c')"
proof -
  let ?c = "example_side s" and ?alloc = "lsh_string_alloc (\<lambda>_. 1) 2" and ?K = "lsh_string_alloc (\<lambda>_. 2) 3"
  obtain secret bs where secret: "kex_build_secret (en_junk ?c) sum_hash ?alloc ?K = Some secret" "absorbed sum_hash bs secret"
    using kex_build_secret_ok [OF sum_hash_spec, of ?K ?alloc "en_junk ?c"] by (auto simp: contents_alloc)
  have none: "kex_make_decrypt junk secret example_algorithms (direction KEX_ENCRYPTION_SERVER_TO_CLIENT s) example_id = Some (True, None)"
    "kex_make_encrypt junk secret example_algorithms (direction KEX_ENCRYPTION_CLIENT_TO_SERVER s) example_id = Some (True, None)"
    "kex_make_inflate example_algorithms (direction KEX_COMPRESSION_SERVER_TO_CLIENT s) = Some None"
    "kex_make_deflate example_algorithms (direction KEX_COMPRESSION_CLIENT_TO_SERVER s) = Some None" for junk
    by (simp_all add: kex_make_decrypt_def kex_make_encrypt_def kex_make_crypt_def kex_make_inflate_def kex_make_deflate_def direction_def
        example_algorithms_def crypto_algorithm_of_def compress_algorithm_of_def)
  have mac: "\<exists>m. kex_make_mac junk secret example_algorithms (direction t s) example_id = Some (Some m) \<and> m_size m = 1 \<and> mac_laws m"
    if "t \<in> {2, 3}" for junk t using that by (intro example_make_mac [OF secret(2)]) (auto simp: direction_def)
  obtain rmac where rmac: "kex_make_mac (en_junk ?c) secret example_algorithms (direction KEX_MAC_SERVER_TO_CLIENT s) example_id = Some (Some rmac)"
    using mac by blast
  define d where "d = ?c\<lparr>tc_new_crypto := None, tc_new_mac := Some rmac, tc_new_inflate := None\<rparr>"
  have d: "conn_inv d" "tc_closing d = 0" "en_writes d = replicate 8 Done" "en_junk d = en_junk ?c"
    using example_side_fields [of s] by (simp_all add: d_def conn_inv_def)
  obtain newkeys where newkeys: "format_newkeys (en_junk d) = Some newkeys" "packet_ok newkeys" using format_newkeys_packet by blast
  obtain c1 where c1: "transport_send_packet d no_write_flags (Some newkeys) = Some c1" "conn_inv c1" "answers 2 (en_writes c1)"
    using send_packet_ok [OF d(1) disjI1 [OF d(2)] _ newkeys(2), of 2 no_write_flags] d(3) by (auto simp: answers_def)
  have closing: "tc_closing c1 = 0 \<or> \<not> tc_alive c1" using closing_send_packet [OF c1(1)] d(2) by simp
  obtain smac where smac: "kex_make_mac (en_junk c1) secret example_algorithms (direction KEX_MAC_CLIENT_TO_SERVER s) example_id = Some (Some smac)"
      "m_size smac = 1" "mac_laws smac" using mac by blast
  define c2 where "c2 = c1\<lparr>tc_writer := transport_write_new_keys (tc_writer c1) (Some smac) None None\<rparr>"
  have c2: "conn_inv c2" "tc_closing c2 = 0 \<or> \<not> tc_alive c2" "answers 2 (en_writes c2)"
    using c1 closing smac(2,3) 
    by (auto simp: c2_def conn_inv_def transport_write_new_keys_def sender_ok_def cipher_ok_def writer_inv_def)
  obtain c' where "transport_send_packet c2 no_write_flags None = Some c'"
    using send_flush_ok [OF c2(1,2) c2(3) [unfolded numeral_2_eq_2]] by blast
  then have "keyexchange_finish ?c sum_hash ?alloc ?K = Some (True, c')"
    using secret(1) none rmac d(4) newkeys(1) c1(1) smac(1) example_side_fields(2-4) [of s]
    by (simp add: keyexchange_finish_def Let_def d_def c2_def example_algorithms_def)
  then show ?thesis by blast
qed

theorem session_keys_match_witness:
  "\<exists>c' d' c1 crypto deflate. keyexchange_finish (example_side False) sum_hash (lsh_string_alloc (\<lambda>_. 1) 2) (lsh_string_alloc (\<lambda>_. 2) 3) = Some (True, c')
     \<and> keyexchange_finish (example_side True) sum_hash (lsh_string_alloc (\<lambda>_. 1) 2) (lsh_string_alloc (\<lambda>_. 2) 3) = Some (True, d')
     \<and> transport_send_packet (c1\<lparr>tc_writer := transport_write_new_keys (tc_writer c1) (tc_new_mac d') crypto deflate\<rparr>) no_write_flags None = Some c'"
proof -
  obtain c' d' where r: "keyexchange_finish (example_side False) sum_hash (lsh_string_alloc (\<lambda>_. 1) 2) (lsh_string_alloc (\<lambda>_. 2) 3) = Some (True, c')"
      "keyexchange_finish (example_side True) sum_hash (lsh_string_alloc (\<lambda>_. 1) 2) (lsh_string_alloc (\<lambda>_. 2) 3) = Some (True, d')"
    using example_finishes by blast
  show ?thesis
    using r session_keys_match [OF sum_hash_spec _ _ _ _ _ r(1) example_side_fields(3,4) r(2) example_side_fields(3,4)]
    by (auto simp: sum_hash_def example_id_def contents_alloc example_side_fields)
qed

end
