(* ===== verification/Service_Forward.thy ===== *)
theory Service_Forward
  imports Connection_Inv
begin

text \<open>
  Packets that a connection passes on to the service process: framed as the reader of the service expects them, in order, and never when
  they are for local use only.
\<close>

section \<open>Writing to the service\<close>

text \<open>A write of the schedule fails for good.\<close>

definition write_fails :: "system_calls \<Rightarrow> bool" where
  "write_fails ios \<longleftrightarrow> (\<exists>f \<in> set ios. \<exists>n e. f n = Fail e \<and> e \<notin> {EINTR, EWOULDBLOCK})"

lemma retry_result:
  "retry n ios = Some (res, rest) \<Longrightarrow> res \<in> (\<lambda>f. f n) ` set ios" "retry n ios = Some (res, rest) \<Longrightarrow> res \<noteq> Fail EINTR"
  "retry n ios = Some (res, rest) \<Longrightarrow> set rest \<subseteq> set ios"
  by (induction ios) (simp_all split: if_splits, blast+)

lemma enqueue_rest_room:
  assumes "enqueue_rest s l d = Some (ok, s')" "unat l + unat (w_length s) \<le> unat (str_length (w_buffer s))"
  shows ok
proof -
  have "unat (l + w_length s) = unat l + unat (w_length s)" using assms(2) unat_u32_bound [of "str_length (w_buffer s)"] by (simp add: unat_u32_mod del: unat_u32_bound)
  then show ok using assms by (auto simp: enqueue_rest_def ssh_write_enqueue_def lsh_string_length_def u32_less bind_eq_Some_conv Let_def split: if_splits)
qed

text \<open>With room for all data, a write reports nothing but what the system call reports.\<close>

lemma write_errno:
  assumes "ssh_write_data s to_write l d ios = Some r" "retry (unat (effective s to_write l)) ios = Some (res, rest)"
    and "io_ok (unat (effective s to_write l)) res" "unat (effective s to_write l) \<le> unat (w_length s) + unat l"
    and "unat l + unat (w_length s) \<le> unat (str_length (w_buffer s))" "0 < unat (effective s to_write l)"
  shows "w_errno r = (case res of Fail e \<Rightarrow> Some e | Done _ \<Rightarrow> None)"
proof (cases res)
  case (Fail e)
  then have "ssh_write_data s to_write l d ios = write_io_error e s l d rest"
    using assms(2,6) by (simp add: ssh_write_data_def u32_less Let_def flip: effective_def)
  then have "write_io_error e s l d rest = Some r" using assms(1) by simp
  then show ?thesis
    using Fail assms(5) enqueue_rest_room [of s l d] by (auto simp: write_io_error_def bind_eq_Some_conv)
next
  case (Done k)
  let ?tw = "effective s to_write l"
  have "k \<le> unat ?tw" "unat ?tw < 4294967296" using assms(3) Done by simp_all
  then have k: "unat (of_nat k :: u32) = k" "k \<le> unat ?tw" using unat_u32_of_nat [OF le_less_trans] by blast+
  have dn: "w_errno r = None" if "write_done k sent s' l' d' rest = Some r" "unat l' + unat (w_length s') \<le> unat l + unat (w_length s)"
      "w_buffer s' = w_buffer s" for sent s' l' d'
    using that assms(5) enqueue_rest_room [of s' l' d'] by (auto simp: write_done_def bind_eq_Some_conv c_assert_def)
  have "ssh_write_data s to_write l d ios = (if ?tw \<le> w_length s
       then write_done k (take k (drop (unat (w_start s)) (lsh_string_data (w_buffer s))))
              (s\<lparr>w_length := w_length s - of_nat k, w_start := w_start s + of_nat k\<rparr>) l d rest
       else if w_length s = 0 then write_done k (take k d) s (l - of_nat k) (drop k d) rest
       else if of_nat k < w_length s
       then write_done k (take k (drop (unat (w_start s)) (lsh_string_data (w_buffer s))))
              (s\<lparr>w_length := w_length s - of_nat k, w_start := w_start s + of_nat k\<rparr>) l d rest
       else write_done k (take (unat (w_length s)) (drop (unat (w_start s)) (lsh_string_data (w_buffer s))) @ take (unat (of_nat k - w_length s)) d)
              (s\<lparr>w_length := 0, w_start := 0\<rparr>) (l - (of_nat k - w_length s)) (drop (unat (of_nat k - w_length s)) d) rest)"
    using assms(2,6) Done by (simp add: ssh_write_data_def u32_less Let_def cong: if_cong split del: if_split flip: effective_def)
  note step = this [unfolded assms(1), symmetric]
  have less: "unat (w_length s - of_nat k) \<le> unat (w_length s)" if "k \<le> unat (w_length s)" using that k(1) by (simp add: unat_u32_diff)
  have "w_errno r = None"
  proof (cases "?tw \<le> w_length s \<or> w_length s \<noteq> 0 \<and> of_nat k < w_length s")
    case True
    then have "k \<le> unat (w_length s)" using k by (auto simp: u32_le u32_less)
    then show ?thesis using True less dn step by (auto split: if_splits)
  next
    case False
    then have more: "\<not> ?tw \<le> w_length s" "unat (w_length s) \<le> k" using k by (auto simp: u32_less)
    have diff: "unat (of_nat k - w_length s) = k - unat (w_length s)" using more(2) k by (simp add: unat_u32_diff)
    then have "unat (l - (of_nat k - w_length s)) \<le> unat l" using more k assms(4) by (simp add: unat_u32_diff)
    then show ?thesis using False dn step by (auto split: if_splits)
  qed
  then show ?thesis using Done by simp
qed

lemma service_write_ok:
  assumes "write_inv s" "unat l \<le> length d" "unat l + unat (w_length s) \<le> unat (str_length (w_buffer s))" "0 < l" "io_legal ios" "answers (Suc k) ios"
  shows "\<exists>r. ssh_write_data s 0 l d ios = Some r \<and> accounts s (take (unat l) d) r \<and> io_legal (w_ios r) \<and> answers k (w_ios r)
    \<and> (write_fails (w_ios r) \<longrightarrow> write_fails ios) \<and> (w_ret r > 0 \<or> w_errno r = Some EWOULDBLOCK \<or> write_fails ios)"
proof -
  let ?n = "effective s 0 l"
  have small: "unat l + unat (w_length s) < 4294967296" using assms(3) unat_u32_bound [of "str_length (w_buffer s)"] by (simp del: unat_u32_bound)
  then have sum: "unat (w_length s + l) = unat (w_length s) + unat l" by (simp add: unat_u32_mod)
  have n: "0 < unat ?n" "unat ?n \<le> unat (w_length s) + unat l"
    using assms(4) sum by (auto simp: effective_def WRITE_MAX_def min_def u32_le u32_less)
  obtain res rest where r: "retry (unat ?n) ios = Some (res, rest)" "answers k rest" using retry_answers [OF assms(6)] by blast
  have io: "io_ok (unat ?n) res" "io_legal rest" using retry_ok [OF r(1) assms(5)] n(1) by simp_all
  then obtain x where x: "ssh_write_data s 0 l d ios = Some x" "accounts s (take (unat l) d) x"
    using ssh_write_data_accounts [OF assms(1,2) small n r(1)] by blast
  have "w_ios x = rest" using write_request(1) [OF x(1)] r(1) by simp
  moreover have "w_ret x > 0 \<or> w_errno x = Some EWOULDBLOCK \<or> write_fails ios"
  proof (cases res)
    case (Done j)
    then show ?thesis using write_errno [OF x(1) r(1) io(1) n(2) assms(3) n(1)] x(2) by (simp add: accounts_def word_gt_0)
  next
    case (Fail e)
    then have "w_errno x = Some e" "e \<noteq> EINTR" using write_errno [OF x(1) r(1) io(1) n(2) assms(3) n(1)] retry_result(2) [OF r(1)] by simp_all
    moreover have "write_fails ios" if "e \<notin> {EINTR, EWOULDBLOCK}"
      using that retry_result(1) [OF r(1)] unfolding Fail write_fails_def by (metis imageE)
    ultimately show ?thesis by blast
  qed
  moreover have "write_fails rest \<longrightarrow> write_fails ios" using retry_result(3) [OF r(1)] unfolding write_fails_def by blast
  ultimately show ?thesis using x r(2) io(2) by auto
qed

lemma answers_mono: "answers k ios \<Longrightarrow> j \<le> k \<Longrightarrow> answers j ios"
  by (simp add: answers_def)

definition service_ready :: "nat \<Rightarrow> ('c, 'm, 'z, 'k, 'h) transport_connection \<Rightarrow> bool" where
  "service_ready k c \<longleftrightarrow> write_inv (tf_service_writer c) \<and> str_length (w_buffer (tf_service_writer c)) = 3 * SSH_MAX_PACKET
     \<and> io_legal (en_service_writes c) \<and> answers k (en_service_writes c)"

text \<open>All bytes for the service, sent or buffered.\<close>

definition to_service :: "('c, 'm, 'z, 'k, 'h) transport_connection \<Rightarrow> bytes" where
  "to_service c = en_service_sent c @ pending (tf_service_writer c)"

lemma service_written_stream:
  assumes "accounts (tf_service_writer c) d r" "w_ret r > 0 \<or> w_errno r = Some EWOULDBLOCK"
  shows "to_service (service_written c r) = to_service c @ d" "write_inv (tf_service_writer (service_written c r))"
    "str_length (w_buffer (tf_service_writer (service_written c r))) = str_length (w_buffer (tf_service_writer c))"
proof -
  have a: "write_inv (w_state r)" "str_length (w_buffer (w_state r)) = str_length (w_buffer (tf_service_writer c))"
      "w_ret r = 0 \<longleftrightarrow> w_errno r \<noteq> None" using assms(1) by (simp_all add: accounts_def)
  obtain lost where l: "w_sent r @ pending (w_state r) @ lost = pending (tf_service_writer c) @ d" "w_errno r \<noteq> Some EOVERFLOW \<longrightarrow> lost = []"
    using assms(1) by (auto simp: accounts_def)
  have "lost = []" using l(2) assms(2) a(3) by (auto simp: word_gt_0)
  then show "to_service (service_written c r) = to_service c @ d" using l(1) by (simp add: to_service_def service_written_def)
  show "write_inv (tf_service_writer (service_written c r))"
    "str_length (w_buffer (tf_service_writer (service_written c r))) = str_length (w_buffer (tf_service_writer c))"
    using a by (simp_all add: service_written_def)
qed

lemma conn_inv_service [simp]:
  "conn_inv (service_written c r) = conn_inv c" "tc_closing (service_written c r) = tc_closing c" "tc_alive (service_written c r) = tc_alive c"
  "en_writes (service_written c r) = en_writes c" "tc_ssh_input (service_written c r) = tc_ssh_input c"
  "tc_ssh_input (service_write_continue c) = tc_ssh_input c"
  "tc_closing (service_write_continue c) = tc_closing c" "en_writes (service_write_continue c) = en_writes c"
  "conn_inv (service_write_continue c) = conn_inv c" "to_service (service_write_continue c) = to_service c"
  by (simp_all add: conn_inv_def service_written_def service_write_continue_def forward_start_write_def forward_stop_write_def to_service_def)

lemma service_failed_ok:
  assumes "conn_inv c" "tc_closing c = 0 \<or> \<not> tc_alive c" "answers (Suc (Suc k)) (en_writes c)"
  shows "\<exists>c'. service_failed c = Some c' \<and> conn_inv c' \<and> tc_ssh_input c' < 0 \<and> answers k (en_writes c')"
  unfolding service_failed_def using assms by (intro disconnect_ok) simp_all

lemma service_available: "write_inv s \<Longrightarrow> ssh_write_available s = Some (str_length (w_buffer s) - w_length s) \<and> w_length s \<le> str_length (w_buffer s)"
  by (auto simp: ssh_write_available_def write_inv_def window_ok_def lsh_string_length_def u32_le)

text \<open>What passing on \<open>d\<close> does: the bytes for the service are extended, or a write failed for good and nothing more is read.\<close>

definition passed_on ::
  "('c, 'm, 'z, 'k, 'h) transport_connection \<Rightarrow> bytes \<Rightarrow> ('c, 'm, 'z, 'k, 'h) transport_connection \<Rightarrow> bool" where
  "passed_on c d c' \<longleftrightarrow> to_service c' = to_service c @ d \<and> tc_ssh_input c' = tc_ssh_input c
     \<or> write_fails (en_service_writes c) \<and> tc_ssh_input c' < 0"

text \<open>The state in which the next packet can be passed on.\<close>

definition goes_on :: "nat \<Rightarrow> ('c, 'm, 'z, 'k, 'h) transport_connection \<Rightarrow> ('c, 'm, 'z, 'k, 'h) transport_connection \<Rightarrow> bool" where
  "goes_on n c c' \<longleftrightarrow> tc_ssh_input c' < 0 \<or> service_ready n c' \<and> en_writes c' = en_writes c \<and> tc_closing c' = tc_closing c"

text \<open>The second write and what follows it.\<close>

lemma forward_body_ok:
  assumes "conn_inv c" "tc_closing c = 0 \<or> \<not> tc_alive c" "answers (Suc (Suc k)) (en_writes c)"
    and "write_inv (tf_service_writer c)" "str_length (w_buffer (tf_service_writer c)) = 3 * SSH_MAX_PACKET"
    and "io_legal (en_service_writes c)" "answers (Suc n) (en_service_writes c)" "0 < l" "unat l \<le> length packet"
    and "unat (w_length (tf_service_writer c)) + unat l \<le> 98304"
  shows "\<exists>r c'. ssh_write_data (tf_service_writer c) 0 l packet (en_service_writes c) = Some r
    \<and> (if w_ret r > 0 \<or> w_errno r = Some EWOULDBLOCK then Some (service_write_continue (service_written c r)) else service_failed (service_written c r)) = Some c'
    \<and> conn_inv c' \<and> passed_on c (take (unat l) packet) c' \<and> goes_on n c c'"
proof -
  have room: "unat l + unat (w_length (tf_service_writer c)) \<le> unat (str_length (w_buffer (tf_service_writer c)))" using assms(5,10) by simp
  obtain r where r: "ssh_write_data (tf_service_writer c) 0 l packet (en_service_writes c) = Some r"
      "accounts (tf_service_writer c) (take (unat l) packet) r" "io_legal (w_ios r)" "answers n (w_ios r)"
      "w_ret r > 0 \<or> w_errno r = Some EWOULDBLOCK \<or> write_fails (en_service_writes c)"
    using service_write_ok [OF assms(4,9) room assms(8,6,7)] by blast
  show ?thesis
  proof (cases "w_ret r > 0 \<or> w_errno r = Some EWOULDBLOCK")
    case True
    have "service_ready n (service_write_continue (service_written c r))"
      using service_written_stream(2,3) [OF r(2) True] assms(5) r(3,4)
      by (simp add: service_ready_def service_write_continue_def forward_start_write_def forward_stop_write_def service_written_def)
    then show ?thesis using r(1) service_written_stream(1) [OF r(2) True] assms(1) True by (auto simp: passed_on_def goes_on_def)
  next
    case False
    then show ?thesis using r(1,5) service_failed_ok [of "service_written c r" k] assms(1-3) by (auto simp: passed_on_def goes_on_def)
  qed
qed

definition has_room :: "('c, 'm, 'z, 'k, 'h) transport_connection \<Rightarrow> u32 \<Rightarrow> bool" where
  "has_room c l \<longleftrightarrow> length (pending (tf_service_writer c)) + 8 + unat l \<le> 3 * SSH_MAX_PACKET"

lemma accounts_pending: "accounts s d r \<Longrightarrow> length (pending (w_state r)) \<le> length (pending s) + length d"
  by (auto simp: accounts_def dest!: arg_cong [of _ _ length])

lemma forward_service_packet_ok:
  assumes inv: "conn_inv c" "tc_closing c = 0 \<or> \<not> tc_alive c" "answers (Suc (Suc k)) (en_writes c)" and ready: "service_ready (Suc (Suc n)) c"
    and l: "0 < l" "unat l \<le> length packet"
  shows "\<exists>ok c'. transport_forward_service_packet c seqno l packet = Some (ok, c') \<and> conn_inv c'
    \<and> (if has_room c l then ok \<and> passed_on c (service_frame seqno (take (unat l) packet)) c' \<and> goes_on n c c' else \<not> ok \<and> c' = c)"
proof -
  let ?s = "tf_service_writer c" and ?header = "WRITE_UINT32 seqno @ WRITE_UINT32 l"
  have s: "write_inv ?s" "str_length (w_buffer ?s) = 98304" "io_legal (en_service_writes c)" "answers (Suc (Suc n)) (en_service_writes c)"
    using ready by (simp_all add: service_ready_def)
  have av: "ssh_write_available ?s = Some (98304 - w_length ?s)" "w_length ?s \<le> 98304" using service_available [OF s(1)] s(2) by simp_all
  then have free: "unat (98304 - w_length ?s) = 98304 - unat (w_length ?s)" "unat (w_length ?s) \<le> 98304" by (simp_all add: unat_u32_diff u32_le)
  have room: "has_room c l \<longleftrightarrow> \<not> unat (98304 - w_length ?s) < unat l + 8" using free length_pending [OF s(1)] by (auto simp: has_room_def)
  show ?thesis
  proof (cases "has_room c l")
    case False
    then show ?thesis using room av(1) l(1) inv(1) by (intro exI [of _ False]) (simp add: transport_forward_service_packet_def)
  next
    case True
    then have "unat (8 :: u32) + unat (w_length ?s) \<le> unat (str_length (w_buffer ?s))" using room free s(2) by simp
    from service_write_ok [OF s(1) _ this _ s(3,4), of ?header]
    obtain r where r: "ssh_write_data ?s 0 8 ?header (en_service_writes c) = Some r" "accounts ?s ?header r" "io_legal (w_ios r)" "answers (Suc n) (w_ios r)"
        "write_fails (w_ios r) \<longrightarrow> write_fails (en_service_writes c)" "w_ret r > 0 \<or> w_errno r = Some EWOULDBLOCK \<or> write_fails (en_service_writes c)"
      by auto
    let ?c = "service_written c r"
    show ?thesis
    proof (cases "w_ret r > 0 \<or> w_errno r = Some EWOULDBLOCK")
      case fail: False
      obtain c' where "service_failed (service_written ?c (r\<lparr>w_sent := []\<rparr>)) = Some c'" "conn_inv c'" "tc_ssh_input c' < 0"
        using service_failed_ok [of "service_written ?c (r\<lparr>w_sent := []\<rparr>)" k] inv by auto
      then show ?thesis using True room fail av(1) l(1) r(1,6)
        by (intro exI [of _ True]) (simp add: transport_forward_service_packet_def Let_def passed_on_def goes_on_def)
    next
      case ok: True
      note st = service_written_stream [OF r(2) ok]
      have io: "io_legal (en_service_writes ?c)" "answers (Suc n) (en_service_writes ?c)" "write_fails (en_service_writes ?c) \<longrightarrow> write_fails (en_service_writes c)"
        using r(3-5) by (simp_all add: service_written_def)
      have "length (pending (tf_service_writer ?c)) \<le> length (pending ?s) + 8" using accounts_pending [OF r(2)] by (simp add: service_written_def)
      then have "unat (w_length (tf_service_writer ?c)) + unat l \<le> 98304" using True length_pending [OF st(2)] by (simp add: has_room_def)
      then obtain r2 c' where r2: "ssh_write_data (tf_service_writer ?c) 0 l packet (en_service_writes ?c) = Some r2"
          "(if w_ret r2 > 0 \<or> w_errno r2 = Some EWOULDBLOCK then Some (service_write_continue (service_written ?c r2)) else service_failed (service_written ?c r2)) = Some c'"
          "conn_inv c'" "passed_on ?c (take (unat l) packet) c'" "goes_on n ?c c'"
        using forward_body_ok [of ?c k n l packet] inv st(2,3) s(2) io l by auto
      have "to_service ?c @ take (unat l) packet = to_service c @ service_frame seqno (take (unat l) packet)"
        using st(1) l(2) by (simp add: service_frame_def)
      then have "passed_on c (service_frame seqno (take (unat l) packet)) c'" "goes_on n c c'"
        using r2(4,5) io(3) by (auto simp: passed_on_def goes_on_def)
      then show ?thesis using True room ok av(1) l(1) r(1) r2(1-3)
        by (intro exI [of _ True]) (simp add: transport_forward_service_packet_def Let_def split del: if_split)
    qed
  qed
qed

text \<open>A sequence of packets that are passed on while the connection goes on.\<close>

inductive forwards :: "('c, 'm, 'z, 'k, 'h) transport_connection \<Rightarrow> (u32 \<times> bytes) list \<Rightarrow> ('c, 'm, 'z, 'k, 'h) transport_connection \<Rightarrow> bool" where
  none: "forwards c [] c"
| packet: "\<lbrakk>forward_packet_handler c n (of_nat (length p)) p = Some (True, c1); 0 \<le> tc_ssh_input c1; forwards c1 ps c2\<rbrakk> \<Longrightarrow> forwards c ((n, p) # ps) c2"

definition forwardable :: "u32 \<times> bytes \<Rightarrow> bool" where
  "forwardable x \<longleftrightarrow> snd x \<noteq> [] \<and> length (snd x) \<le> 32768 \<and> snd x ! 0 < SSH_FIRST_LOCAL"

lemma forwards_stream:
  assumes "forwards c ps c'" "conn_inv c" "tc_closing c = 0" "answers 2 (en_writes c)"
    and "service_ready (2 * length ps) c" "list_all forwardable ps"
  shows "to_service c' = to_service c @ concat (map (\<lambda>(n, p). service_frame n p) ps)"
  using assms
proof (induction rule: forwards.induct)
  case (packet c n p c1 ps c2)
  have p: "p \<noteq> []" "length p \<le> 32768" "p ! 0 < 192" using packet.prems(5) by (simp_all add: forwardable_def)
  have l: "unat (of_nat (length p) :: u32) = length p" using p(2) by (intro unat_u32_of_nat) simp
  then have pos: "0 < (of_nat (length p) :: u32)" using p(1) by (simp add: u32_less)
  have eq: "transport_forward_service_packet c n (of_nat (length p)) p = Some (True, c1)"
    using packet.hyps(1) p l by (auto simp: forward_packet_handler_def c_assert_bind split: if_splits)
  have "service_ready (Suc (Suc (2 * length ps))) c" using packet.prems(4) by simp
  from forward_service_packet_ok [OF packet.prems(1) disjI1 [OF packet.prems(2)] packet.prems(3) [unfolded numeral_2_eq_2] this pos, of p n]
    packet.hyps(2)
  have c1: "conn_inv c1" "to_service c1 = to_service c @ service_frame n p" "service_ready (2 * length ps) c1" "en_writes c1 = en_writes c"
      "tc_closing c1 = tc_closing c" using eq p l packet.hyps(2) by (auto simp: passed_on_def goes_on_def split: if_splits)
  then show ?case using packet.IH [OF c1(1) _ _ c1(3)] packet.prems c1 by simp
qed simp

section \<open>Properties\<close>

text \<open>C16 (forwarding). A packet for local use is not passed on; it is answered by \<open>UNIMPLEMENTED\<close>. Any other packet is passed on when the buffer has
  room for its frame: the bytes for the service, sent or buffered, are extended by the frame and reading goes on; only when a write to the service
  fails for good may the connection be closed instead. When there is no room, the packet is refused and nothing changes, so that it is tried again later.\<close>

theorem forward_packet_correct:
  assumes "conn_inv c" "tc_closing c = 0 \<or> \<not> tc_alive c" "answers 2 (en_writes c)" "service_ready 2 c" "0 < l" "unat l \<le> length packet"
  shows "\<exists>ok c'. forward_packet_handler c seqno l packet = Some (ok, c') \<and> conn_inv c'
    \<and> (if packet ! 0 \<ge> SSH_FIRST_LOCAL then ok \<and> to_service c' = to_service c \<and> (tc_alive c' \<longrightarrow> sent_on c (3 # WRITE_UINT32 seqno) c')
       else if length (pending (tf_service_writer c)) + 8 + unat l \<le> 3 * SSH_MAX_PACKET
       then ok \<and> (to_service c' = to_service c @ service_frame seqno (take (unat l) packet) \<and> tc_ssh_input c' = tc_ssh_input c
              \<or> write_fails (en_service_writes c) \<and> tc_ssh_input c' < 0)
       else \<not> ok \<and> c' = c)"
proof (cases "packet ! 0 \<ge> SSH_FIRST_LOCAL")
  case True
  let ?p = "3 # WRITE_UINT32 seqno"
  have p: "packet_ok (packet_of ?p)" "contents (packet_of ?p) = ?p" by (simp_all add: packet_of_ok packet_of_contents)
  have "\<exists>c'. transport_send_packet c TRANSPORT_WRITE_FLAG_PUSH (Some (packet_of ?p)) = Some c' \<and> conn_inv c' \<and> answers 0 (en_writes c')
      \<and> (tc_alive c' \<longrightarrow> sent_on c (contents (packet_of ?p)) c')"
    using assms(3) by (intro send_packet_ok assms(1,2) p(1)) (simp_all add: numeral_2_eq_2)
  then obtain c' where c': "transport_send_packet c TRANSPORT_WRITE_FLAG_PUSH (Some (packet_of ?p)) = Some c'" "conn_inv c'" "tc_alive c' \<longrightarrow> sent_on c ?p c'"
    using p(2) by auto
  have "kept c c'" using c'(1) by (rule kept_send_packet)
  then have "to_service c' = to_service c" by (simp add: to_service_def kept_def)
  then show ?thesis using True assms(5) c' by (intro exI [of _ True]) (simp add: forward_packet_handler_def format_unimplemented_eq)
next
  case False
  then have "forward_packet_handler c seqno l packet = transport_forward_service_packet c seqno l packet"
    using assms(5) by (simp add: forward_packet_handler_def)
  moreover obtain ok c' where r: "transport_forward_service_packet c seqno l packet = Some (ok, c')" "conn_inv c'"
      "if has_room c l then ok \<and> passed_on c (service_frame seqno (take (unat l) packet)) c' \<and> goes_on 0 c c' else \<not> ok \<and> c' = c"
    using forward_service_packet_ok [OF assms(1,2) assms(3,4) [unfolded numeral_2_eq_2] assms(5,6), of seqno] by blast
  ultimately show ?thesis using False by (auto simp: has_room_def passed_on_def)
qed

lemma answers_replicate: "answers n (replicate n Done)"
  by (simp add: answers_def)

definition example_served :: "(unit, unit, unit, unit, unit) transport_connection" where
  "example_served = example_connection\<lparr>tf_service_writer := make_ssh_write_state (\<lambda>_. 0) (3 * SSH_MAX_PACKET)\<rparr>"

lemma example_service_ready: "service_ready 8 example_served" "conn_inv example_served" "to_service example_served = []"
proof -
  have "en_service_writes example_connection = replicate 8 Done" "en_service_sent example_connection = []"
    by (simp_all add: example_connection_def init_transport_forward_def io_register_fd_def environment.extend_def example_env_def)
  then show "service_ready 8 example_served" "to_service example_served = []"
    using init_write_inv(1) [of "98304" "\<lambda>_. 0"] init_write_inv(2) [of "\<lambda>_. 0" "98304"]
    by (simp_all add: example_served_def service_ready_def to_service_def make_ssh_write_state_def init_ssh_write_state_def io_legal_def answers_def)
  show "conn_inv example_served" using example_conn_inv by (simp add: example_served_def conn_inv_def example_fields)
qed

lemma service_ready_mono: "service_ready k c \<Longrightarrow> j \<le> k \<Longrightarrow> service_ready j c"
  using answers_mono by (auto simp: service_ready_def)

lemma example_served_fields: "tc_closing example_served = 0" "answers 2 (en_writes example_served)" "service_ready 2 example_served"
proof -
  show "tc_closing example_served = 0" by (simp add: example_served_def example_fields)
  show "answers 2 (en_writes example_served)"
    using answers_mono [OF answers_replicate [of 8], of 2] by (simp add: example_served_def example_fields)
  show "service_ready 2 example_served" by (rule service_ready_mono [OF example_service_ready(1)]) simp
qed

lemma example_served_writes: "pending (tf_service_writer example_served) = []" "en_service_writes example_served = replicate 8 Done" "tc_ssh_input example_served = 5"
  using example_service_ready(3)
  by (simp_all add: to_service_def example_served_def example_connection_def init_transport_forward_def io_register_fd_def environment.extend_def example_env_def)

theorem forward_packet_correct_witness:
  "\<exists>c'. forward_packet_handler example_served 9 2 [94, 1] = Some (True, c') \<and> conn_inv c'
    \<and> to_service c' = [0, 0, 0, 9, 0, 0, 0, 2, 94, 1] \<and> tc_ssh_input c' = 5"
proof -
  have "\<not> write_fails (replicate 8 Done)" by (simp add: write_fails_def)
  then show ?thesis
    using forward_packet_correct [OF example_service_ready(2), of 2 "[94, 1]" 9]
    by (auto simp: example_service_ready(3) example_served_fields example_served_writes service_frame_def WRITE_UINT32_def)
qed

section \<open>Forwarding and reading\<close>

lemma write_whole:
  assumes "w_length s = 0" "0 < l" "l \<le> WRITE_MAX"
  shows "\<exists>r. ssh_write_data s 0 l d (Done # ios) = Some r \<and> w_ret r > 0 \<and> w_state r = s \<and> w_ios r = ios"
proof -
  have "0 < unat l" "l \<noteq> 0" "min l WRITE_MAX = l" using assms(2,3) by (auto simp: u32_less min_def)
  then show ?thesis using assms by (simp add: ssh_write_data_def write_done_def enqueue_rest_def)
qed

lemma example_forwards:
  "\<exists>c'. forwards example_served [(9, [94, 1])] c' \<and> pending (tf_service_writer c') = []"
proof -
  let ?c = example_served
  have c: "w_length (tf_service_writer ?c) = 0" "str_length (w_buffer (tf_service_writer ?c)) = 98304" "en_service_writes ?c = Done # Done # replicate 6 Done" "0 \<le> tc_ssh_input ?c"
    by (simp_all add: example_served_def example_connection_def make_ssh_write_state_def init_ssh_write_state_def init_transport_forward_def io_register_fd_def
        environment.extend_def example_env_def numeral_eq_Suc)
  obtain r where r: "ssh_write_data (tf_service_writer ?c) 0 8 (WRITE_UINT32 9 @ WRITE_UINT32 2) (Done # Done # replicate 6 Done) = Some r"
      "w_ret r > 0" "w_state r = tf_service_writer ?c" "w_ios r = Done # replicate 6 Done"
    using write_whole [OF c(1), of 8] by (auto simp: WRITE_MAX_def)
  obtain q where q: "ssh_write_data (tf_service_writer ?c) 0 2 [94, 1] (Done # replicate 6 Done) = Some q" "w_ret q > 0" "w_state q = tf_service_writer ?c"
    using write_whole [OF c(1), of 2] by (auto simp: WRITE_MAX_def)
  define d where "d = service_write_continue (service_written (service_written ?c r) q)"
  have "ssh_write_available (tf_service_writer ?c) = Some 98304" using c(1,2) by (simp add: ssh_write_available_def lsh_string_length_def)
  then have "transport_forward_service_packet ?c 9 2 [94, 1] = Some (True, d)"
    using c(3) r q by (simp add: transport_forward_service_packet_def service_written_def d_def Let_def)
  then have "forward_packet_handler ?c 9 (of_nat (length [94, 1 :: byte])) [94, 1] = Some (True, d)" by (simp add: forward_packet_handler_def)
  moreover have "0 \<le> tc_ssh_input d" "pending (tf_service_writer d) = []"
    using c(1,4) q(3) by (simp_all add: d_def service_write_continue_def service_written_def forward_stop_write_def pending_def)
  ultimately show ?thesis by (blast intro: forwards.intros)
qed

end
