(* ===== verification/Spec2Isabelle.thy ===== *)
theory Spec2Isabelle
  imports String_Encodings Utf8 Alist Queue Ssh_Write Transport_Stream Kex_Match Service_Forward
begin

text \<open>
  A verification library for lsh, an implementation of the SSH protocol in C. It models the lower half of the
  program, from the counted strings up to the connections of the server process, and shows that the parts do what they are
  meant to do and fit together.

  \<^bold>\<open>The program.\<close> The server consists of several processes. \<open>lshd\<close> (\<open>src/lshd.c\<close>) owns the socket of a client and speaks the transport
  protocol; a service process behind it speaks the protocols above, in cleartext packets over a local socket. The
  parts of the transport process are layered. Strings (\<open>lsh_string.c\<close>) hold all data. Messages are built by \<open>format.c\<close> and read by
  \<open>parse.c\<close>; names of algorithms are atoms (\<open>atoms.c\<close>), the algorithms are found in association lists (\<open>alist.c\<close>). Buffers for input
  and output (\<open>ssh_read.c\<close>, \<open>ssh_write.c\<close>) are used by the readers and writers of packets, encrypted (\<open>transport_read.c\<close>,
  \<open>transport_write.c\<close>, with \<open>encrypt.c\<close> and \<open>crypto.c\<close>) and in cleartext (\<open>service_read.c\<close>). A connection (\<open>transport.c\<close>) has one of each,
  runs the key exchange (\<open>keyexchange.c\<close>) and passes packets between the network and the service (\<open>transport_forward.c\<close>).
  It is driven by callbacks of an event loop (\<open>io.c\<close>). Paths are relative to the directory \<open>src\<close> of the program.

  \<^bold>\<open>Conventions.\<close> \<open>uint8_t\<close> and \<open>uint32_t\<close> are words of 8 and 32 bits, so that sums wrap around as in C. An operation
  that changes an object takes and returns it. \<open>None\<close> as the result of a call means that the call does not return: an
  assertion fails, \<open>fatal\<close> is called, memory is used that C does not define, or a loop does not end. An error that the code reports is a
  value like any other. A theorem that a call returns states that its result is \<open>Some\<close>. Fresh memory has arbitrary contents
  (\<open>junk\<close>), random bytes are a function of their position. The results of system calls to come are arguments: for writing a list of
  functions from the number of bytes offered to the result (\<open>system_calls\<close>; \<open>io_legal\<close> says that they are results a system can
  give, and \<open>answers k\<close> that \<open>k\<close> calls are not just interrupted), for reading a \<open>socket\<close>, the bytes to come
  with a schedule that says for each call whether it fails or how many bytes have arrived, so that short reads occur. There is no fuel: loops whose end is not
  structural are functions with a termination proof or, where they may run forever, partial functions with value \<open>None\<close> in that
  case, and the theorems on them show that they return.

  \<^bold>\<open>Theories.\<close>
  \<^item> \<open>Lsh_Prelude\<close>: machine types, \<open>c_assert\<close>, byte order, slices of memory and lemmas on words and lists.
  \<^item> \<open>Lsh_String\<close>, \<open>String_Encodings\<close>: strings as length and memory with terminating NUL; an operation returns exactly when it stays inside.
    The text renderings of fingerprints are compared with reference definitions.
  \<^item> \<open>Atoms\<close>, \<open>Ssh\<close>, \<open>Format\<close>, \<open>Format_Render\<close>: the atoms and both passes of \<open>ssh_format\<close>. The first pass computes the number of bytes
    that the second writes, and the bytes are those of the reference \<open>render\<close>.
  \<^item> \<open>Parse\<close>, \<open>Utf8\<close>: all parsers. They never leave their buffer, and they undo the formatting; the locale \<open>wire_field\<close> is the contract
    between an encoding and its parser, interpreted for numbers, strings and lists of atoms. UTF-8 is parsed exactly
    when it is the shortest encoding of an admitted character.
  \<^item> \<open>Alist\<close>, \<open>Queue\<close>: the locale \<open>alist\<close> is the interface of association lists, interpreted for both implementations, which therefore
    agree. The linked queue, with its overlaid head and tail, refines lists; the locale \<open>deque\<close> is its contract.
  \<^item> \<open>Buffer_Window\<close>, \<open>Ssh_Write\<close>, \<open>Ssh_Read\<close>, \<open>Service_Read\<close>: buffered output and input and the reader of cleartext packets. No byte is
    lost, repeated or reordered, whatever the system calls report, and the packets of a stream are delivered.
  \<^item> \<open>Crypto\<close>, \<open>Encrypt\<close>, \<open>Transport_Read\<close>, \<open>Transport_Decode\<close>, \<open>Transport_Packets\<close>, \<open>Transport_Write\<close>, \<open>Transport_Stream\<close>: the packet layer.
    Sealed packets are delivered by the reader, packets with a wrong authentication code are not, and the writer accounts for
    every byte.
  \<^item> \<open>Kex_Keys\<close>, \<open>Keyexchange\<close>, \<open>Kex_Finish\<close>, \<open>Kex_Match\<close>: the derivation of session keys, the negotiation of algorithms and the end of the key exchange. Both
    sides agree on the algorithms, and the keys one side sends with are those the other side receives with.
  \<^item> \<open>Transport_Connection\<close>, \<open>Transport_Process\<close>: the connection as the record \<open>transport_connection\<close>, which extends the \<open>environment\<close> (callbacks of
    the event loop, count of files, request to stop, system calls); one definition for each function of \<open>transport.c\<close> and \<open>transport_forward.c\<close> and for the
    handlers of \<open>lshd.c\<close>. A method pointer is a tag for the function stored there. What is outside is in the record \<open>externals\<close>.
  \<^item> \<open>Connection_Safety\<close>, \<open>Connection_Inv\<close>, \<open>Service_Forward\<close>: properties of connections. Processing a packet refines the state machine
    \<open>kex_step\<close> of the key exchange; no packet reaches the service during it, and the keys change only with \<open>NEWKEYS\<close>. Under
    the invariant \<open>conn_inv\<close>, sending, closing and disconnecting return. Packets passed on to the service are framed as its reader expects them.
  \<^item> This theory: both directions of the packet layer put together, and forwarding together with the reader of the service.

  \<^bold>\<open>Parameters and their contracts.\<close> The hash function generated for the atoms (\<open>gperf_spec\<close>), ciphers (\<open>cipher_ok\<close>, \<open>inverse_ciphers\<close>), authentication codes
  (\<open>mac_laws\<close>), hash algorithms of nettle (\<open>hash_spec\<close>), compression, big numbers, the methods of the key exchange algorithms (\<open>kex_methods_ok\<close>: they do not
  touch the reader or the stream to the service, and leave the key exchange in progress or finish it) and the start of a service process.

  \<^bold>\<open>Flaws that the model shows.\<close> Packets of more than 34000 bytes pass the checks of the transport reader and then fail an assertion, and so does a packet of
  the maximal size in the reader of the service. A connection closed while output is pending
  on a socket used in both directions leaves a callback registered that fails an assertion at the next input, and
  its socket is not taken off the count of files. The server compares only four bytes of the version string.

  \<^bold>\<open>Not modelled.\<close> The protocols above the transport (channels, user authentication, sessions, forwarding of ports and terminals), whose programs
  are mostly system calls around callbacks; the client programs and key tools; Diffie-Hellman, SRP and public keys, which rest on big
  numbers and S-expressions of libraries whose sources are not part of the program; configuration files and command
  lines; garbage collection and allocation, since values of the model are never freed; diagnostic output; the duration of timeouts; and the
  file transfer program.
\<close>

section \<open>Properties that span components\<close>

text \<open>C1 The packet layer from one end to the other, without compression: whatever packets of one to \<open>SSH_MAX_PACKET\<close> bytes are written and flushed
  on an idle connection, with whatever partial writes and errors short of an overflow of the buffer, once only ignorable data is left in the buffer of
  the writer, a reader with matching keys and sequence number whose reads give it the bytes sent in chunks of any sizes, with interruptions and
  calls that would block in between, delivers exactly the messages given to the writer, in order; only \<open>SSH_MSG_IGNORE\<close> messages may be
  added or still be under way. A pushed \<open>SSH_MSG_IGNORE\<close> on a buffer without other data, and packets flagged as ignorable, are not considered.\<close>

theorem transport_end_to_end:
  fixes s :: "('c, 'm, 'z) transport_read_state" and w0 :: "('c, 'm, 'y) transport_write_state"
  assumes "writer_step\<^sup>*\<^sup>* (w0, [], []) (w, given, sent)" "writer_inv w0" "sender_ok w0" "w_length (tw_super w0) = 0"
    and "w_length (tw_super w) \<le> tw_ignore w"
    and "expecting R s (tw_crypto w0) (tw_mac w0) (tw_seqno w0)" "benign sk" "transport_stream s sk = sent"
    and "nul_terminated buf" "unat (str_length buf) = 32769"
  shows "\<exists>ps s' sk' buf'. transport_delivers (s, sk, buf) ps (s', sk', buf') \<and> messages (map snd ps) = messages given"
  using assms by (rule run_delivered)

theorem transport_end_to_end_witness:
  "\<exists>w sent ps s' sk' buf'.
     writer_step (make_transport_write_state (\<lambda>_. 0) :: (unit, unit, unit) transport_write_state, [], []) (w, [[94, 1]], sent)
     \<and> transport_delivers (make_transport_read_state (\<lambda>_. 0) :: (unit, unit, unit) transport_read_state,
          \<lparr>sk_events = [Read_fails EINTR, Read_bytes 2, Read_fails EWOULDBLOCK, Read_bytes 6], sk_input = sent, sk_readable = True\<rparr>, lsh_string_alloc (\<lambda>_. 0) 32769) ps (s', sk', buf')
     \<and> messages (map snd ps) = [[94, 1]]"
proof -
  let ?w = "make_transport_write_state (\<lambda>_. 0) :: (unit, unit, unit) transport_write_state"
  let ?r = "make_transport_read_state (\<lambda>_. 0) :: (unit, unit, unit) transport_read_state"
  obtain w sent where run: "writer_step (?w, [], []) (w, [[94, 1]], sent)" "w_length (tw_super w) = 0"
    using example_run by blast
  have "w_length (tw_super ?w) = 0" "tw_crypto ?w = None" "tw_mac ?w = None" "tw_seqno ?w = 0" "sender_ok ?w"
    by (simp_all add: make_transport_write_state_def init_ssh_write_state_def sender_ok_def cipher_ok_def)
  moreover have "expecting (\<lambda>_ _. True) ?r None None 0"
    using make_transport_inv [of "\<lambda>_. 0"] by (simp add: expecting_def make_transport_read_state_def ssh_read_state.defs)
  moreover have "nul_terminated (lsh_string_alloc (\<lambda>_. 0) 32769)" "str_length (lsh_string_alloc (\<lambda>_. 0) 32769) = 32769"
    by simp_all
  ultimately obtain ps s' sk' buf' where "transport_delivers (?r, \<lparr>sk_events = [Read_fails EINTR, Read_bytes 2, Read_fails EWOULDBLOCK, Read_bytes 6], sk_input = sent, sk_readable = True\<rparr>, lsh_string_alloc (\<lambda>_. 0) 32769) ps (s', sk', buf')"
      "messages (map snd ps) = messages [[94, 1]]"
    using transport_end_to_end [OF r_into_rtranclp [where r = writer_step, OF run(1)] make_writer_inv(1), of "\<lambda>_ _. True"
        ?r "\<lparr>sk_events = [Read_fails EINTR, Read_bytes 2, Read_fails EWOULDBLOCK, Read_bytes 6], sk_input = sent, sk_readable = True\<rparr>"
        "lsh_string_alloc (\<lambda>_. 0) 32769"] run(2)
    by (auto simp: benign_def make_transport_inv(2))
  moreover have "messages [[94, 1]] = [[94, 1]]" by (simp add: messages_def)
  ultimately show ?thesis
    using run(1) by (intro exI [of _ w] exI [of _ sent] exI [of _ ps] exI [of _ s'] exI [of _ sk'] exI [of _ buf']) simp
qed

text \<open>C7 From the connection to the service: when packets of less than the maximal size of 32768 bytes, none empty and none for local use, are passed on to
  the service one after the other, while the connection goes on, and everything buffered has been written, then a service whose reads
  give it these bytes in chunks of any sizes, with interruptions and calls that would block in between, receives exactly these packets with their
  sequence numbers, in order.\<close>

theorem service_end_to_end:
  assumes "forwards c ps c'" "conn_inv c" "tc_closing c = 0" "answers 2 (en_writes c)" "service_ready (2 * length ps) c"
    and "to_service c = []" "list_all forwardable ps" "\<forall>(n, p) \<in> set ps. length p < 32768" "pending (tf_service_writer c') = []"
    and "service_inv s" "service_stream s sk = en_service_sent c'" "set (sk_errors sk) \<subseteq> {EINTR, EWOULDBLOCK}"
  shows "\<exists>s' sk'. service_delivers (s, sk) ps (s', sk') \<and> service_stream s' sk' = []"
proof (rule frames_delivered [OF assms(10) _ _ assms(12)])
  have "to_service c' = concat (map (\<lambda>(n, p). service_frame n p) ps)" using forwards_stream [OF assms(1-5,7)] assms(6) by simp
  then show "service_stream s sk = concat (map (\<lambda>(n, p). service_frame n p) ps)" using assms(9,11) by (simp add: to_service_def)
  show "\<forall>(n, p) \<in> set ps. 0 < length p \<and> length p < 32768" using assms(7,8) by (auto simp: list_all_iff forwardable_def)
qed

theorem service_end_to_end_witness:
  "\<exists>c' s' sk'. forwards example_served [(9, [94, 1])] c'
     \<and> service_delivers (make_service_read_state (\<lambda>_. 0) 0, \<lparr>sk_events = [Read_fails EINTR, Read_bytes 2], sk_input = en_service_sent c', sk_readable = True\<rparr>) [(9, [94, 1])] (s', sk')"
proof -
  obtain c' where c': "forwards example_served [(9, [94, 1])] c'" "pending (tf_service_writer c') = []" using example_forwards by blast
  show ?thesis
    using c' service_end_to_end [OF c'(1) example_service_ready(2) example_served_fields(1,2) _ example_service_ready(3) _ _ c'(2) make_service_inv(1) [of "\<lambda>_. 0" 0],
        of "\<lparr>sk_events = [Read_fails EINTR, Read_bytes 2], sk_input = en_service_sent c', sk_readable = True\<rparr>"] example_served_fields(3)
    by (auto simp: forwardable_def make_service_inv(2))
qed

end
